(* ===== verification/Prelude.thy ===== *)
theory Prelude
  imports Main "HOL-Library.Word" "HOL-Library.List_Lexorder" "HOL-Library.Char_ord"
begin

text \<open>
  What the components share: the fact collections of the development, the C++
  library algorithms the sources call (\<open>std::find\<close>, \<open>std::search\<close>, \<open>std::copy\<close>,
  \<open>std::map\<close>, decimal output of integers), modelled on lists, and the generic
  lemmas on lists that carry the component proofs.

  Characters are bytes (\<open>char\<close>), strings are lists of bytes, a pointer into an
  array is an offset, and a range \<open>[begin, end)\<close> of the array is a list.
\<close>

section \<open>Fact collections and shared types\<close>

named_theorems inv_intros \<open>an operation keeps the well-formedness invariant of its component\<close>
named_theorems abs_simps \<open>what an operation does to the abstract view of its component\<close>
named_theorems frame_simps \<open>what an operation leaves unchanged\<close>

text \<open>
  The ways a C++ run goes wrong that the models make explicit: an access outside an
  array, a failed \<open>assert\<close>, the dereference of a pointer to no live object, the overflow
  of a signed integer (undefined in C++), and
  \<open>abort\<close> (which is what \<open>LOG_FATAL\<close> ends in). \<open>res_bind\<close> runs the rest of a function
  body after a call that may go wrong.
\<close>

datatype cerror = OutOfBounds | AssertFail | BadPointer | Abort | IntOverflow

type_synonym 'a res = "cerror + 'a"

fun res_bind :: "'a res \<Rightarrow> ('a \<Rightarrow> 'b res) \<Rightarrow> 'b res" where
  "res_bind (Inl e) f = Inl e"
| "res_bind (Inr x) f = f x"

fun_cases res_bind_InrE [elim!]: "res_bind r f = Inr y"

lemma Inr_res_bindE [elim!]:
  "Inr y = res_bind r f \<Longrightarrow> (\<And>x. r = Inr x \<Longrightarrow> f x = Inr y \<Longrightarrow> P) \<Longrightarrow> P"
  by (metis res_bind_InrE)

lemma res_bind_Inr_iff: "res_bind r f = Inr y \<longleftrightarrow> (\<exists>x. r = Inr x \<and> f x = Inr y)"
  by (cases r) auto

lemma res_bind_assoc: "res_bind (res_bind r f) g = res_bind r (\<lambda>x. res_bind (f x) g)"
  by (cases r) auto

lemma res_bind_Inr_right [simp]: "res_bind r Inr = r"
  by (cases r) auto

text \<open>Values of \<open>errno\<close> that the sources compare with, and the others.\<close>

datatype errno = EWOULDBLOCK | EPIPE | ECONNRESET | EINTR | EMFILE | ErrnoOther int

section \<open>Transition systems\<close>

text \<open>
  Components with interleaved threads are transition systems. \<open>inductive_invariant\<close> is
  the obligation of an invariant; its interpretations give the invariant in every
  reachable state.
\<close>

inductive reach :: "('s \<Rightarrow> bool) \<Rightarrow> ('s \<Rightarrow> 's \<Rightarrow> bool) \<Rightarrow> 's \<Rightarrow> bool"
  for init :: "'s \<Rightarrow> bool" and step :: "'s \<Rightarrow> 's \<Rightarrow> bool" where
  reach_init: "init s \<Longrightarrow> reach init step s"
| reach_step: "reach init step s \<Longrightarrow> step s t \<Longrightarrow> reach init step t"

lemmas steps_calculation [trans] = rtranclp_trans rtranclp.rtrancl_into_rtrancl

lemma reach_steps: "step\<^sup>*\<^sup>* s t \<Longrightarrow> reach init step s \<Longrightarrow> reach init step t"
  by (induction rule: rtranclp_induct) (auto intro: reach_step)

locale inductive_invariant =
  fixes init :: "'s \<Rightarrow> bool"
    and step :: "'s \<Rightarrow> 's \<Rightarrow> bool"
    and inv :: "'s \<Rightarrow> bool"
  assumes init_inv: "init s \<Longrightarrow> inv s"
    and step_inv: "inv s \<Longrightarrow> step s t \<Longrightarrow> inv t"
begin

lemma reach_inv: "reach init step s \<Longrightarrow> inv s"
  by (induction rule: reach.induct) (auto intro: init_inv step_inv)

lemma steps_inv: "step\<^sup>*\<^sup>* s t \<Longrightarrow> inv s \<Longrightarrow> inv t"
  by (induction rule: rtranclp_induct) (auto intro: step_inv)

end

section \<open>Algorithms of the C++ library\<close>

text \<open>\<open>std::find(begin, end, c)\<close>: the offset of the first \<open>c\<close>, or of the end.\<close>

definition std_find :: "'a \<Rightarrow> 'a list \<Rightarrow> nat" where
  "std_find c xs = length (takeWhile (\<lambda>x. x \<noteq> c) xs)"

text \<open>\<open>std::search\<close>: the offset of the first occurrence of a pattern, \<open>None\<close> for the end.\<close>

fun std_search :: "'a list \<Rightarrow> 'a list \<Rightarrow> nat option" where
  "std_search p [] = (if p = [] then Some 0 else None)"
| "std_search p (x # xs) =
     (if take (length p) (x # xs) = p then Some 0 else map_option Suc (std_search p xs))"

text \<open>
  \<open>std::copy\<close> from the offsets \<open>[lo, lo + n)\<close> of an array to the offset \<open>dst\<close> of
  the same array: the element-by-element loop of the library.
\<close>

fun copy_within :: "nat \<Rightarrow> nat \<Rightarrow> nat \<Rightarrow> 'a list \<Rightarrow> 'a list" where
  "copy_within lo 0 dst xs = xs"
| "copy_within lo (Suc n) dst xs = copy_within (Suc lo) n (Suc dst) (xs[dst := xs ! lo])"

text \<open>\<open>std::copy\<close> of other data over the bytes of an array from offset \<open>i\<close> on.\<close>

definition write_at :: "nat \<Rightarrow> 'a list \<Rightarrow> 'a list \<Rightarrow> 'a list" where
  "write_at i ys xs = take i xs @ ys @ drop (i + length ys) xs"

text \<open>
  \<open>std::vector<char>::resize(n)\<close>: cut, or fill with zero bytes.
\<close>

definition vector_resize :: "nat \<Rightarrow> char list \<Rightarrow> char list" where
  "vector_resize n xs = take n xs @ replicate (n - length xs) (CHR 0x00)"

text \<open>
  \<open>std::map\<close> with its ordered iteration: an association list in increasing key order.
  \<open>map_put\<close> is \<open>m[k] = v\<close>, \<open>map_find\<close> is \<open>m.find(k)\<close>.
\<close>

fun map_put :: "'k::linorder \<Rightarrow> 'v \<Rightarrow> ('k \<times> 'v) list \<Rightarrow> ('k \<times> 'v) list" where
  "map_put k v [] = [(k, v)]"
| "map_put k v ((k', v') # m) =
     (if k < k' then (k, v) # (k', v') # m
      else if k = k' then (k, v) # m
      else (k', v') # map_put k v m)"

fun map_find :: "'k \<Rightarrow> ('k \<times> 'v) list \<Rightarrow> 'v option" where
  "map_find k [] = None"
| "map_find k ((k', v') # m) = (if k = k' then Some v' else map_find k m)"

definition map_sorted :: "('k::linorder \<times> 'v) list \<Rightarrow> bool" where
  "map_sorted m \<longleftrightarrow> sorted_wrt (<) (map fst m)"

text \<open>\<open>isspace\<close> in the C locale.\<close>

definition isspace :: "char \<Rightarrow> bool" where
  "isspace c \<longleftrightarrow> c = CHR 0x20 \<or> c = CHR 0x09 \<or> c = CHR 0x0A \<or> c = CHR 0x0B \<or>
     c = CHR 0x0C \<or> c = CHR 0x0D"

text \<open>Decimal output of integers, as \<open>operator<<\<close> of streams and \<open>%d\<close> print them.\<close>

definition dec_digit :: "nat \<Rightarrow> char" where
  "dec_digit d = char_of (48 + d)"

fun dec :: "nat \<Rightarrow> string" where
  "dec n = (if n < 10 then [dec_digit n] else dec (n div 10) @ [dec_digit (n mod 10)])"

declare dec.simps [simp del]

definition dec_int :: "int \<Rightarrow> string" where
  "dec_int i = (if i < 0 then ''-'' @ dec (nat (- i)) else dec (nat i))"

text \<open>Reading a decimal number back (the specification of the printers).\<close>

definition undec :: "string \<Rightarrow> nat" where
  "undec s = foldl (\<lambda>a c. 10 * a + (of_char c - 48)) 0 s"

section \<open>Lemmas\<close>

subsection \<open>Searching\<close>

lemma std_find_le [simp]: "std_find c xs \<le> length xs"
  by (simp add: std_find_def length_takeWhile_le)

lemma std_find_Nil [simp]: "std_find c [] = 0"
  by (simp add: std_find_def)

lemma std_find_notin: "c \<notin> set xs \<Longrightarrow> std_find c xs = length xs"
  by (induction xs) (auto simp: std_find_def)

lemma std_find_append: "c \<notin> set xs \<Longrightarrow> std_find c (xs @ c # ys) = length xs"
  by (induction xs) (auto simp: std_find_def)

lemma std_find_eq_length_iff: "std_find c xs = length xs \<longleftrightarrow> c \<notin> set xs"
  by (induction xs) (auto simp: std_find_def)

lemma std_find_nth: "std_find c xs < length xs \<Longrightarrow> xs ! std_find c xs = c"
  by (induction xs) (auto simp: std_find_def)

lemma std_find_take_notin: "c \<notin> set (take (std_find c xs) xs)"
  by (induction xs) (auto simp: std_find_def)

lemma std_search_bound: "std_search p xs = Some i \<Longrightarrow> i + length p \<le> length xs"
proof (induction xs arbitrary: i)
  case Nil
  then show ?case by (simp split: if_splits)
next
  case (Cons x xs)
  show ?case
  proof (cases "take (length p) (x # xs) = p")
    case True
    then have "length p \<le> length (x # xs)"
      by (metis length_take min.cobounded1)
    with True Cons.prems show ?thesis by simp
  next
    case False
    with Cons.prems obtain j where "std_search p xs = Some j" and "i = Suc j"
      by auto
    with Cons.IH show ?thesis by simp
  qed
qed

lemma std_search_at: "std_search p xs = Some i \<Longrightarrow> take (length p) (drop i xs) = p"
proof (induction xs arbitrary: i)
  case Nil
  then show ?case by (simp split: if_splits)
next
  case (Cons x xs)
  then show ?case by (auto split: if_splits)
qed

text \<open>A match that lies in a prefix is found there, whatever follows.\<close>

lemma std_search_extend: "std_search p xs = Some i \<Longrightarrow> std_search p (xs @ ys) = Some i"
proof (induction xs arbitrary: i)
  case Nil
  then show ?case by (cases ys) (auto split: if_splits)
next
  case (Cons x xs)
  show ?case
  proof (cases "take (length p) (x # xs) = p")
    case True
    then have "length p \<le> length (x # xs)"
      by (metis length_take min.cobounded1)
    then have "take (length p) ((x # xs) @ ys) = take (length p) (x # xs)"
      by (metis append_Nil2 diff_is_0_eq' take0 take_append)
    with True Cons.prems show ?thesis by simp
  next
    case False
    with Cons.prems obtain j where j: "std_search p xs = Some j" "i = Suc j"
      by auto
    have "length p \<le> length xs"
      using std_search_bound [OF j(1)] by simp
    then have "take (length p) (x # xs @ ys) = take (length p) (x # xs)"
      by (cases "length p") auto
    with False Cons.IH [OF j(1)] j(2) show ?thesis by auto
  qed
qed

subsection \<open>Arrays\<close>

lemma in_set_tlD: "x \<in> set (tl xs) \<Longrightarrow> x \<in> set xs"
  by (cases xs) auto

lemma take_drop_append [simp]: "take n xs @ drop n xs @ ys = xs @ ys"
  by (metis append.assoc append_take_drop_id)

lemma length_copy_within [simp]: "length (copy_within lo n dst xs) = length xs"
  by (induction lo n dst xs rule: copy_within.induct) auto

lemma length_write_at [simp]:
  "i + length ys \<le> length xs \<Longrightarrow> length (write_at i ys xs) = length xs"
  by (simp add: write_at_def)

lemma length_vector_resize [simp]: "length (vector_resize n xs) = n"
  by (simp add: vector_resize_def)

lemma take_write_at [simp]: "i \<le> length xs \<Longrightarrow> take i (write_at i ys xs) = take i xs"
  by (simp add: write_at_def)

lemma take_write_at_end:
  "i \<le> length xs \<Longrightarrow> take (i + length ys) (write_at i ys xs) = take i xs @ ys"
  by (simp add: write_at_def)

lemma take_vector_resize: "k \<le> length xs \<Longrightarrow> k \<le> n \<Longrightarrow> take k (vector_resize n xs) = take k xs"
  by (auto simp: vector_resize_def min_def)

text \<open>
  The copy loop moves a block down: each source element is read before the loop
  overwrites it, because the destination is not after the source.
\<close>

lemma copy_within_block:
  assumes "dst \<le> lo" and "lo + n \<le> length xs"
  shows "copy_within lo n dst xs = take dst xs @ take n (drop lo xs) @ drop (dst + n) xs"
  using assms
proof (induction lo n dst xs rule: copy_within.induct)
  case (1 lo dst xs)
  then show ?case by simp
next
  case (2 lo n dst xs)
  let ?ys = "xs[dst := xs ! lo]"
  have IH: "copy_within (Suc lo) n (Suc dst) ?ys =
      take (Suc dst) ?ys @ take n (drop (Suc lo) ?ys) @ drop (Suc dst + n) ?ys"
    using 2 by simp
  have "take (Suc dst) ?ys = take dst xs @ [xs ! lo]"
    using 2 by (simp add: take_Suc_conv_app_nth)
  moreover have "drop (Suc lo) ?ys = drop (Suc lo) xs"
    using 2 by simp
  moreover have "drop (Suc dst + n) ?ys = drop (Suc dst + n) xs"
    by simp
  moreover have "take (Suc n) (drop lo xs) = xs ! lo # take n (drop (Suc lo) xs)"
    using 2 by (simp add: Cons_nth_drop_Suc [symmetric])
  ultimately show ?case using IH by simp
qed

subsection \<open>Ordered maps\<close>

lemma map_find_put: "map_find k (map_put k' v m) = (if k = k' then Some v else map_find k m)"
  by (induction k' v m rule: map_put.induct) auto

lemma set_map_put: "fst ` set (map_put k v m) = insert k (fst ` set m)"
  by (induction k v m rule: map_put.induct) auto

lemma map_sorted_Nil [simp]: "map_sorted []"
  by (simp add: map_sorted_def)

lemma map_sorted_Cons:
  "map_sorted ((k, v) # m) \<longleftrightarrow> (\<forall>k' \<in> fst ` set m. k < k') \<and> map_sorted m"
  by (auto simp: map_sorted_def)

lemma map_sorted_put [intro]: "map_sorted m \<Longrightarrow> map_sorted (map_put k v m)"
  by (induction k v m rule: map_put.induct) (auto simp: map_sorted_Cons set_map_put)

subsection \<open>Decimal numbers\<close>

lemma of_char_dec_digit: "d < 10 \<Longrightarrow> of_char (dec_digit d) = (48 + d :: nat)"
  by (simp add: dec_digit_def)

lemma undec_Nil [simp]: "undec [] = 0"
  by (simp add: undec_def)

lemma undec_snoc: "undec (s @ [c]) = 10 * undec s + (of_char c - 48)"
  by (simp add: undec_def)

lemma undec_dec [simp]: "undec (dec n) = n"
proof (induction n rule: dec.induct)
  case (1 n)
  show ?case
  proof (cases "n < 10")
    case True
    then show ?thesis
      by (simp add: dec.simps [of n] of_char_dec_digit undec_def)
  next
    case False
    with 1 have "undec (dec (n div 10)) = n div 10" by simp
    moreover have "of_char (dec_digit (n mod 10)) = (48 + n mod 10 :: nat)"
      by (rule of_char_dec_digit) simp
    ultimately show ?thesis
      using False by (simp add: dec.simps [of n] undec_snoc)
  qed
qed

lemma dec_inject [simp]: "dec m = dec n \<longleftrightarrow> m = n"
  by (metis undec_dec)

lemma dec_not_Nil [simp]: "dec n \<noteq> []"
  by (subst dec.simps) simp

lemma set_dec: "set (dec n) \<subseteq> dec_digit ` {..<10}"
proof (induction n rule: dec.induct)
  case (1 n)
  show ?case
  proof (cases "n < 10")
    case True
    then show ?thesis by (subst dec.simps) auto
  next
    case False
    with 1 have "set (dec (n div 10)) \<subseteq> dec_digit ` {..<10}" by simp
    with False show ?thesis by (subst dec.simps) auto
  qed
qed

lemma length_dec_le: "n < 10 ^ Suc k \<Longrightarrow> length (dec n) \<le> Suc k"
proof (induction k arbitrary: n)
  case 0
  then show ?case by (subst dec.simps) simp
next
  case (Suc k)
  show ?case
  proof (cases "n < 10")
    case True
    then show ?thesis by (subst dec.simps) simp
  next
    case False
    from Suc.prems have "n div 10 < 10 ^ Suc k"
      by (simp add: less_mult_imp_div_less mult.commute)
    then have "length (dec (n div 10)) \<le> Suc k" by (rule Suc.IH)
    with False show ?thesis by (subst dec.simps) simp
  qed
qed

lemma dec_chars: "c \<in> set (dec n) \<Longrightarrow> \<exists>d<10. c = dec_digit d"
  using set_dec [of n] by blast

lemma dec_char_code: "c \<in> set (dec n) \<Longrightarrow> 48 \<le> (of_char c :: nat) \<and> (of_char c :: nat) \<le> 57"
  by (auto dest!: dec_chars simp: of_char_dec_digit)

lemma dec_only_digits:
  assumes "c \<in> set (dec n)"
  shows "c \<noteq> CHR '':'' \<and> c \<noteq> CHR 0x0D \<and> \<not> isspace c"
  using dec_char_code [OF assms] by (auto simp: isspace_def)

text \<open>Evaluation of decimal output on numerals.\<close>

lemma bit_Suc_0_0: "bit (Suc 0) 0"
  by (simp add: bit_0)

lemmas dec_eval = dec.simps dec_digit_def char_of_def bit_Suc_0_0

end
