(* ===== verification/Net_Buffer.thy ===== *)
theory Net_Buffer
  imports Prelude
begin

text \<open>
  The class \<open>Buffer\<close> (\<open>src/include/Buffer.h\<close>, \<open>src/src/Buffer.cpp\<close>): one byte
  vector with a reader and a writer index, eight bytes of head room, growth on
  demand, and scatter input from a socket.

  Sizes are natural numbers. The invariant \<open>buf_inv\<close>, which the constructor
  establishes and every operation keeps, orders the two indices and the vector's
  size, so none of the unsigned subtractions of the class goes below zero.
  The calls \<open>readv\<close> and \<open>write\<close> of the operating system are parameters.
\<close>

section \<open>Data and operations\<close>

record buffer =
  buffer_data :: "char list"
  readerIndex :: nat
  writerIndex :: nat

definition kCheapPrepend :: nat where
  "kCheapPrepend = 8"

definition kInitialSize :: nat where
  "kInitialSize = 1024"

definition kCRLF :: string where
  "kCRLF = [CHR 0x0D, CHR 0x0A]"

definition extrabuf_size :: nat where
  "extrabuf_size = 65536"

definition Buffer_new :: "nat \<Rightarrow> buffer" where
  "Buffer_new initialSize =
     \<lparr>buffer_data = replicate (kCheapPrepend + initialSize) (CHR 0x00),
      readerIndex = kCheapPrepend, writerIndex = kCheapPrepend\<rparr>"

definition readableBytes :: "buffer \<Rightarrow> nat" where
  "readableBytes b = writerIndex b - readerIndex b"

definition writableBytes :: "buffer \<Rightarrow> nat" where
  "writableBytes b = length (buffer_data b) - writerIndex b"

definition prependableBytes :: "buffer \<Rightarrow> nat" where
  "prependableBytes b = readerIndex b"

definition retrieveAll :: "buffer \<Rightarrow> buffer" where
  "retrieveAll b = b\<lparr>readerIndex := kCheapPrepend, writerIndex := kCheapPrepend\<rparr>"

definition retrieve :: "nat \<Rightarrow> buffer \<Rightarrow> buffer" where
  "retrieve len b =
     (if len < readableBytes b then b\<lparr>readerIndex := readerIndex b + len\<rparr>
      else retrieveAll b)"

text \<open>
  \<open>std::string result(peek(), len)\<close> reads \<open>len\<close> bytes from the reader index on; a
  length that leaves the vector is an access out of bounds.
\<close>

definition retrieveAsString :: "nat \<Rightarrow> buffer \<Rightarrow> (string \<times> buffer) res" where
  "retrieveAsString len b =
     (if readerIndex b + len \<le> length (buffer_data b)
      then Inr (take len (drop (readerIndex b) (buffer_data b)), retrieve len b)
      else Inl OutOfBounds)"

definition retrieveAllAsString :: "buffer \<Rightarrow> (string \<times> buffer) res" where
  "retrieveAllAsString b = retrieveAsString (readableBytes b) b"

definition makeSpace :: "nat \<Rightarrow> buffer \<Rightarrow> buffer" where
  "makeSpace len b =
     (if writableBytes b + prependableBytes b < len + kCheapPrepend
      then b\<lparr>buffer_data := vector_resize (writerIndex b + len) (buffer_data b)\<rparr>
      else let readable = readableBytes b in
        b\<lparr>buffer_data := copy_within (readerIndex b) (writerIndex b - readerIndex b)
                           kCheapPrepend (buffer_data b),
          readerIndex := kCheapPrepend,
          writerIndex := kCheapPrepend + readable\<rparr>)"

definition ensureWritableBytes :: "nat \<Rightarrow> buffer \<Rightarrow> buffer" where
  "ensureWritableBytes len b = (if writableBytes b < len then makeSpace len b else b)"

definition append :: "string \<Rightarrow> buffer \<Rightarrow> buffer" where
  "append data b =
     (let b' = ensureWritableBytes (length data) b in
        b'\<lparr>buffer_data := write_at (writerIndex b') data (buffer_data b'),
           writerIndex := writerIndex b' + length data\<rparr>)"

text \<open>
  \<open>findCRLF\<close> returns a pointer into the vector (here: its offset) or \<open>NULL\<close>.
\<close>

definition peek_range :: "buffer \<Rightarrow> string" where
  "peek_range b = take (readableBytes b) (drop (readerIndex b) (buffer_data b))"

definition findCRLF :: "buffer \<Rightarrow> nat option" where
  "findCRLF b = map_option (\<lambda>i. readerIndex b + i) (std_search kCRLF (peek_range b))"

definition retrieveUntil :: "nat \<Rightarrow> buffer \<Rightarrow> buffer res" where
  "retrieveUntil e b =
     (if \<not> readerIndex b \<le> e then Inl AssertFail
      else if \<not> e \<le> writerIndex b then Inl AssertFail
      else Inr (retrieve (e - readerIndex b) b))"

text \<open>
  \<open>readv(fd, vec, iovcnt)\<close> is given the total room of the vectors it may fill and
  answers with an error number or with the bytes it read, which fill \<open>vec[0]\<close> first.
\<close>

type_synonym readv_fn = "nat \<Rightarrow> errno + string"

definition readFd :: "readv_fn \<Rightarrow> buffer \<Rightarrow> (errno + nat) \<times> buffer" where
  "readFd readv b =
     (let writable = writableBytes b;
          room = (if writable < extrabuf_size then writable + extrabuf_size else writable)
      in case readv room of
           Inl e \<Rightarrow> (Inl e, b)
         | Inr bs \<Rightarrow>
             let n = length bs;
                 b' = b\<lparr>buffer_data :=
                          write_at (writerIndex b) (take writable bs) (buffer_data b)\<rparr>
             in if n \<le> writable
                then (Inr n, b'\<lparr>writerIndex := writerIndex b' + n\<rparr>)
                else (Inr n, append (drop writable bs)
                               (b'\<lparr>writerIndex := length (buffer_data b')\<rparr>)))"

text \<open>\<open>write(fd, data, n)\<close> is given the bytes and answers how many it took, or an error.\<close>

type_synonym write_fn = "string \<Rightarrow> errno + nat"

definition writeFd :: "write_fn \<Rightarrow> buffer \<Rightarrow> errno + nat" where
  "writeFd write b = write (peek_range b)"

section \<open>Invariant and abstract view\<close>

definition buf_inv :: "buffer \<Rightarrow> bool" where
  "buf_inv b \<longleftrightarrow> kCheapPrepend \<le> readerIndex b \<and> readerIndex b \<le> writerIndex b \<and>
     writerIndex b \<le> length (buffer_data b)"

text \<open>What \<open>readv\<close> documents: it never returns more bytes than it was given room for.\<close>

definition readv_fits :: "readv_fn \<Rightarrow> bool" where
  "readv_fits readv \<longleftrightarrow> (\<forall>n bs. readv n = Inr bs \<longrightarrow> length bs \<le> n)"

section \<open>A byte queue\<close>

text \<open>
  The contract a client of the buffer relies on: a queue of bytes, written at one end
  and consumed at the other.
\<close>

datatype queue_op = Put string | Consume nat

fun queue_run :: "(string \<Rightarrow> 'b \<Rightarrow> 'b) \<Rightarrow> (nat \<Rightarrow> 'b \<Rightarrow> 'b) \<Rightarrow> ('b \<Rightarrow> string) \<Rightarrow>
    queue_op list \<Rightarrow> 'b \<Rightarrow> string \<times> 'b" where
  "queue_run put consume contents [] b = ([], b)"
| "queue_run put consume contents (Put xs # ops) b =
     queue_run put consume contents ops (put xs b)"
| "queue_run put consume contents (Consume n # ops) b =
     (let (out, b') = queue_run put consume contents ops (consume n b)
      in (take n (contents b) @ out, b'))"

fun queue_input :: "queue_op list \<Rightarrow> string" where
  "queue_input [] = []"
| "queue_input (Put xs # ops) = xs @ queue_input ops"
| "queue_input (Consume n # ops) = queue_input ops"

locale byte_queue =
  fixes invar :: "'b \<Rightarrow> bool"
    and contents :: "'b \<Rightarrow> string"
    and put :: "string \<Rightarrow> 'b \<Rightarrow> 'b"
    and consume :: "nat \<Rightarrow> 'b \<Rightarrow> 'b"
  assumes invar_put: "invar b \<Longrightarrow> invar (put xs b)"
    and contents_put: "invar b \<Longrightarrow> contents (put xs b) = contents b @ xs"
    and invar_consume: "invar b \<Longrightarrow> invar (consume n b)"
    and contents_consume: "invar b \<Longrightarrow> contents (consume n b) = drop n (contents b)"
begin

lemma invar_run: "invar b \<Longrightarrow> invar (snd (queue_run put consume contents ops b))"
proof (induction ops arbitrary: b)
  case Nil
  then show ?case by simp
next
  case (Cons op ops)
  then show ?case
    by (cases op) (simp_all add: invar_put invar_consume split_beta)
qed

lemma run_conserves:
  assumes "invar b"
  shows "fst (queue_run put consume contents ops b) @
      contents (snd (queue_run put consume contents ops b)) = contents b @ queue_input ops"
  using assms
proof (induction ops arbitrary: b)
  case Nil
  then show ?case by simp
next
  case (Cons op ops)
  show ?case
  proof (cases op)
    case (Put xs)
    with Cons show ?thesis by (simp add: invar_put contents_put)
  next
    case (Consume n)
    have "invar (consume n b)"
      using Cons.prems by (rule invar_consume)
    then show ?thesis
      using Consume Cons.IH [of "consume n b"] Cons.prems
      by (simp add: contents_consume split_beta)
  qed
qed

end

section \<open>Lemmas\<close>

lemmas buffer_sizes = readableBytes_def writableBytes_def prependableBytes_def kCheapPrepend_def

lemma length_peek_range [simp]: "buf_inv b \<Longrightarrow> length (peek_range b) = readableBytes b"
  by (auto simp: peek_range_def buf_inv_def buffer_sizes)

lemma peek_range_alt: "peek_range b = drop (readerIndex b) (take (writerIndex b) (buffer_data b))"
  by (simp add: peek_range_def readableBytes_def drop_take)

lemma readableBytes_0_iff: "buf_inv b \<Longrightarrow> readableBytes b = 0 \<longleftrightarrow> peek_range b = []"
  by (metis length_peek_range length_0_conv)

lemma buf_inv_new [inv_intros, simp]: "buf_inv (Buffer_new n)"
  by (simp add: buf_inv_def Buffer_new_def)

lemma peek_range_new [abs_simps, simp]: "peek_range (Buffer_new n) = []"
  by (simp add: peek_range_def Buffer_new_def readableBytes_def)

lemma buf_inv_retrieveAll [inv_intros]: "buf_inv b \<Longrightarrow> buf_inv (retrieveAll b)"
  by (simp add: buf_inv_def retrieveAll_def)

lemma peek_range_retrieveAll [abs_simps]: "peek_range (retrieveAll b) = []"
  by (simp add: peek_range_def retrieveAll_def readableBytes_def)

lemma buf_inv_retrieve [inv_intros]: "buf_inv b \<Longrightarrow> buf_inv (retrieve n b)"
  by (auto simp: retrieve_def buf_inv_retrieveAll) (auto simp: buf_inv_def readableBytes_def)

lemma peek_range_retrieve [abs_simps]:
  "buf_inv b \<Longrightarrow> peek_range (retrieve n b) = drop n (peek_range b)"
  by (auto simp: retrieve_def peek_range_retrieveAll not_less)
     (auto simp: peek_range_def readableBytes_def drop_take add.commute)

text \<open>Making room: the bytes to read stay the same and the room is there.\<close>

lemma makeSpace_grow:
  assumes "buf_inv b" and "writableBytes b + prependableBytes b < len + kCheapPrepend"
  shows "buf_inv (makeSpace len b) \<and> peek_range (makeSpace len b) = peek_range b \<and>
    writableBytes (makeSpace len b) = len"
proof -
  have r: "makeSpace len b =
      b\<lparr>buffer_data := vector_resize (writerIndex b + len) (buffer_data b)\<rparr>"
    using assms(2) by (simp add: makeSpace_def)
  show ?thesis
    using assms(1) by (simp add: r buf_inv_def peek_range_alt writableBytes_def
        take_vector_resize)
qed

lemma makeSpace_move:
  assumes "buf_inv b" and "\<not> writableBytes b + prependableBytes b < len + kCheapPrepend"
  shows "buf_inv (makeSpace len b) \<and> peek_range (makeSpace len b) = peek_range b \<and>
    len \<le> writableBytes (makeSpace len b) \<and>
    length (buffer_data (makeSpace len b)) = length (buffer_data b)"
proof -
  let ?n = "readableBytes b"
  have r: "makeSpace len b =
      b\<lparr>buffer_data := copy_within (readerIndex b) ?n kCheapPrepend (buffer_data b),
        readerIndex := kCheapPrepend, writerIndex := kCheapPrepend + ?n\<rparr>"
    using assms(2) by (simp add: makeSpace_def readableBytes_def)
  have "copy_within (readerIndex b) ?n kCheapPrepend (buffer_data b) =
      take kCheapPrepend (buffer_data b) @ peek_range b @
      drop (kCheapPrepend + ?n) (buffer_data b)"
    using assms(1) unfolding peek_range_def
    by (intro copy_within_block) (auto simp: buf_inv_def readableBytes_def)
  then show ?thesis
    using assms length_peek_range [OF assms(1)]
    by (auto simp: r buf_inv_def peek_range_alt buffer_sizes)
qed

lemma buf_inv_ensureWritableBytes [inv_intros]:
  "buf_inv b \<Longrightarrow> buf_inv (ensureWritableBytes n b)"
  using makeSpace_grow makeSpace_move by (auto simp: ensureWritableBytes_def)

lemma peek_range_ensureWritableBytes [abs_simps]:
  "buf_inv b \<Longrightarrow> peek_range (ensureWritableBytes n b) = peek_range b"
  using makeSpace_grow makeSpace_move by (auto simp: ensureWritableBytes_def)

lemma writableBytes_ensureWritableBytes:
  "buf_inv b \<Longrightarrow> n \<le> writableBytes (ensureWritableBytes n b)"
  using makeSpace_grow makeSpace_move by (fastforce simp: ensureWritableBytes_def)

lemma fill_tail:
  assumes "buf_inv b" and "length xs \<le> writableBytes b"
  shows "buf_inv (b\<lparr>buffer_data := write_at (writerIndex b) xs (buffer_data b),
           writerIndex := writerIndex b + length xs\<rparr>) \<and>
         peek_range (b\<lparr>buffer_data := write_at (writerIndex b) xs (buffer_data b),
           writerIndex := writerIndex b + length xs\<rparr>) = peek_range b @ xs"
  using assms
  by (auto simp: buf_inv_def peek_range_alt writableBytes_def take_write_at_end)

lemma buf_inv_append [inv_intros]: "buf_inv b \<Longrightarrow> buf_inv (append xs b)"
  using fill_tail [OF buf_inv_ensureWritableBytes writableBytes_ensureWritableBytes]
  by (simp add: append_def Let_def)

lemma peek_range_append [abs_simps]: "buf_inv b \<Longrightarrow> peek_range (append xs b) = peek_range b @ xs"
  using fill_tail [OF buf_inv_ensureWritableBytes writableBytes_ensureWritableBytes]
  by (simp add: append_def Let_def peek_range_ensureWritableBytes)

interpretation bq: byte_queue buf_inv peek_range append retrieve
  by unfold_locales (simp_all add: inv_intros abs_simps)

lemma retrieveAsString_ok:
  assumes "buf_inv b" and "len \<le> readableBytes b"
  shows "retrieveAsString len b = Inr (take len (peek_range b), retrieve len b)"
  using assms by (auto simp: retrieveAsString_def buf_inv_def readableBytes_def peek_range_def
      min_def)

lemma retrieveAllAsString_ok:
  "buf_inv b \<Longrightarrow> retrieveAllAsString b = Inr (peek_range b, retrieveAll b)"
  by (simp add: retrieveAllAsString_def retrieveAsString_ok) (simp add: retrieve_def)

lemma findCRLF_None: "findCRLF b = None \<longleftrightarrow> std_search kCRLF (peek_range b) = None"
  by (simp add: findCRLF_def)

lemma findCRLF_Some:
  "findCRLF b = Some e \<longleftrightarrow>
     (\<exists>i. std_search kCRLF (peek_range b) = Some i \<and> e = readerIndex b + i)"
  by (auto simp: findCRLF_def)

text \<open>The line that \<open>findCRLF\<close> delimits can be consumed with its terminator: the asserts hold.\<close>

lemma retrieveUntil_line:
  assumes "buf_inv b" and "std_search kCRLF (peek_range b) = Some i"
  shows "retrieveUntil (readerIndex b + i + 2) b = Inr (retrieve (i + 2) b)"
proof -
  have "i + 2 \<le> readableBytes b"
    using std_search_bound [OF assms(2)] assms(1) by (simp add: kCRLF_def)
  with assms(1) show ?thesis
    by (simp add: retrieveUntil_def buf_inv_def readableBytes_def)
qed

lemma readFd_Inl: "readv_fits readv \<Longrightarrow> readFd readv b = (Inl e, b') \<Longrightarrow> b' = b"
  by (auto simp: readFd_def Let_def split: sum.splits if_splits)

lemma readFd_Inr:
  assumes "buf_inv b" and "readFd readv b = (Inr n, b')"
  obtains bs where "length bs = n" and "buf_inv b'" and "peek_range b' = peek_range b @ bs"
    and "readv (if writableBytes b < extrabuf_size then writableBytes b + extrabuf_size
           else writableBytes b) = Inr bs"
proof -
  let ?w = "writableBytes b"
  let ?room = "if ?w < extrabuf_size then ?w + extrabuf_size else ?w"
  obtain bs where bs: "readv ?room = Inr bs"
    using assms(2) by (auto simp: readFd_def Let_def split: sum.splits)
  then have n: "length bs = n"
    using assms(2) by (auto simp: readFd_def Let_def split: if_splits)
  show thesis
  proof (cases "n \<le> ?w")
    case True
    then have "b' = b\<lparr>buffer_data := write_at (writerIndex b) bs (buffer_data b),
        writerIndex := writerIndex b + length bs\<rparr>"
      using assms(2) bs n by (auto simp: readFd_def Let_def split: if_splits)
    then show thesis
      using fill_tail [OF assms(1), of bs] True n bs that by simp
  next
    case False
    let ?b1 = "b\<lparr>buffer_data := write_at (writerIndex b) (take ?w bs) (buffer_data b),
        writerIndex := writerIndex b + length (take ?w bs)\<rparr>"
    have full: "writerIndex b + ?w = length (buffer_data b)"
      using assms(1) by (simp add: buf_inv_def writableBytes_def)
    have "b' = append (drop ?w bs) ?b1"
      using assms(2) bs n False full by (auto simp: readFd_def Let_def split: if_splits)
    moreover have "buf_inv ?b1" and "peek_range ?b1 = peek_range b @ take ?w bs"
      using fill_tail [OF assms(1), of "take ?w bs"] by auto
    ultimately show thesis
      using that [OF n] bs by (simp add: buf_inv_append peek_range_append)
  qed
qed

section \<open>Properties\<close>

text \<open>
  C15: a buffer is a lossless byte queue. Whatever sequence of \<open>append\<close> and
  \<open>retrieve\<close> calls is made on a well-formed buffer, in whatever order the growing and
  compacting branches of \<open>makeSpace\<close> run, the bytes retrieved so far followed by the
  bytes still readable are the bytes readable at the start followed by the bytes
  appended, in order, and the buffer stays well-formed.
\<close>

theorem buffer_is_lossless_queue:
  assumes "buf_inv b"
  shows "fst (queue_run append retrieve peek_range ops b) @
      peek_range (snd (queue_run append retrieve peek_range ops b)) =
      peek_range b @ queue_input ops \<and>
    buf_inv (snd (queue_run append retrieve peek_range ops b))"
  using bq.run_conserves [OF assms] bq.invar_run [OF assms] by blast

theorem buffer_is_lossless_queue_witness:
  "fst (queue_run append retrieve peek_range [Put ''abc'', Consume 1, Put ''de'', Consume 9]
      (Buffer_new 2)) @
    peek_range (snd (queue_run append retrieve peek_range
      [Put ''abc'', Consume 1, Put ''de'', Consume 9] (Buffer_new 2))) = ''abcde''"
  using buffer_is_lossless_queue [of "Buffer_new 2"
      "[Put ''abc'', Consume 1, Put ''de'', Consume 9]"]
  by simp

text \<open>
  Scatter input. When \<open>readv\<close> respects the room it is given, \<open>readFd\<close> either
  reports the error and leaves the buffer untouched, or appends exactly the bytes that
  were read to the readable bytes, also when they overflow into the stack buffer and
  the vector has to grow; it never asks for less than 64 KiB of room.
\<close>

theorem readFd_appends_input:
  assumes "buf_inv b" and "readv_fits readv"
  shows "(\<exists>e. readFd readv b = (Inl e, b)) \<or>
    (\<exists>room bs b'. readv room = Inr bs \<and> extrabuf_size \<le> room \<and> length bs \<le> room \<and>
       readFd readv b = (Inr (length bs), b') \<and> buf_inv b' \<and>
       peek_range b' = peek_range b @ bs)"
proof -
  obtain r b' where r: "readFd readv b = (r, b')" by (cases "readFd readv b")
  show ?thesis
  proof (cases r)
    case (Inl e)
    with r readFd_Inl [OF assms(2)] show ?thesis by blast
  next
    case (Inr n)
    with r have "readFd readv b = (Inr n, b')" by simp
    then obtain bs where bs: "length bs = n" "buf_inv b'" "peek_range b' = peek_range b @ bs"
      "readv (if writableBytes b < extrabuf_size then writableBytes b + extrabuf_size
           else writableBytes b) = Inr bs"
      using readFd_Inr [OF assms(1)] by blast
    have "extrabuf_size \<le> (if writableBytes b < extrabuf_size
        then writableBytes b + extrabuf_size else writableBytes b)" by simp
    moreover have "length bs \<le> (if writableBytes b < extrabuf_size
        then writableBytes b + extrabuf_size else writableBytes b)"
      using assms(2) bs(4) unfolding readv_fits_def by blast
    ultimately show ?thesis using bs r Inr by blast
  qed
qed

theorem readFd_appends_input_witness:
  "\<exists>room bs b'. (\<lambda>n. Inr (take n ''hello'')) room = (Inr bs :: errno + string) \<and>
     extrabuf_size \<le> room \<and> length bs \<le> room \<and>
     readFd (\<lambda>n. Inr (take n ''hello'')) (Buffer_new 3) = (Inr (length bs), b') \<and>
     buf_inv b' \<and> peek_range b' = peek_range (Buffer_new 3) @ bs"
proof -
  have f: "readv_fits (\<lambda>n. Inr (take n ''hello''))" by (simp add: readv_fits_def)
  have "\<not> (\<exists>e. readFd (\<lambda>n. Inr (take n ''hello'')) (Buffer_new 3) = (Inl e, Buffer_new 3))"
    by (simp add: readFd_def Let_def)
  with readFd_appends_input [OF buf_inv_new f, of 3] show ?thesis by blast
qed

text \<open>
  Making room. After \<open>ensureWritableBytes len\<close> the buffer has at least \<open>len\<close>
  writable bytes and the same readable bytes; the vector is only enlarged when the
  writable and the reclaimable bytes together do not suffice, and it never shrinks.
\<close>

theorem ensureWritableBytes_makes_room:
  assumes "buf_inv b"
  shows "len \<le> writableBytes (ensureWritableBytes len b) \<and>
    peek_range (ensureWritableBytes len b) = peek_range b \<and>
    length (buffer_data b) \<le> length (buffer_data (ensureWritableBytes len b)) \<and>
    (length (buffer_data b) < length (buffer_data (ensureWritableBytes len b)) \<longleftrightarrow>
       writableBytes b + prependableBytes b < len + kCheapPrepend \<and> writableBytes b < len)"
proof -
  have "length (buffer_data b) \<le> length (buffer_data (ensureWritableBytes len b)) \<and>
    (length (buffer_data b) < length (buffer_data (ensureWritableBytes len b)) \<longleftrightarrow>
       writableBytes b + prependableBytes b < len + kCheapPrepend \<and> writableBytes b < len)"
    using assms by (auto simp: ensureWritableBytes_def makeSpace_def buf_inv_def writableBytes_def)
  with assms show ?thesis
    by (simp add: writableBytes_ensureWritableBytes peek_range_ensureWritableBytes)
qed

theorem ensureWritableBytes_makes_room_witness:
  "5 \<le> writableBytes (ensureWritableBytes 5 (Buffer_new 2)) \<and>
   length (buffer_data (Buffer_new 2)) <
     length (buffer_data (ensureWritableBytes 5 (Buffer_new 2)))"
  using ensureWritableBytes_makes_room [OF buf_inv_new, of 5 2]
  by (simp add: Buffer_new_def buffer_sizes)

end
