(* ===== verification/Http_Request.thy ===== *)
theory Http_Request
  imports Prelude
begin

text \<open>
  The class \<open>HttpRequest\<close> (\<open>src/include/HttpRequest.h\<close>): the parsed request and its
  setters. A range \<open>[start, end)\<close> of the input is a list of bytes; the header
  dictionary is an ordered map. \<open>print_request\<close> is the reference printer that the
  round-trip property of the parser is stated with.
\<close>

section \<open>Data and operations\<close>

datatype http_method = kInvalid | kGet | kPost | kHead | kPut | kDelete

datatype http_version = kUnknown | kHttp10 | kHttp11

record http_request =
  req_method :: http_method
  req_version :: http_version
  req_path :: string
  req_query :: string
  req_receiveTime :: int
  req_headers :: "(string \<times> string) list"

definition HttpRequest_new :: http_request where
  "HttpRequest_new = \<lparr>req_method = kInvalid, req_version = kUnknown, req_path = [],
     req_query = [], req_receiveTime = 0, req_headers = []\<rparr>"

definition setVersion :: "http_version \<Rightarrow> http_request \<Rightarrow> http_request" where
  "setVersion v r = r\<lparr>req_version := v\<rparr>"

definition setMethod :: "string \<Rightarrow> http_request \<Rightarrow> bool \<times> http_request" where
  "setMethod m r =
     (let v = (if m = ''GET'' then kGet
               else if m = ''POST'' then kPost
               else if m = ''HEAD'' then kHead
               else if m = ''PUT'' then kPut
               else if m = ''DELETE'' then kDelete
               else kInvalid)
      in (v \<noteq> kInvalid, r\<lparr>req_method := v\<rparr>))"

fun methodString :: "http_method \<Rightarrow> string" where
  "methodString kGet = ''GET''"
| "methodString kPost = ''POST''"
| "methodString kHead = ''HEAD''"
| "methodString kPut = ''PUT''"
| "methodString kDelete = ''DELETE''"
| "methodString kInvalid = ''UNKNOWN''"

definition setPath :: "string \<Rightarrow> http_request \<Rightarrow> http_request" where
  "setPath s r = r\<lparr>req_path := s\<rparr>"

definition setQuery :: "string \<Rightarrow> http_request \<Rightarrow> http_request" where
  "setQuery s r = r\<lparr>req_query := s\<rparr>"

definition setReceiveTime :: "int \<Rightarrow> http_request \<Rightarrow> http_request" where
  "setReceiveTime t r = r\<lparr>req_receiveTime := t\<rparr>"

text \<open>The two trimming loops of \<open>addHeader\<close>.\<close>

fun skip_space :: "string \<Rightarrow> string" where
  "skip_space [] = []"
| "skip_space (c # s) = (if isspace c then skip_space s else c # s)"

fun strip_end :: "string \<Rightarrow> string" where
  "strip_end v = (if v \<noteq> [] \<and> isspace (last v) then strip_end (butlast v) else v)"

declare strip_end.simps [simp del]

definition addHeader :: "string \<Rightarrow> nat \<Rightarrow> http_request \<Rightarrow> http_request" where
  "addHeader line colon r =
     (let field = take colon line;
          val = strip_end (skip_space (drop (Suc colon) line))
      in r\<lparr>req_headers := map_put field val (req_headers r)\<rparr>)"

definition getHeader :: "string \<Rightarrow> http_request \<Rightarrow> string" where
  "getHeader field r =
     (case map_find field (req_headers r) of Some v \<Rightarrow> v | None \<Rightarrow> [])"

text \<open>\<open>swap\<close> exchanges every member but the receive time.\<close>

definition swap_request :: "http_request \<Rightarrow> http_request \<Rightarrow> http_request \<times> http_request" where
  "swap_request a b =
     (b\<lparr>req_receiveTime := req_receiveTime a\<rparr>, a\<lparr>req_receiveTime := req_receiveTime b\<rparr>)"

section \<open>Reference printer\<close>

fun versionString :: "http_version \<Rightarrow> string" where
  "versionString kHttp10 = ''HTTP/1.0''"
| "versionString kHttp11 = ''HTTP/1.1''"
| "versionString kUnknown = []"

definition print_request_line :: "http_request \<Rightarrow> string" where
  "print_request_line r = methodString (req_method r) @ '' '' @ req_path r @ req_query r @
     '' '' @ versionString (req_version r)"

definition crlf :: string where
  "crlf = [CHR 0x0D, CHR 0x0A]"

fun print_headers :: "(string \<times> string) list \<Rightarrow> string" where
  "print_headers [] = []"
| "print_headers ((k, v) # hs) = k @ '': '' @ v @ crlf @ print_headers hs"

definition print_request :: "http_request \<Rightarrow> string" where
  "print_request r = print_request_line r @ crlf @ print_headers (req_headers r) @ crlf"

text \<open>The requests that have a printed form: what the grammar of HTTP excludes.\<close>

definition header_printable :: "string \<times> string \<Rightarrow> bool" where
  "header_printable h \<longleftrightarrow>
     CHR '':'' \<notin> set (fst h) \<and> CHR 0x0D \<notin> set (fst h) \<and> CHR 0x0D \<notin> set (snd h) \<and>
     (snd h \<noteq> [] \<longrightarrow> \<not> isspace (hd (snd h)) \<and> \<not> isspace (last (snd h)))"

definition request_printable :: "http_request \<Rightarrow> bool" where
  "request_printable r \<longleftrightarrow> req_method r \<noteq> kInvalid \<and> req_version r \<noteq> kUnknown \<and>
     set (req_path r) \<inter> {CHR '' '', CHR ''?'', CHR 0x0D} = {} \<and>
     set (req_query r) \<inter> {CHR '' '', CHR 0x0D} = {} \<and>
     (req_query r \<noteq> [] \<longrightarrow> hd (req_query r) = CHR ''?'') \<and>
     list_all header_printable (req_headers r) \<and> map_sorted (req_headers r)"

section \<open>Lemmas\<close>

lemma setMethod_methodString:
  "m \<noteq> kInvalid \<Longrightarrow> setMethod (methodString m) r = (True, r\<lparr>req_method := m\<rparr>)"
  by (cases m) (simp_all add: setMethod_def)

lemma setMethod_True:
  "setMethod s r = (True, r') \<Longrightarrow>
     \<exists>m. m \<noteq> kInvalid \<and> s = methodString m \<and> r' = r\<lparr>req_method := m\<rparr>"
  unfolding setMethod_def Let_def
  by (auto split: if_splits)

lemma methodString_no_space: "CHR '' '' \<notin> set (methodString m)"
  by (cases m) auto

lemma methodString_no_CR: "CHR 0x0D \<notin> set (methodString m)"
  by (cases m) auto

lemma versionString_no_CR: "CHR 0x0D \<notin> set (versionString v)"
  by (cases v) auto

lemma skip_space_dropWhile: "skip_space s = dropWhile isspace s"
  by (induction s) auto

lemma strip_end_rev: "strip_end s = rev (dropWhile isspace (rev s))"
proof (induction s rule: rev_induct)
  case Nil
  then show ?case by (simp add: strip_end.simps)
next
  case (snoc c s)
  then show ?case by (subst strip_end.simps) simp
qed

lemma strip_end_id: "s = [] \<or> \<not> isspace (last s) \<Longrightarrow> strip_end s = s"
  by (subst strip_end.simps) auto

lemma skip_space_id: "s = [] \<or> \<not> isspace (hd s) \<Longrightarrow> skip_space s = s"
  by (cases s) auto

lemma getHeader_addHeader:
  "getHeader f (addHeader line colon r) =
     (if f = take colon line then strip_end (skip_space (drop (Suc colon) line))
      else getHeader f r)"
  by (simp add: getHeader_def addHeader_def Let_def map_find_put)

lemma map_put_snoc:
  "map_sorted (m @ [(k, v)]) \<Longrightarrow> map_put k v m = m @ [(k, v)]"
proof (induction k v m rule: map_put.induct)
  case (1 k v)
  then show ?case by simp
next
  case (2 k v k' v' m)
  then show ?case by (auto simp: map_sorted_Cons)
qed

text \<open>Adding headers in order rebuilds the ordered map.\<close>

lemma fold_map_put_sorted:
  "map_sorted (m @ hs) \<Longrightarrow> fold (\<lambda>(k, v). map_put k v) hs m = m @ hs"
proof (induction hs arbitrary: m)
  case Nil
  then show ?case by simp
next
  case (Cons h hs)
  obtain k v where h: "h = (k, v)" by (cases h)
  have "map_sorted (m @ [(k, v)])"
    using Cons.prems h by (auto simp: map_sorted_def sorted_wrt_append)
  then have "map_put k v m = m @ [(k, v)]" by (rule map_put_snoc)
  with Cons.IH [of "m @ [(k, v)]"] Cons.prems h show ?case by simp
qed

lemma swap_twice: "swap_request (fst (swap_request a b)) (snd (swap_request a b)) = (a, b)"
  by (simp add: swap_request_def)

end
