(* ===== verification/Http_Context.thy ===== *)
theory Http_Context
  imports Net_Buffer Http_Request
begin

text \<open>
  The class \<open>HttpContext\<close> (\<open>src/include/HttpContext.h\<close>,
  \<open>src/src/http/HttpContext.cpp\<close>): the state machine that parses one request out of
  the input buffer of a connection, line by line, over as many calls as the input
  takes to arrive.

  \<open>parse_loop\<close> is the \<open>while\<close> loop of \<open>parseRequest\<close> as a partial function: not
  returning is \<open>None\<close>, a failed assertion of the buffer is \<open>Inl AssertFail\<close>.
  \<open>spec_parse\<close> is the specification: the same grammar, on the byte stream instead of
  the buffer. The debug output of \<open>printSubstring\<close> is not modelled.
\<close>

section \<open>Data and operations\<close>

datatype parse_state = kExpectRequestLine | kExpectHeaders | kExpectBody | kGotAll

record http_context =
  ctx_state :: parse_state
  ctx_request :: http_request

definition HttpContext_new :: http_context where
  "HttpContext_new = \<lparr>ctx_state = kExpectRequestLine, ctx_request = HttpRequest_new\<rparr>"

definition gotAll :: "http_context \<Rightarrow> bool" where
  "gotAll c \<longleftrightarrow> ctx_state c = kGotAll"

definition reset :: "http_context \<Rightarrow> http_context" where
  "reset c = c\<lparr>ctx_state := kExpectRequestLine,
     ctx_request := fst (swap_request (ctx_request c) HttpRequest_new)\<rparr>"

definition processRequestLine :: "string \<Rightarrow> http_request \<Rightarrow> bool \<times> http_request" where
  "processRequestLine line r =
     (let space = std_find (CHR '' '') line in
      if space \<noteq> length line then
        (let (okm, r1) = setMethod (take space line) r in
         if okm then
           (let start = drop (Suc space) line;
                space2 = std_find (CHR '' '') start in
            if space2 \<noteq> length start then
              (let target = take space2 start;
                   question = std_find (CHR ''?'') target;
                   r2 = (if question \<noteq> length target
                         then setQuery (drop question target)
                                (setPath (take question target) r1)
                         else setPath target r1);
                   vers = drop (Suc space2) start
               in if length vers = 8 \<and> take 7 vers = ''HTTP/1.'' then
                    (if last vers = CHR ''1'' then (True, setVersion kHttp11 r2)
                     else if last vers = CHR ''0'' then (True, setVersion kHttp10 r2)
                     else (False, r2))
                  else (False, r2))
            else (False, r1))
         else (False, r1))
      else (False, r))"

text \<open>The bytes \<open>[peek(), p)\<close> for a pointer \<open>p\<close> into the buffer.\<close>

definition slice_to :: "nat \<Rightarrow> buffer \<Rightarrow> string" where
  "slice_to p b = take (p - readerIndex b) (drop (readerIndex b) (buffer_data b))"

partial_function (option) parse_loop ::
    "int \<Rightarrow> bool \<Rightarrow> http_context \<Rightarrow> buffer \<Rightarrow> (bool \<times> http_context \<times> buffer) res option" where
  "parse_loop t ok c b =
     (case ctx_state c of
        kExpectRequestLine \<Rightarrow>
          (case findCRLF b of
             Some p \<Rightarrow>
               (case processRequestLine (slice_to p b) (ctx_request c) of (ok', r) \<Rightarrow>
                  if ok' then
                    (case retrieveUntil (p + 2) b of
                       Inl e \<Rightarrow> Some (Inl e)
                     | Inr b' \<Rightarrow>
                         parse_loop t ok'
                           (c\<lparr>ctx_request := setReceiveTime t r, ctx_state := kExpectHeaders\<rparr>) b')
                  else Some (Inr (ok', c\<lparr>ctx_request := r\<rparr>, b)))
           | None \<Rightarrow> Some (Inr (ok, c, b)))
      | kExpectHeaders \<Rightarrow>
          (case findCRLF b of
             Some p \<Rightarrow>
               (let line = slice_to p b; colon = std_find (CHR '':'') line in
                if colon \<noteq> length line then
                  (case retrieveUntil (p + 2) b of
                     Inl e \<Rightarrow> Some (Inl e)
                   | Inr b' \<Rightarrow>
                       parse_loop t ok
                         (c\<lparr>ctx_request := addHeader line colon (ctx_request c)\<rparr>) b')
                else
                  (case retrieveUntil (p + 2) b of
                     Inl e \<Rightarrow> Some (Inl e)
                   | Inr b' \<Rightarrow> Some (Inr (ok, c\<lparr>ctx_state := kGotAll\<rparr>, b'))))
           | None \<Rightarrow> Some (Inr (ok, c, b)))
      | kExpectBody \<Rightarrow> parse_loop t ok c b
      | kGotAll \<Rightarrow> parse_loop t ok c b)"

definition parseRequest ::
    "int \<Rightarrow> http_context \<Rightarrow> buffer \<Rightarrow> (bool \<times> http_context \<times> buffer) res option" where
  "parseRequest t c b = parse_loop t True c b"

section \<open>Specification on the byte stream\<close>

function spec_parse :: "int \<Rightarrow> http_context \<Rightarrow> string \<Rightarrow> bool \<times> http_context \<times> string" where
  "spec_parse t c s =
     (case std_search kCRLF s of
        None \<Rightarrow> (True, c, s)
      | Some i \<Rightarrow>
          if ctx_state c = kExpectRequestLine then
            (case processRequestLine (take i s) (ctx_request c) of (ok, r) \<Rightarrow>
               if ok then
                 spec_parse t (c\<lparr>ctx_request := setReceiveTime t r,
                                 ctx_state := kExpectHeaders\<rparr>) (drop (i + 2) s)
               else (False, c\<lparr>ctx_request := r\<rparr>, s))
          else if std_find (CHR '':'') (take i s) \<noteq> i then
            spec_parse t (c\<lparr>ctx_request :=
                addHeader (take i s) (std_find (CHR '':'') (take i s)) (ctx_request c)\<rparr>)
              (drop (i + 2) s)
          else (True, c\<lparr>ctx_state := kGotAll\<rparr>, drop (i + 2) s))"
  by pat_completeness auto
termination
  by (relation "measure (\<lambda>(t, c, s). length s)")
     (auto dest!: std_search_bound simp: kCRLF_def)

declare spec_parse.simps [simp del]

definition ctx_parsing :: "http_context \<Rightarrow> bool" where
  "ctx_parsing c \<longleftrightarrow> ctx_state c = kExpectRequestLine \<or> ctx_state c = kExpectHeaders"

section \<open>The loop refines the specification\<close>

lemma slice_to_line:
  assumes "buf_inv b" and "std_search kCRLF (peek_range b) = Some i"
  shows "slice_to (readerIndex b + i) b = take i (peek_range b)"
proof -
  have "i \<le> readableBytes b"
    using std_search_bound [OF assms(2)] assms(1) by simp
  then show ?thesis by (simp add: slice_to_def peek_range_def min_def)
qed

lemma parse_loop_refines:
  assumes "buf_inv b" and "ctx_parsing c"
  shows "\<exists>ok c' b'. parse_loop t True c b = Some (Inr (ok, c', b')) \<and> buf_inv b' \<and>
    spec_parse t c (peek_range b) = (ok, c', peek_range b')"
  using assms
proof (induction t c "peek_range b" arbitrary: b rule: spec_parse.induct)
  case (1 t c b)
  show ?case
  proof (cases "std_search kCRLF (peek_range b)")
    case None
    then show ?thesis
      using 1 by (subst parse_loop.simps, subst spec_parse.simps)
        (auto simp: findCRLF_def ctx_parsing_def)
  next
    case (Some i)
    let ?line = "take i (peek_range b)" and ?b' = "retrieve (i + 2) b"
    have len: "length ?line = i"
      using std_search_bound [OF Some] by simp
    have found: "findCRLF b = Some (readerIndex b + i)"
      using Some by (simp add: findCRLF_def)
    have until: "retrieveUntil (readerIndex b + i + 2) b = Inr ?b'"
      using "1.prems"(1) Some by (rule retrieveUntil_line)
    have slice: "slice_to (readerIndex b + i) b = ?line"
      using "1.prems"(1) Some by (rule slice_to_line)
    have b': "buf_inv ?b'" "peek_range ?b' = drop (i + 2) (peek_range b)"
      using "1.prems"(1) by (simp_all add: inv_intros abs_simps)
    obtain ok r where pl: "processRequestLine ?line (ctx_request c) = (ok, r)"
      by (cases "processRequestLine ?line (ctx_request c)")
    note facts = found until slice pl Some len b'
    note IH_line = "1.hyps"(1) [OF Some _ pl [symmetric] _ b'(2) [symmetric] b'(1)]
    note IH_head = "1.hyps"(2) [OF Some _ _ b'(2) [symmetric] b'(1)]
    show ?thesis
    proof (cases "ctx_state c = kExpectRequestLine")
      case True
      then show ?thesis
        using IH_line "1.prems"(1) facts
        by (subst parse_loop.simps, subst spec_parse.simps)
           (cases ok, auto simp: ctx_parsing_def)
    next
      case False
      then have "ctx_state c = kExpectHeaders"
        using "1.prems"(2) by (simp add: ctx_parsing_def)
      then show ?thesis
        using IH_head "1.prems"(1) facts
        by (subst parse_loop.simps, subst spec_parse.simps)
           (cases "std_find (CHR '':'') ?line = i", auto simp: ctx_parsing_def Let_def)
    qed
  qed
qed

text \<open>
  In the states that no branch of the loop handles, the loop does not return: whatever
  it returned would be the result of the same call again.
\<close>

lemma parse_loop_returns_parsing:
  assumes ret: "parse_loop t ok c b = Some r"
  shows "ctx_parsing c"
proof (rule parse_loop.raw_induct [where P = "\<lambda>t ok c b r. ctx_parsing c", OF _ ret])
  fix f t ok c b r
  assume IH: "\<And>t ok c b r. f t ok c b = Some r \<Longrightarrow> ctx_parsing c"
    and eq: "(case ctx_state c of
        kExpectRequestLine \<Rightarrow>
          (case findCRLF b of
             None \<Rightarrow> Some (Inr (ok, c, b))
           | Some p \<Rightarrow>
               (case processRequestLine (slice_to p b) (ctx_request c) of (ok', r) \<Rightarrow>
                  if ok' then
                    (case retrieveUntil (p + 2) b of
                       Inl e \<Rightarrow> Some (Inl e)
                     | Inr b' \<Rightarrow>
                         f t ok' (c\<lparr>ctx_request := setReceiveTime t r, ctx_state := kExpectHeaders\<rparr>) b')
                  else Some (Inr (ok', c\<lparr>ctx_request := r\<rparr>, b))))
      | kExpectHeaders \<Rightarrow>
          (case findCRLF b of
             None \<Rightarrow> Some (Inr (ok, c, b))
           | Some p \<Rightarrow>
               (let line = slice_to p b; colon = std_find (CHR '':'') line in
                if colon \<noteq> length line then
                  (case retrieveUntil (p + 2) b of
                     Inl e \<Rightarrow> Some (Inl e)
                   | Inr b' \<Rightarrow> f t ok (c\<lparr>ctx_request := addHeader line colon (ctx_request c)\<rparr>) b')
                else
                  (case retrieveUntil (p + 2) b of
                     Inl e \<Rightarrow> Some (Inl e)
                   | Inr b' \<Rightarrow> Some (Inr (ok, c\<lparr>ctx_state := kGotAll\<rparr>, b')))))
      | kExpectBody \<Rightarrow> f t ok c b
      | kGotAll \<Rightarrow> f t ok c b) = Some r"
  show "ctx_parsing c"
    using IH [of t ok c b r] eq by (cases "ctx_state c") (simp_all add: ctx_parsing_def)
qed

lemma parse_loop_stuck: "\<not> ctx_parsing c \<Longrightarrow> parse_loop t ok c b = None"
  using parse_loop_returns_parsing by (cases "parse_loop t ok c b") auto

section \<open>Lines and chunks of input\<close>

lemma search_line:
  assumes "CHR 0x0D \<notin> set line"
  shows "std_search kCRLF (line @ kCRLF @ rest) = Some (length line)"
  using assms by (induction line) (auto simp: kCRLF_def)

text \<open>
  Splitting the input: what the parser leaves of the first part, followed by the second
  part, is parsed from the state the first part led to.
\<close>

lemma spec_parse_append:
  assumes "spec_parse t c xs = (ok, c', rest)" and "ctx_parsing c"
  shows "spec_parse t c (xs @ ys) =
    (if ok \<and> \<not> gotAll c' then spec_parse t c' (rest @ ys) else (ok, c', rest @ ys))"
  using assms
proof (induction t c xs rule: spec_parse.induct)
  case (1 t c xs)
  show ?case
  proof (cases "std_search kCRLF xs")
    case None
    then have "(ok, c', rest) = (True, c, xs)"
      using "1.prems"(1) by (simp add: spec_parse.simps [of t c xs])
    then show ?thesis
      using "1.prems"(2) by (auto simp: gotAll_def ctx_parsing_def)
  next
    case (Some i)
    have i: "i + 2 \<le> length xs"
      using std_search_bound [OF Some] by (simp add: kCRLF_def)
    have ext: "std_search kCRLF (xs @ ys) = Some i"
      using Some by (rule std_search_extend)
    have parts: "take i (xs @ ys) = take i xs" "drop (i + 2) (xs @ ys) = drop (i + 2) xs @ ys"
      using i by simp_all
    obtain okl r where pl: "processRequestLine (take i xs) (ctx_request c) = (okl, r)"
      by (cases "processRequestLine (take i xs) (ctx_request c)")
    note IH_line = "1.IH"(1) [OF Some _ pl [symmetric]]
    note IH_head = "1.IH"(2) [OF Some]
    note facts = ext parts pl Some i
    show ?thesis
    proof (cases "ctx_state c = kExpectRequestLine")
      case True
      show ?thesis
      proof (cases okl)
        case True
        with \<open>ctx_state c = kExpectRequestLine\<close> show ?thesis
          using IH_line "1.prems" facts
          by (auto simp: spec_parse.simps [of t c xs] spec_parse.simps [of t c "xs @ ys"]
              ctx_parsing_def)
      next
        case False
        have "spec_parse t c (xs @ ys) = (False, c\<lparr>ctx_request := r\<rparr>, xs @ ys)"
          and "spec_parse t c xs = (False, c\<lparr>ctx_request := r\<rparr>, xs)"
          using False \<open>ctx_state c = kExpectRequestLine\<close> facts
          by (simp_all add: spec_parse.simps [of t c xs] spec_parse.simps [of t c "xs @ ys"])
        with "1.prems"(1) show ?thesis by simp
      qed
    next
      case False
      then have "ctx_state c = kExpectHeaders"
        using "1.prems"(2) by (simp add: ctx_parsing_def)
      then show ?thesis
        using IH_head "1.prems" facts
        by (cases "std_find (CHR '':'') (take i xs) = i")
           (auto simp: spec_parse.simps [of t c xs] spec_parse.simps [of t c "xs @ ys"]
              ctx_parsing_def gotAll_def)
    qed
  qed
qed

lemma spec_parse_state:
  assumes "spec_parse t c xs = (ok, c', rest)" and "ctx_parsing c"
  shows "gotAll c' \<or> ctx_parsing c'"
  using assms
proof (induction t c xs rule: spec_parse.induct)
  case (1 t c xs)
  then show ?case
    by (subst (asm) (3) spec_parse.simps)
       (auto simp: ctx_parsing_def gotAll_def split: option.splits if_splits prod.splits)
qed

section \<open>Request lines\<close>

lemma split_at_find:
  assumes "std_find x xs \<noteq> length xs"
  shows "xs = take (std_find x xs) xs @ x # drop (Suc (std_find x xs)) xs"
proof -
  have lt: "std_find x xs < length xs"
    using assms std_find_le [of x xs] by linarith
  then show ?thesis
    using std_find_nth [OF lt] by (metis id_take_nth_drop)
qed

lemma processRequestLine_line:
  assumes "m \<noteq> kInvalid" and "v \<noteq> kUnknown"
    and "CHR '' '' \<notin> set target"
  shows "processRequestLine (methodString m @ CHR '' '' # target @ CHR '' '' # versionString v) r =
    (True, setVersion v
       (let q = std_find (CHR ''?'') target; r1 = r\<lparr>req_method := m\<rparr> in
        if q \<noteq> length target then setQuery (drop q target) (setPath (take q target) r1)
        else setPath target r1))"
proof -
  have f1: "std_find (CHR '' '') (methodString m @ CHR '' '' # w) = length (methodString m)" for w
    by (rule std_find_append) (rule methodString_no_space)
  have f2: "std_find (CHR '' '') (target @ CHR '' '' # w) = length target" for w
    using assms(3) by (rule std_find_append)
  show ?thesis
    using assms(2) by (cases v)
      (simp_all add: processRequestLine_def f1 f2 Let_def setMethod_methodString [OF assms(1)])
qed

lemma processRequestLine_accepts:
  assumes "fst (processRequestLine line r)"
  shows "\<exists>m target v. m \<noteq> kInvalid \<and> v \<noteq> kUnknown \<and> CHR '' '' \<notin> set target \<and>
    line = methodString m @ CHR '' '' # target @ CHR '' '' # versionString v"
proof -
  let ?sp = "std_find (CHR '' '') line"
  let ?start = "drop (Suc ?sp) line"
  let ?sp2 = "std_find (CHR '' '') ?start"
  let ?vers = "drop (Suc ?sp2) ?start"
  have sp: "?sp \<noteq> length line"
    using assms by (auto simp: processRequestLine_def Let_def)
  obtain okm r1 where sm: "setMethod (take ?sp line) r = (okm, r1)"
    by (cases "setMethod (take ?sp line) r")
  have okm: "okm"
    using assms sp sm by (auto simp: processRequestLine_def Let_def split: if_splits)
  have sp2: "?sp2 \<noteq> length ?start"
    using assms sp sm okm by (auto simp: processRequestLine_def Let_def split: if_splits)
  have vers: "length ?vers = 8" "take 7 ?vers = ''HTTP/1.''"
    "last ?vers = CHR ''1'' \<or> last ?vers = CHR ''0''"
    using assms sp sm okm sp2
    by (auto simp: processRequestLine_def Let_def split: if_splits)
  obtain m where m: "m \<noteq> kInvalid" "take ?sp line = methodString m"
    using setMethod_True [of _ r r1] sm okm by auto
  have "butlast ?vers = take 7 ?vers" and "?vers \<noteq> []"
    using vers(1) by (auto simp: butlast_conv_take)
  then have "?vers = take 7 ?vers @ [last ?vers]"
    by (metis append_butlast_last_id)
  then have "\<exists>v. v \<noteq> kUnknown \<and> ?vers = versionString v"
    using vers(2,3)
    by (metis append_Cons append_Nil http_version.distinct(1,3) versionString.simps(1,2))
  then obtain v where v: "v \<noteq> kUnknown" "?vers = versionString v" by blast
  have "line = methodString m @ CHR '' '' # ?start"
    using split_at_find [OF sp] m(2) by metis
  moreover have "?start = take ?sp2 ?start @ CHR '' '' # versionString v"
    using split_at_find [OF sp2] v(2) by metis
  moreover have "CHR '' '' \<notin> set (take ?sp2 ?start)"
    by (rule std_find_take_notin)
  ultimately show ?thesis
    using m(1) v(1) by metis
qed

section \<open>Printed requests\<close>

lemma crlf_kCRLF: "crlf = kCRLF"
  by (simp add: crlf_def kCRLF_def)

lemma length_kCRLF [simp]: "length kCRLF = 2"
  by (simp add: kCRLF_def)

lemma addHeader_printed:
  assumes "header_printable (k, v)"
  shows "addHeader (k @ CHR '':'' # CHR '' '' # v) (length k) r =
    r\<lparr>req_headers := map_put k v (req_headers r)\<rparr>"
proof -
  have "skip_space (CHR '' '' # v) = v" and "strip_end v = v"
    using assms skip_space_id [of v] strip_end_id [of v]
    by (auto simp: header_printable_def isspace_def)
  then show ?thesis by (simp add: addHeader_def)
qed

text \<open>One step of the specification on a line that holds no carriage return.\<close>

lemma spec_parse_line:
  assumes "CHR 0x0D \<notin> set line"
  shows "spec_parse t c (line @ kCRLF @ rest) =
    (if ctx_state c = kExpectRequestLine then
       (case processRequestLine line (ctx_request c) of (ok, r) \<Rightarrow>
          if ok then spec_parse t (c\<lparr>ctx_request := setReceiveTime t r,
                                     ctx_state := kExpectHeaders\<rparr>) rest
          else (False, c\<lparr>ctx_request := r\<rparr>, line @ kCRLF @ rest))
     else if std_find (CHR '':'') line \<noteq> length line then
       spec_parse t (c\<lparr>ctx_request :=
         addHeader line (std_find (CHR '':'') line) (ctx_request c)\<rparr>) rest
     else (True, c\<lparr>ctx_state := kGotAll\<rparr>, rest))"
proof -
  have d: "drop (Suc (Suc (length line))) (line @ kCRLF @ rest) = rest"
    by (simp add: kCRLF_def)
  show ?thesis
    by (subst spec_parse.simps)
       (cases "processRequestLine line (ctx_request c)",
        simp add: search_line [OF assms] d del: drop_append)
qed

lemma spec_parse_header_line:
  assumes "ctx_state c = kExpectHeaders" and "header_printable (k, v)"
  shows "spec_parse t c (k @ '': '' @ v @ kCRLF @ rest) =
    spec_parse t (c\<lparr>ctx_request :=
      (ctx_request c)\<lparr>req_headers := map_put k v (req_headers (ctx_request c))\<rparr>\<rparr>) rest"
proof -
  let ?line = "k @ CHR '':'' # CHR '' '' # v"
  have cr: "CHR 0x0D \<notin> set ?line"
    using assms(2) by (auto simp: header_printable_def)
  have f: "std_find (CHR '':'') ?line = length k"
    using assms(2) by (intro std_find_append) (simp add: header_printable_def)
  have "spec_parse t c (?line @ kCRLF @ rest) =
    spec_parse t (c\<lparr>ctx_request := addHeader ?line (length k) (ctx_request c)\<rparr>) rest"
    using assms(1) f by (subst spec_parse_line [OF cr]) simp
  then show ?thesis
    using addHeader_printed [OF assms(2)] by simp
qed

lemma spec_parse_headers:
  assumes "ctx_state c = kExpectHeaders" and "list_all header_printable hs"
  shows "spec_parse t c (print_headers hs @ kCRLF @ rest) =
    (True, c\<lparr>ctx_state := kGotAll, ctx_request := (ctx_request c)\<lparr>req_headers :=
       fold (\<lambda>(k, v). map_put k v) hs (req_headers (ctx_request c))\<rparr>\<rparr>, rest)"
  using assms
proof (induction hs arbitrary: c)
  case Nil
  then show ?case
    using spec_parse_line [of "[]" t c rest] by simp
next
  case (Cons h hs)
  obtain k v where h: "h = (k, v)" by (cases h)
  with Cons.prems have "header_printable (k, v)" by simp
  from spec_parse_header_line [OF Cons.prems(1) this] Cons.IH Cons.prems h
  show ?case by (simp add: crlf_kCRLF)
qed

lemma printable_target:
  assumes "request_printable r"
  shows "std_find (CHR ''?'') (req_path r @ req_query r) = length (req_path r)"
proof (cases "req_query r")
  case Nil
  then show ?thesis
    using assms by (simp add: request_printable_def std_find_notin)
next
  case (Cons q qs)
  then show ?thesis
    using assms by (simp add: request_printable_def std_find_append)
qed

lemma processRequestLine_printed:
  assumes "request_printable r" and "req_query r0 = []"
  shows "processRequestLine (print_request_line r) r0 =
    (True, r0\<lparr>req_method := req_method r, req_version := req_version r,
       req_path := req_path r, req_query := req_query r\<rparr>)"
proof -
  have "print_request_line r = methodString (req_method r) @ CHR '' '' #
      (req_path r @ req_query r) @ CHR '' '' # versionString (req_version r)"
    by (simp add: print_request_line_def)
  moreover have "CHR '' '' \<notin> set (req_path r @ req_query r)"
    and "req_method r \<noteq> kInvalid" and "req_version r \<noteq> kUnknown"
    using assms(1) by (auto simp: request_printable_def)
  ultimately show ?thesis
    using processRequestLine_line [of "req_method r" "req_version r" "req_path r @ req_query r" r0]
      printable_target [OF assms(1)] assms(2)
    by (cases "req_query r") (simp_all add: Let_def setVersion_def setPath_def setQuery_def)
qed

text \<open>
  A context that is ready for a request: as new, but for the receive time, which
  \<open>reset\<close> leaves as it is.
\<close>

definition ctx_ready :: "http_context \<Rightarrow> bool" where
  "ctx_ready c \<longleftrightarrow> (\<exists>t. c = HttpContext_new\<lparr>ctx_request := HttpRequest_new\<lparr>req_receiveTime := t\<rparr>\<rparr>)"

lemma ctx_ready_new: "ctx_ready HttpContext_new"
  unfolding ctx_ready_def
  by (rule exI [of _ 0]) (simp add: HttpContext_new_def HttpRequest_new_def)

lemma ctx_ready_reset: "ctx_ready (reset c)"
  unfolding ctx_ready_def
  by (rule exI [of _ "req_receiveTime (ctx_request c)"])
     (simp add: HttpContext_new_def reset_def swap_request_def)

lemma ctx_ready_parsing: "ctx_ready c \<Longrightarrow> ctx_parsing c"
  by (auto simp: ctx_ready_def ctx_parsing_def HttpContext_new_def)

text \<open>A request line and headers in any order, names possibly repeated.\<close>

lemma spec_parse_lines:
  assumes r: "request_printable r" and hs: "list_all header_printable hs" and ready: "ctx_ready c"
  shows "spec_parse t c (print_request_line r @ kCRLF @ print_headers hs @ kCRLF @ rest) =
    (True, \<lparr>ctx_state = kGotAll, ctx_request = r\<lparr>req_headers := fold (\<lambda>(k, v). map_put k v) hs [],
       req_receiveTime := t\<rparr>\<rparr>, rest)"
proof -
  let ?line = "print_request_line r"
  let ?c = "\<lparr>ctx_state = kExpectHeaders, ctx_request = HttpRequest_new\<lparr>req_method := req_method r,
      req_version := req_version r, req_path := req_path r, req_query := req_query r,
      req_receiveTime := t\<rparr>\<rparr>"
  obtain t0 where c: "c = HttpContext_new\<lparr>ctx_request := HttpRequest_new\<lparr>req_receiveTime := t0\<rparr>\<rparr>"
    using ready unfolding ctx_ready_def by blast
  have cr: "CHR 0x0D \<notin> set ?line"
    using r methodString_no_CR versionString_no_CR
    by (auto simp: print_request_line_def request_printable_def)
  have p: "processRequestLine ?line (ctx_request c) =
      (True, (ctx_request c)\<lparr>req_method := req_method r, req_version := req_version r,
        req_path := req_path r, req_query := req_query r\<rparr>)"
    using r by (rule processRequestLine_printed) (simp add: HttpRequest_new_def c)
  have "spec_parse t c (?line @ kCRLF @ print_headers hs @ kCRLF @ rest) =
      spec_parse t ?c (print_headers hs @ kCRLF @ rest)"
    using spec_parse_line [OF cr, of t c "print_headers hs @ kCRLF @ rest"] p
    by (simp add: c HttpContext_new_def HttpRequest_new_def setReceiveTime_def)
  then show ?thesis
    using hs by (simp add: spec_parse_headers HttpRequest_new_def)
qed

lemma spec_parse_printed:
  assumes "request_printable r" and "ctx_ready c"
  shows "spec_parse t c (print_request r @ rest) =
    (True, \<lparr>ctx_state = kGotAll, ctx_request = r\<lparr>req_receiveTime := t\<rparr>\<rparr>, rest)"
proof -
  have "fold (\<lambda>(k, v). map_put k v) (req_headers r) [] = req_headers r"
    using fold_map_put_sorted [of "[]" "req_headers r"] assms(1) by (simp add: request_printable_def)
  moreover have "list_all header_printable (req_headers r)" using assms(1) by (simp add: request_printable_def)
  ultimately show ?thesis
    using spec_parse_lines [OF assms(1) _ assms(2), of "req_headers r" t rest]
    by (simp add: print_request_def crlf_kCRLF)
qed

text \<open>The time of a call only matters to the call that completes the request line.\<close>

lemma spec_parse_time: "ctx_state c = kExpectHeaders \<Longrightarrow> spec_parse t c s = spec_parse t' c s"
proof (induction t c s rule: spec_parse.induct)
  case (1 t c s)
  then show ?case
    by (subst (1 2) spec_parse.simps) (auto split: option.splits)
qed

lemma spec_parse_headers_state:
  "spec_parse t c s = (ok, c', rest) \<Longrightarrow> ctx_state c = kExpectHeaders \<Longrightarrow>
     ok \<and> ctx_state c' \<noteq> kExpectRequestLine"
proof (induction t c s rule: spec_parse.induct)
  case (1 t c s)
  then show ?case
    by (subst (asm) (3) spec_parse.simps) (auto split: option.splits if_splits)
qed

lemma spec_parse_no_line:
  assumes p: "spec_parse t c s = (True, c', rest)" and "ctx_state c' = kExpectRequestLine"
    and "ctx_parsing c"
  shows "c' = c \<and> rest = s \<and> std_search kCRLF s = None"
proof (cases "ctx_state c = kExpectHeaders")
  case True
  then show ?thesis using spec_parse_headers_state [OF p] assms(2) by blast
next
  case False
  then have st: "ctx_state c = kExpectRequestLine" using assms(3) by (auto simp: ctx_parsing_def)
  have no: "spec_parse t (c\<lparr>ctx_request := r, ctx_state := kExpectHeaders\<rparr>) u \<noteq> (True, c', rest)" for r u
    using spec_parse_headers_state [of t "c\<lparr>ctx_request := r, ctx_state := kExpectHeaders\<rparr>" u True c' rest]
      assms(2) by auto
  show ?thesis
    using p [unfolded spec_parse.simps [of t c s]] st no
    by (auto split: option.splits if_splits prod.splits)
qed

lemma spec_parse_error: "spec_parse t c s = (False, c', rest) \<Longrightarrow> \<not> gotAll c' \<or> gotAll c"
proof (induction t c s rule: spec_parse.induct)
  case (1 t c s)
  then show ?case
    by (subst (asm) (3) spec_parse.simps)
       (auto simp: gotAll_def split: option.splits if_splits prod.splits)
qed

section \<open>Properties\<close>

text \<open>
  C17: parsing always ends. While the context is in one of its two parsing states,
  \<open>parseRequest\<close> on a well-formed buffer returns, no assertion of the buffer fails,
  the buffer stays well-formed, and the verdict, the context and the bytes left over
  are those of the specification on the readable bytes.
\<close>

theorem parseRequest_returns:
  assumes "buf_inv b" and "ctx_parsing c"
  shows "\<exists>ok c' b'. parseRequest t c b = Some (Inr (ok, c', b')) \<and> buf_inv b' \<and>
    spec_parse t c (peek_range b) = (ok, c', peek_range b')"
  unfolding parseRequest_def using assms by (rule parse_loop_refines)

theorem parseRequest_returns_witness:
  "\<exists>ok c' b'. parseRequest 7 HttpContext_new (append ''GET / HTTP/1.1'' (Buffer_new 8)) =
      Some (Inr (ok, c', b')) \<and> buf_inv b' \<and>
    spec_parse 7 HttpContext_new (peek_range (append ''GET / HTTP/1.1'' (Buffer_new 8))) =
      (ok, c', peek_range b')"
  by (rule parseRequest_returns) (simp_all add: buf_inv_append HttpContext_new_def ctx_parsing_def)

text \<open>
  C18: the input may arrive in any pieces. If a first call parses what is there without
  an error and without completing the request, then parsing on after more bytes have
  been appended gives the same verdict, the same context and the same bytes left over
  as parsing everything in one call.
\<close>

theorem parseRequest_incremental:
  assumes "buf_inv b" and "ctx_parsing c"
    and "parseRequest t c b = Some (Inr (True, c1, b1))" and "\<not> gotAll c1"
  shows "\<exists>ok c2 b2 b2'. parseRequest t c1 (append ys b1) = Some (Inr (ok, c2, b2)) \<and>
    parseRequest t c (append ys b) = Some (Inr (ok, c2, b2')) \<and> peek_range b2 = peek_range b2'"
proof -
  obtain b1: "buf_inv b1" and s1: "spec_parse t c (peek_range b) = (True, c1, peek_range b1)"
    using parse_loop_refines [OF assms(1,2), of t] assms(3) unfolding parseRequest_def by auto
  have c1: "ctx_parsing c1"
    using spec_parse_state [OF s1 assms(2)] assms(4) by blast
  have join: "spec_parse t c (peek_range b @ ys) = spec_parse t c1 (peek_range b1 @ ys)"
    using spec_parse_append [OF s1 assms(2), of ys] assms(4) by simp
  obtain ok2 c2 b2 where r2: "parse_loop t True c1 (append ys b1) = Some (Inr (ok2, c2, b2))"
    "spec_parse t c1 (peek_range (append ys b1)) = (ok2, c2, peek_range b2)"
    using parse_loop_refines [OF buf_inv_append [OF b1] c1] by blast
  obtain ok3 c3 b3 where r3: "parse_loop t True c (append ys b) = Some (Inr (ok3, c3, b3))"
    "spec_parse t c (peek_range (append ys b)) = (ok3, c3, peek_range b3)"
    using parse_loop_refines [OF buf_inv_append [OF assms(1)] assms(2)] by blast
  have "(ok3, c3, peek_range b3) = (ok2, c2, peek_range b2)"
    using r2(2) r3(2) join assms(1) b1 by (simp add: peek_range_append)
  then show ?thesis
    using r2(1) r3(1) by (auto simp: parseRequest_def)
qed

theorem parseRequest_incremental_witness:
  "\<exists>ok c2 b2 b2'.
    parseRequest 1 HttpContext_new (append ''/ HTTP/1.0'' (Buffer_new 0)) = Some (Inr (ok, c2, b2)) \<and>
    parseRequest 1 HttpContext_new (append ''/ HTTP/1.0'' (Buffer_new 0)) = Some (Inr (ok, c2, b2')) \<and>
    peek_range b2 = peek_range b2'"
proof (rule parseRequest_incremental)
  show "buf_inv (Buffer_new 0)" by simp
  show "ctx_parsing HttpContext_new" by (simp add: ctx_parsing_def HttpContext_new_def)
  show "\<not> gotAll HttpContext_new" by (simp add: gotAll_def HttpContext_new_def)
  show "parseRequest 1 HttpContext_new (Buffer_new 0) =
      Some (Inr (True, HttpContext_new, Buffer_new 0))"
    by (simp add: parseRequest_def parse_loop.simps HttpContext_new_def findCRLF_def kCRLF_def)
qed

text \<open>
  C16: parsing inverts printing. A request with a printed form (method and version
  known, no separator inside its fields, headers trimmed and in the order of the map)
  that is printed into the buffer, followed by anything, is parsed back to itself,
  with the receive time set, and exactly the bytes after it are left for the next
  request.
\<close>

theorem parseRequest_print_roundtrip:
  assumes "request_printable r" and "buf_inv b" and "peek_range b = print_request r @ rest"
  shows "\<exists>b'. parseRequest t HttpContext_new b =
      Some (Inr (True, \<lparr>ctx_state = kGotAll, ctx_request = r\<lparr>req_receiveTime := t\<rparr>\<rparr>, b')) \<and>
    buf_inv b' \<and> peek_range b' = rest"
proof -
  have "ctx_parsing HttpContext_new"
    by (simp add: ctx_parsing_def HttpContext_new_def)
  from parse_loop_refines [OF assms(2) this, of t] show ?thesis
    using spec_parse_printed [OF assms(1) ctx_ready_new] assms(3) by (auto simp: parseRequest_def)
qed

definition sample_request :: http_request where
  "sample_request = \<lparr>req_method = kGet, req_version = kHttp11, req_path = ''/index.html'',
     req_query = ''?id=1'', req_receiveTime = 0,
     req_headers = [(''Connection'', ''close''), (''Host'', ''a b'')]\<rparr>"

theorem parseRequest_print_roundtrip_witness:
  "\<exists>b'. parseRequest 5 HttpContext_new
        (append (print_request sample_request @ ''GET'') (Buffer_new 16)) =
      Some (Inr (True, \<lparr>ctx_state = kGotAll,
        ctx_request = sample_request\<lparr>req_receiveTime := 5\<rparr>\<rparr>, b')) \<and>
    buf_inv b' \<and> peek_range b' = ''GET''"
proof (rule parseRequest_print_roundtrip)
  show "request_printable sample_request"
    by (simp add: sample_request_def request_printable_def header_printable_def isspace_def
        map_sorted_def less_list_code)
qed (simp_all add: buf_inv_append peek_range_append)

text \<open>
  C25: exactly the well-formed request lines are accepted: a line is accepted if and
  only if it is one of the five methods, a blank, a target without a blank, a blank,
  and \<open>HTTP/1.0\<close> or \<open>HTTP/1.1\<close>. Everything else makes \<open>parseRequest\<close> report an
  error.
\<close>

theorem processRequestLine_accepts_iff:
  "fst (processRequestLine line r) \<longleftrightarrow>
     (\<exists>m target v. m \<noteq> kInvalid \<and> v \<noteq> kUnknown \<and> CHR '' '' \<notin> set target \<and>
        line = methodString m @ '' '' @ target @ '' '' @ versionString v)"
  using processRequestLine_accepts [of line r] processRequestLine_line by fastforce

text \<open>
  A context that already holds a complete request must be reset before the next
  call: in the states \<open>kGotAll\<close> and \<open>kExpectBody\<close> the loop of \<open>parseRequest\<close> has no
  way out and never returns, whatever the buffer holds.
\<close>

theorem parseRequest_never_returns:
  assumes "ctx_state c = kGotAll \<or> ctx_state c = kExpectBody"
  shows "parseRequest t c b = None"
  using assms by (auto simp: parseRequest_def ctx_parsing_def intro!: parse_loop_stuck)

theorem parseRequest_never_returns_witness:
  "parseRequest 0 (HttpContext_new\<lparr>ctx_state := kGotAll\<rparr>) (Buffer_new 1) = None"
  by (rule parseRequest_never_returns) simp

end
