(* ===== verification/Http_Response.thy ===== *)
theory Http_Response
  imports Http_Context
begin

text \<open>
  The class \<open>HttpResponse\<close> (\<open>src/include/HttpResponse.h\<close>,
  \<open>src/src/http/HttpResponse.cpp\<close>): the response under construction and its
  serialisation into a buffer, with the string stream of \<open>appendToBuffer\<close> kept as the
  string it has accumulated. \<open>clear()\<close> of a stream resets its error flags and leaves
  that string alone, and so does the model.
\<close>

section \<open>Data and operations\<close>

datatype http_status =
    kUnknownStatus | k200Ok | k301MovedPermanently | k400BadRequest | k404NotFound

fun status_value :: "http_status \<Rightarrow> nat" where
  "status_value kUnknownStatus = 0"
| "status_value k200Ok = 200"
| "status_value k301MovedPermanently = 301"
| "status_value k400BadRequest = 400"
| "status_value k404NotFound = 404"

record http_response =
  resp_headers :: "(string \<times> string) list"
  resp_statusCode :: http_status
  resp_statusMessage :: string
  resp_closeConnection :: bool
  resp_body :: string

definition HttpResponse_new :: "bool \<Rightarrow> http_response" where
  "HttpResponse_new close = \<lparr>resp_headers = [], resp_statusCode = kUnknownStatus,
     resp_statusMessage = [], resp_closeConnection = close, resp_body = []\<rparr>"

definition setStatusCode :: "http_status \<Rightarrow> http_response \<Rightarrow> http_response" where
  "setStatusCode code p = p\<lparr>resp_statusCode := code\<rparr>"

definition setStatusMessage :: "string \<Rightarrow> http_response \<Rightarrow> http_response" where
  "setStatusMessage message p = p\<lparr>resp_statusMessage := message\<rparr>"

definition setCloseConnection :: "bool \<Rightarrow> http_response \<Rightarrow> http_response" where
  "setCloseConnection on p = p\<lparr>resp_closeConnection := on\<rparr>"

definition addRespHeader :: "string \<Rightarrow> string \<Rightarrow> http_response \<Rightarrow> http_response" where
  "addRespHeader key val p = p\<lparr>resp_headers := map_put key val (resp_headers p)\<rparr>"

definition setContentType :: "string \<Rightarrow> http_response \<Rightarrow> http_response" where
  "setContentType contentType p = addRespHeader ''Content-Type'' contentType p"

definition setBody :: "string \<Rightarrow> http_response \<Rightarrow> http_response" where
  "setBody body p = p\<lparr>resp_body := body\<rparr>"

fun appendHeaders :: "(string \<times> string) list \<Rightarrow> buffer \<Rightarrow> buffer" where
  "appendHeaders [] out = out"
| "appendHeaders ((k, v) # hs) out =
     appendHeaders hs (append crlf (append v (append '': '' (append k out))))"

definition appendToBuffer :: "http_response \<Rightarrow> buffer \<Rightarrow> buffer" where
  "appendToBuffer p out =
     (let oss = ''HTTP/1.1 '' @ dec (status_value (resp_statusCode p)) @ '' '';
          out1 = append crlf (append (resp_statusMessage p) (append oss out));
          out2 = (if resp_closeConnection p
                  then append (''Connection: close'' @ crlf) out1
                  else let oss' = oss @ ''Content-Length: '' @ dec (length (resp_body p)) @ crlf
                       in append (''Connection: Keep-Alive'' @ crlf) (append oss' out1));
          out3 = appendHeaders (resp_headers p) out2
      in append (resp_body p) (append crlf out3))"

section \<open>Lemmas\<close>

definition status_line :: "http_response \<Rightarrow> string" where
  "status_line p =
     ''HTTP/1.1 '' @ dec (status_value (resp_statusCode p)) @ '' '' @ resp_statusMessage p"

text \<open>The header fields that a connection's disposition puts in front.\<close>

definition fixed_headers :: "http_response \<Rightarrow> (string \<times> string) list" where
  "fixed_headers p =
     (if resp_closeConnection p then [(''Connection'', ''close'')]
      else [(''HTTP/1.1 '' @ dec (status_value (resp_statusCode p)) @ '' Content-Length'',
             dec (length (resp_body p))),
            (''Connection'', ''Keep-Alive'')])"

lemma print_headers_append: "print_headers (xs @ ys) = print_headers xs @ print_headers ys"
  by (induction xs rule: print_headers.induct) auto

lemma buf_inv_appendHeaders [inv_intros]: "buf_inv b \<Longrightarrow> buf_inv (appendHeaders hs b)"
  by (induction hs b rule: appendHeaders.induct) (auto simp: inv_intros)

lemma peek_range_appendHeaders [abs_simps]:
  "buf_inv b \<Longrightarrow> peek_range (appendHeaders hs b) = peek_range b @ print_headers hs"
  by (induction hs b rule: appendHeaders.induct) (auto simp: inv_intros abs_simps)

lemma buf_inv_appendToBuffer [inv_intros]: "buf_inv b \<Longrightarrow> buf_inv (appendToBuffer p b)"
  by (simp add: appendToBuffer_def Let_def inv_intros)

lemma peek_range_appendToBuffer [abs_simps]:
  "buf_inv b \<Longrightarrow> peek_range (appendToBuffer p b) =
     peek_range b @ status_line p @ crlf @ print_headers (fixed_headers p @ resp_headers p) @
     crlf @ resp_body p"
  by (simp add: appendToBuffer_def Let_def inv_intros abs_simps status_line_def fixed_headers_def
      print_headers_append)

lemma fixed_headers_printable: "list_all header_printable (fixed_headers p)"
proof -
  have "CHR '':'' \<notin> set (dec n)" and "CHR 0x0D \<notin> set (dec n)"
    and "\<not> isspace (hd (dec n))" and "\<not> isspace (last (dec n))" for n
    using dec_only_digits [of _ n] hd_in_set [OF dec_not_Nil] last_in_set [OF dec_not_Nil]
    by blast+
  then show ?thesis
    by (auto simp: fixed_headers_def header_printable_def isspace_def)
qed

section \<open>Properties\<close>

text \<open>
  C26: the bytes of a response. \<open>appendToBuffer\<close> appends the status line, the header
  fields in the order of the map, an empty line and the body; with
  \<open>Connection: close\<close> first when the connection is to be closed, and otherwise with
  the field \<open>Connection: Keep-Alive\<close> after the field that announces the length of the
  body, whose name is preceded by the text of the status line.
\<close>

theorem appendToBuffer_bytes:
  assumes "buf_inv b"
  shows "peek_range (appendToBuffer p b) = peek_range b @
     ''HTTP/1.1 '' @ dec (status_value (resp_statusCode p)) @ '' '' @ resp_statusMessage p @ crlf @
     (if resp_closeConnection p then ''Connection: close'' @ crlf
      else ''HTTP/1.1 '' @ dec (status_value (resp_statusCode p)) @ '' Content-Length: '' @
        dec (length (resp_body p)) @ crlf @ ''Connection: Keep-Alive'' @ crlf) @
     print_headers (resp_headers p) @ crlf @ resp_body p"
  using assms by (simp add: abs_simps status_line_def fixed_headers_def)

theorem appendToBuffer_bytes_witness:
  "peek_range (appendToBuffer (setBody ''hi'' (setStatusMessage ''OK''
       (setStatusCode k200Ok (HttpResponse_new True)))) (Buffer_new 2024)) =
     ''HTTP/1.1 200 OK'' @ crlf @ ''Connection: close'' @ crlf @ crlf @ ''hi''"
  using appendToBuffer_bytes [OF buf_inv_new, of "setBody ''hi'' (setStatusMessage ''OK''
       (setStatusCode k200Ok (HttpResponse_new True)))" 2024]
  by (simp add: setBody_def setStatusMessage_def setStatusCode_def HttpResponse_new_def
      dec_eval)

text \<open>
  The announced length is unreadable on a kept-alive connection. Reading the
  header section of any response that keeps the connection open and has no
  \<open>Content-Length\<close> field of its own, by the header rule of the server's own parser,
  ends at the empty line with the body left, and finds no field named
  \<open>Content-Length\<close>: the stream that collected the status line was not emptied, so its
  text is part of the name.
\<close>

theorem keepalive_has_no_content_length:
  assumes "\<not> resp_closeConnection p" and "list_all header_printable (resp_headers p)"
    and "''Content-Length'' \<notin> fst ` set (resp_headers p)"
    and "peek_range (appendToBuffer p (Buffer_new n)) = status_line p @ crlf @ rest"
    and "ctx_state c = kExpectHeaders" and "req_headers (ctx_request c) = []"
  shows "\<exists>c'. spec_parse t c rest = (True, c', resp_body p) \<and> gotAll c' \<and>
    map_find ''Content-Length'' (req_headers (ctx_request c')) = None \<and>
    getHeader ''Content-Length'' (ctx_request c') = []"
proof -
  let ?hs = "fixed_headers p @ resp_headers p"
  have rest: "rest = print_headers ?hs @ kCRLF @ resp_body p"
    using assms(4) peek_range_appendToBuffer [OF buf_inv_new, of p n] by (simp add: crlf_kCRLF)
  have "list_all header_printable ?hs"
    using assms(2) fixed_headers_printable by simp
  note parsed = spec_parse_headers [OF assms(5) this, of t "resp_body p"]
  have "map_find ''Content-Length'' (fold (\<lambda>(k, v). map_put k v) hs m) =
      map_find ''Content-Length'' m" if "''Content-Length'' \<notin> fst ` set hs" for hs m
    using that by (induction hs arbitrary: m) (auto simp: map_find_put)
  moreover have "''Content-Length'' \<notin> fst ` set ?hs"
    using assms(1,3) by (auto simp: fixed_headers_def)
  ultimately have "map_find ''Content-Length'' (fold (\<lambda>(k, v). map_put k v) ?hs []) = None"
    by (metis map_find.simps(1))
  then show ?thesis
    using parsed rest assms(6) by (auto simp: gotAll_def getHeader_def)
qed

theorem keepalive_has_no_content_length_witness:
  "\<exists>c'. spec_parse 0 (HttpContext_new\<lparr>ctx_state := kExpectHeaders\<rparr>)
      (''HTTP/1.1 200 Content-Length: 2'' @ crlf @ ''Connection: Keep-Alive'' @ crlf @ crlf @ ''hi'') =
      (True, c', ''hi'') \<and> gotAll c' \<and>
    map_find ''Content-Length'' (req_headers (ctx_request c')) = None \<and>
    getHeader ''Content-Length'' (ctx_request c') = []"
proof -
  let ?p = "\<lparr>resp_headers = [], resp_statusCode = k200Ok, resp_statusMessage = ''OK'',
      resp_closeConnection = False, resp_body = ''hi''\<rparr>"
  have "peek_range (appendToBuffer ?p (Buffer_new 2024)) = status_line ?p @ crlf @
      ''HTTP/1.1 200 Content-Length: 2'' @ crlf @ ''Connection: Keep-Alive'' @ crlf @ crlf @ ''hi''"
    using peek_range_appendToBuffer [OF buf_inv_new, of ?p 2024]
    by (simp add: fixed_headers_def dec_eval)
  from keepalive_has_no_content_length [OF _ _ _ this,
      of "HttpContext_new\<lparr>ctx_state := kExpectHeaders\<rparr>" 0]
  show ?thesis by (simp add: HttpContext_new_def HttpRequest_new_def)
qed

end
