(* ===== verification/Channel_Poller.thy ===== *)
theory Channel_Poller
  imports Prelude
begin

unbundle bit_operations_syntax

text \<open>
  The classes \<open>Channel\<close> (\<open>src/include/Channel.h\<close>, \<open>src/src/Channel.cpp\<close>),
  \<open>Poller\<close> and \<open>EPollPoller\<close> (\<open>src/src/Poller.cpp\<close>, \<open>src/src/EPollPoller.cpp\<close>): which
  events a descriptor is registered for, and how reported events reach the callbacks.

  A channel is an object in a store from addresses (\<open>Channel*\<close>) to records, so that
  the pointers kept by the poller and by the kernel can be compared with the live
  objects. The calls \<open>epoll_ctl\<close> that the code makes are recorded in the poller in
  order; the kernel's answer to a call is a parameter that may depend on the calls
  before it. \<open>interest\<close> and \<open>ctl_legal\<close> state the documented discipline of the calls:
  a descriptor is added when it is not registered, changed or deleted when it is.
\<close>

section \<open>Data and operations\<close>

type_synonym events = "32 word"

definition EPOLLIN :: events where "EPOLLIN = 1"
definition EPOLLPRI :: events where "EPOLLPRI = 2"
definition EPOLLOUT :: events where "EPOLLOUT = 4"
definition EPOLLERR :: events where "EPOLLERR = 8"
definition EPOLLHUP :: events where "EPOLLHUP = 16"

definition kNoneEvent :: events where "kNoneEvent = 0"
definition kReadEvent :: events where "kReadEvent = EPOLLIN OR EPOLLPRI"
definition kWriteEvent :: events where "kWriteEvent = EPOLLOUT"

definition kNew :: int where "kNew = - 1"
definition kAdded :: int where "kAdded = 1"
definition kDeleted :: int where "kDeleted = 2"

record channel =
  ch_addr :: nat
  ch_fd :: int
  ch_events :: events
  ch_revents :: events
  ch_index :: int
  ch_tied :: bool

definition Channel_new :: "nat \<Rightarrow> int \<Rightarrow> channel" where
  "Channel_new a fd = \<lparr>ch_addr = a, ch_fd = fd, ch_events = 0, ch_revents = 0,
     ch_index = - 1, ch_tied = False\<rparr>"

definition isReading :: "channel \<Rightarrow> bool" where
  "isReading ch \<longleftrightarrow> ch_events ch AND kReadEvent \<noteq> 0"

definition isWriting :: "channel \<Rightarrow> bool" where
  "isWriting ch \<longleftrightarrow> ch_events ch AND kWriteEvent \<noteq> 0"

definition isNoneEvent :: "channel \<Rightarrow> bool" where
  "isNoneEvent ch \<longleftrightarrow> ch_events ch = kNoneEvent"

definition tie :: "channel \<Rightarrow> channel" where
  "tie ch = ch\<lparr>ch_tied := True\<rparr>"

datatype epoll_op = EPOLL_CTL_ADD | EPOLL_CTL_MOD | EPOLL_CTL_DEL

text \<open>A call \<open>epoll_ctl(epollfd_, op, fd, {events, data.ptr})\<close>.\<close>

datatype ctl_call = CtlCall (ctl_op: epoll_op) (ctl_fd: int) (ctl_events: events) (ctl_ptr: nat)

text \<open>Whether a call succeeds, given the calls made before it.\<close>

type_synonym ctl_fn = "ctl_call list \<Rightarrow> ctl_call \<Rightarrow> bool"

record poller =
  po_channels :: "int \<rightharpoonup> nat"
  po_calls :: "ctl_call list"
  po_eventList :: nat

definition kInitEventListSize :: nat where "kInitEventListSize = 16"

definition EPollPoller_new :: poller where
  "EPollPoller_new = \<lparr>po_channels = Map.empty, po_calls = [],
     po_eventList = kInitEventListSize\<rparr>"

definition epoll_update :: "ctl_fn \<Rightarrow> epoll_op \<Rightarrow> channel \<Rightarrow> poller \<Rightarrow> poller res" where
  "epoll_update ctl operation ch p =
     (let call = CtlCall operation (ch_fd ch) (ch_events ch) (ch_addr ch);
          p' = p\<lparr>po_calls := po_calls p @ [call]\<rparr>
      in if \<not> ctl (po_calls p) call
         then (if operation = EPOLL_CTL_DEL then Inr p' else Inl Abort)
         else Inr p')"

definition updateChannel :: "ctl_fn \<Rightarrow> channel \<Rightarrow> poller \<Rightarrow> (channel \<times> poller) res" where
  "updateChannel ctl ch p =
     (if ch_index ch = kNew \<or> ch_index ch = kDeleted then
        (let p1 = (if ch_index ch = kNew
                   then p\<lparr>po_channels := (po_channels p)(ch_fd ch \<mapsto> ch_addr ch)\<rparr>
                   else p);
             ch' = ch\<lparr>ch_index := kAdded\<rparr>
         in res_bind (epoll_update ctl EPOLL_CTL_ADD ch' p1) (\<lambda>p2. Inr (ch', p2)))
      else if isNoneEvent ch then
        res_bind (epoll_update ctl EPOLL_CTL_DEL ch p) (\<lambda>p'. Inr (ch\<lparr>ch_index := kDeleted\<rparr>, p'))
      else
        res_bind (epoll_update ctl EPOLL_CTL_MOD ch p) (\<lambda>p'. Inr (ch, p')))"

definition removeChannel :: "ctl_fn \<Rightarrow> channel \<Rightarrow> poller \<Rightarrow> (channel \<times> poller) res" where
  "removeChannel ctl ch p =
     (let p1 = p\<lparr>po_channels := (po_channels p)(ch_fd ch := None)\<rparr> in
      res_bind (if ch_index ch = kAdded then epoll_update ctl EPOLL_CTL_DEL ch p1 else Inr p1)
        (\<lambda>p2. Inr (ch\<lparr>ch_index := kNew\<rparr>, p2)))"

definition hasChannel :: "channel \<Rightarrow> poller \<Rightarrow> bool" where
  "hasChannel ch p \<longleftrightarrow> po_channels p (ch_fd ch) = Some (ch_addr ch)"

definition enableReading :: "ctl_fn \<Rightarrow> channel \<Rightarrow> poller \<Rightarrow> (channel \<times> poller) res" where
  "enableReading ctl ch p = updateChannel ctl (ch\<lparr>ch_events := ch_events ch OR kReadEvent\<rparr>) p"

definition disableReading :: "ctl_fn \<Rightarrow> channel \<Rightarrow> poller \<Rightarrow> (channel \<times> poller) res" where
  "disableReading ctl ch p =
     updateChannel ctl (ch\<lparr>ch_events := ch_events ch AND NOT kReadEvent\<rparr>) p"

definition enableWriting :: "ctl_fn \<Rightarrow> channel \<Rightarrow> poller \<Rightarrow> (channel \<times> poller) res" where
  "enableWriting ctl ch p = updateChannel ctl (ch\<lparr>ch_events := ch_events ch OR kWriteEvent\<rparr>) p"

definition disableWriting :: "ctl_fn \<Rightarrow> channel \<Rightarrow> poller \<Rightarrow> (channel \<times> poller) res" where
  "disableWriting ctl ch p =
     updateChannel ctl (ch\<lparr>ch_events := ch_events ch AND NOT kWriteEvent\<rparr>) p"

definition disableAll :: "ctl_fn \<Rightarrow> channel \<Rightarrow> poller \<Rightarrow> (channel \<times> poller) res" where
  "disableAll ctl ch p = updateChannel ctl (ch\<lparr>ch_events := kNoneEvent\<rparr>) p"

subsection \<open>Polling\<close>

type_synonym chan_store = "nat \<rightharpoonup> channel"

text \<open>
  \<open>fillActiveChannel\<close> follows the pointers the kernel hands back; a pointer to no live
  channel is an error.
\<close>

fun fillActiveChannel ::
    "(nat \<times> events) list \<Rightarrow> chan_store \<Rightarrow> (nat list \<times> chan_store) res" where
  "fillActiveChannel [] st = Inr ([], st)"
| "fillActiveChannel ((a, ev) # evs) st =
     (case st a of
        None \<Rightarrow> Inl BadPointer
      | Some ch \<Rightarrow>
          res_bind (fillActiveChannel evs (st(a \<mapsto> ch\<lparr>ch_revents := ev\<rparr>)))
            (\<lambda>(act, st'). Inr (a # act, st')))"

text \<open>
  \<open>poll\<close> for an answer of \<open>epoll_wait\<close>: an error number, or the reported events.
\<close>

definition poll ::
    "errno + (nat \<times> events) list \<Rightarrow> chan_store \<Rightarrow> poller \<Rightarrow> (nat list \<times> chan_store \<times> poller) res"
  where
  "poll answer st p =
     (case answer of
        Inr evs \<Rightarrow>
          if 0 < length evs then
            res_bind (fillActiveChannel evs st)
              (\<lambda>(act, st'). Inr (act, st',
                 if length evs = po_eventList p then p\<lparr>po_eventList := po_eventList p * 2\<rparr> else p))
          else Inr ([], st, p)
      | Inl e \<Rightarrow> Inr ([], st, p))"

subsection \<open>Dispatch\<close>

record 's callbacks =
  readCallback :: "(int \<Rightarrow> 's \<Rightarrow> 's res) option"
  writeCallback :: "('s \<Rightarrow> 's res) option"
  closeCallback :: "('s \<Rightarrow> 's res) option"
  errorCallback :: "('s \<Rightarrow> 's res) option"

definition call_back :: "('s \<Rightarrow> 's res) option \<Rightarrow> 's \<Rightarrow> 's res" where
  "call_back cb s = (case cb of None \<Rightarrow> Inr s | Some f \<Rightarrow> f s)"

definition handleEventWithGuard ::
    "'s callbacks \<Rightarrow> events \<Rightarrow> int \<Rightarrow> 's \<Rightarrow> 's res" where
  "handleEventWithGuard cbs revents receiveTime s =
     res_bind (if revents AND EPOLLHUP \<noteq> 0 \<and> \<not> revents AND EPOLLIN \<noteq> 0
               then call_back (closeCallback cbs) s else Inr s)
     (\<lambda>s1. res_bind (if revents AND EPOLLERR \<noteq> 0 then call_back (errorCallback cbs) s1 else Inr s1)
     (\<lambda>s2. res_bind (if revents AND (EPOLLIN OR EPOLLPRI) \<noteq> 0
               then call_back (map_option (\<lambda>f. f receiveTime) (readCallback cbs)) s2 else Inr s2)
     (\<lambda>s3. if revents AND EPOLLOUT \<noteq> 0 then call_back (writeCallback cbs) s3 else Inr s3)))"

text \<open>
  \<open>handleEvent\<close>: a tied channel only dispatches while the object it is tied to is alive
  (\<open>tie_.lock()\<close> succeeds).
\<close>

definition handleEvent ::
    "'s callbacks \<Rightarrow> channel \<Rightarrow> bool \<Rightarrow> int \<Rightarrow> 's \<Rightarrow> 's res" where
  "handleEvent cbs ch owner_alive receiveTime s =
     (if ch_tied ch
      then (if owner_alive then handleEventWithGuard cbs (ch_revents ch) receiveTime s else Inr s)
      else handleEventWithGuard cbs (ch_revents ch) receiveTime s)"

subsection \<open>Runs over a set of channels\<close>

datatype chan_cmd =
    EnableReading | DisableReading | EnableWriting | DisableWriting | DisableAll | Remove

fun chan_exec :: "ctl_fn \<Rightarrow> chan_cmd \<Rightarrow> channel \<Rightarrow> poller \<Rightarrow> (channel \<times> poller) res" where
  "chan_exec ctl EnableReading ch p = enableReading ctl ch p"
| "chan_exec ctl DisableReading ch p = disableReading ctl ch p"
| "chan_exec ctl EnableWriting ch p = enableWriting ctl ch p"
| "chan_exec ctl DisableWriting ch p = disableWriting ctl ch p"
| "chan_exec ctl DisableAll ch p = disableAll ctl ch p"
| "chan_exec ctl Remove ch p = removeChannel ctl ch p"

fun poller_run ::
    "ctl_fn \<Rightarrow> (nat \<times> chan_cmd) list \<Rightarrow> chan_store \<Rightarrow> poller \<Rightarrow> (chan_store \<times> poller) res" where
  "poller_run ctl [] st p = Inr (st, p)"
| "poller_run ctl ((a, cmd) # cmds) st p =
     (case st a of
        None \<Rightarrow> Inl BadPointer
      | Some ch \<Rightarrow>
          res_bind (chan_exec ctl cmd ch p)
            (\<lambda>(ch', p'). poller_run ctl cmds (st(a \<mapsto> ch')) p'))"

section \<open>The discipline of epoll\<close>

text \<open>The interest list after a sequence of successful calls: events and pointer per descriptor.\<close>

fun interest_step :: "ctl_call \<Rightarrow> (int \<rightharpoonup> events \<times> nat) \<Rightarrow> (int \<rightharpoonup> events \<times> nat)" where
  "interest_step (CtlCall EPOLL_CTL_ADD fd ev a) m = m(fd \<mapsto> (ev, a))"
| "interest_step (CtlCall EPOLL_CTL_MOD fd ev a) m = m(fd \<mapsto> (ev, a))"
| "interest_step (CtlCall EPOLL_CTL_DEL fd ev a) m = m(fd := None)"

definition interest :: "ctl_call list \<Rightarrow> int \<rightharpoonup> events \<times> nat" where
  "interest calls = fold interest_step calls Map.empty"

definition ctl_legal :: "ctl_call list \<Rightarrow> ctl_call \<Rightarrow> bool" where
  "ctl_legal calls call \<longleftrightarrow>
     (ctl_op call = EPOLL_CTL_ADD \<longleftrightarrow> interest calls (ctl_fd call) = None)"

text \<open>
  What \<open>epoll_ctl\<close> documents, exhaustion of kernel memory aside: a call that respects
  the discipline succeeds.
\<close>

definition ctl_honest :: "ctl_fn \<Rightarrow> bool" where
  "ctl_honest ctl \<longleftrightarrow> (\<forall>calls call. ctl_legal calls call \<longrightarrow> ctl calls call)"

fun calls_legal :: "ctl_call list \<Rightarrow> ctl_call list \<Rightarrow> bool" where
  "calls_legal past [] \<longleftrightarrow> True"
| "calls_legal past (c # cs) \<longleftrightarrow> ctl_legal past c \<and> calls_legal (past @ [c]) cs"

text \<open>
  The invariant that ties a channel to the poller: \<open>kNew\<close> means unknown to both, the
  two other states mean known to the poller, and \<open>kAdded\<close> is exactly registered with
  the kernel, for the channel's events and under the channel's address.
\<close>

definition chan_inv :: "channel \<Rightarrow> poller \<Rightarrow> bool" where
  "chan_inv ch p \<longleftrightarrow>
     (ch_index ch = kNew \<and> po_channels p (ch_fd ch) = None \<and>
        interest (po_calls p) (ch_fd ch) = None \<or>
      ch_index ch = kAdded \<and> po_channels p (ch_fd ch) = Some (ch_addr ch) \<and>
        interest (po_calls p) (ch_fd ch) = Some (ch_events ch, ch_addr ch) \<or>
      ch_index ch = kDeleted \<and> po_channels p (ch_fd ch) = Some (ch_addr ch) \<and>
        interest (po_calls p) (ch_fd ch) = None)"

definition store_inv :: "chan_store \<Rightarrow> poller \<Rightarrow> bool" where
  "store_inv st p \<longleftrightarrow>
     (\<forall>a ch. st a = Some ch \<longrightarrow> ch_addr ch = a \<and> chan_inv ch p) \<and>
     (\<forall>a b cha chb. st a = Some cha \<longrightarrow> st b = Some chb \<longrightarrow> ch_fd cha = ch_fd chb \<longrightarrow> a = b) \<and>
     (\<forall>fd ev a. interest (po_calls p) fd = Some (ev, a) \<longrightarrow> (\<exists>ch. st a = Some ch \<and> ch_fd ch = fd)) \<and>
     calls_legal [] (po_calls p)"

section \<open>Lemmas\<close>

lemmas index_consts = kNew_def kAdded_def kDeleted_def

lemma interest_snoc: "interest (calls @ [c]) = interest_step c (interest calls)"
  by (simp add: interest_def)

lemma calls_legal_snoc:
  "calls_legal past (cs @ [c]) \<longleftrightarrow> calls_legal past cs \<and> ctl_legal (past @ cs) c"
  by (induction past cs rule: calls_legal.induct) auto

text \<open>
  One channel operation, seen from the poller: it succeeds, keeps the invariant of its
  channel, its descriptor and its address, and touches nothing of other descriptors.
\<close>

definition op_ok :: "channel \<Rightarrow> poller \<Rightarrow> (channel \<times> poller) res \<Rightarrow> bool" where
  "op_ok ch p r \<longleftrightarrow> (\<exists>ch' p'. r = Inr (ch', p') \<and> chan_inv ch' p' \<and>
     ch_fd ch' = ch_fd ch \<and> ch_addr ch' = ch_addr ch \<and>
     (\<forall>fd. fd \<noteq> ch_fd ch \<longrightarrow> po_channels p' fd = po_channels p fd \<and>
        interest (po_calls p') fd = interest (po_calls p) fd) \<and>
     (calls_legal [] (po_calls p) \<longrightarrow> calls_legal [] (po_calls p')))"

lemma updateChannel_ok:
  assumes "ctl_honest ctl" and "chan_inv ch p"
  shows "op_ok ch p (updateChannel ctl (ch\<lparr>ch_events := ev\<rparr>) p)"
  using assms
  by (auto simp: op_ok_def updateChannel_def epoll_update_def Let_def chan_inv_def index_consts
      isNoneEvent_def ctl_honest_def ctl_legal_def interest_snoc calls_legal_snoc)

lemma removeChannel_ok:
  assumes "ctl_honest ctl" and "chan_inv ch p"
  shows "op_ok ch p (removeChannel ctl ch p)"
  using assms
  by (auto simp: op_ok_def removeChannel_def epoll_update_def Let_def chan_inv_def index_consts
      ctl_honest_def ctl_legal_def interest_snoc calls_legal_snoc)

lemmas chan_ops = enableReading_def disableReading_def enableWriting_def disableWriting_def
  disableAll_def

lemma chan_exec_ok:
  assumes "ctl_honest ctl" and "chan_inv ch p"
  shows "op_ok ch p (chan_exec ctl cmd ch p)"
  using updateChannel_ok [OF assms] removeChannel_ok [OF assms]
  by (cases cmd) (simp_all add: chan_ops)

lemma chan_inv_other:
  assumes "chan_inv ch p" and "po_channels p' (ch_fd ch) = po_channels p (ch_fd ch)"
    and "interest (po_calls p') (ch_fd ch) = interest (po_calls p) (ch_fd ch)"
  shows "chan_inv ch p'"
  using assms by (simp add: chan_inv_def)

lemma chan_inv_registered:
  "chan_inv ch p \<Longrightarrow> interest (po_calls p) (ch_fd ch) = Some (ev, a) \<Longrightarrow>
     a = ch_addr ch \<and> ev = ch_events ch \<and> ch_index ch = kAdded"
  by (auto simp: chan_inv_def)

lemma store_inv_step:
  assumes "store_inv st p" and "st a = Some ch" and "op_ok ch p (Inr (ch', p'))"
  shows "store_inv (st(a \<mapsto> ch')) p'"
proof -
  have a: "ch_addr ch = a"
    using assms(1,2) by (auto simp: store_inv_def)
  have new: "chan_inv ch' p'" "ch_fd ch' = ch_fd ch" "ch_addr ch' = a"
    and frame: "\<And>fd. fd \<noteq> ch_fd ch \<Longrightarrow> po_channels p' fd = po_channels p fd \<and>
        interest (po_calls p') fd = interest (po_calls p) fd"
    and legal: "calls_legal [] (po_calls p')"
    using assms(1,3) a by (auto simp: op_ok_def store_inv_def)
  have uniq: "b = a" if "st b = Some chb" "ch_fd chb = ch_fd ch" for b chb
    using assms(1,2) that unfolding store_inv_def by blast
  have others: "ch_addr chb = b \<and> chan_inv chb p'" if "st b = Some chb" "b \<noteq> a" for b chb
  proof -
    have "ch_addr chb = b" "chan_inv chb p"
      using assms(1) that(1) unfolding store_inv_def by blast+
    moreover have "ch_fd chb \<noteq> ch_fd ch" using uniq that by blast
    ultimately show ?thesis using frame chan_inv_other by blast
  qed
  have "\<exists>chb. (st(a \<mapsto> ch')) b = Some chb \<and> ch_fd chb = fd"
    if "interest (po_calls p') fd = Some (ev, b)" for fd ev b
  proof (cases "fd = ch_fd ch")
    case True
    then show ?thesis using that new chan_inv_registered [of ch' p'] by simp
  next
    case False
    then have "interest (po_calls p) fd = Some (ev, b)" using that frame by simp
    then obtain chb where "st b = Some chb" "ch_fd chb = fd"
      using assms(1) unfolding store_inv_def by blast
    then show ?thesis using False assms(2) by (cases "b = a") auto
  qed
  moreover have "\<forall>b chb. (st(a \<mapsto> ch')) b = Some chb \<longrightarrow> ch_addr chb = b \<and> chan_inv chb p'"
    using others new by auto
  moreover have "\<forall>b c chb chc. (st(a \<mapsto> ch')) b = Some chb \<longrightarrow> (st(a \<mapsto> ch')) c = Some chc \<longrightarrow>
      ch_fd chb = ch_fd chc \<longrightarrow> b = c"
    using assms(1) new(2) uniq by (auto simp: store_inv_def dest: uniq [OF _ sym])
  ultimately show ?thesis
    using legal unfolding store_inv_def by blast
qed

lemma poller_run_ok:
  assumes "ctl_honest ctl" and "store_inv st p" and "fst ` set cmds \<subseteq> dom st"
  shows "\<exists>st' p'. poller_run ctl cmds st p = Inr (st', p') \<and> store_inv st' p' \<and> dom st' = dom st"
  using assms(2,3)
proof (induction cmds arbitrary: st p)
  case Nil
  then show ?case by simp
next
  case (Cons c cmds)
  obtain a cmd where c: "c = (a, cmd)" by (cases c)
  with Cons.prems obtain ch where ch: "st a = Some ch" by auto
  then have "chan_inv ch p"
    using Cons.prems(1) unfolding store_inv_def by blast
  from chan_exec_ok [OF assms(1) this, of cmd]
  obtain ch' p' where e: "chan_exec ctl cmd ch p = Inr (ch', p')"
    and ok: "op_ok ch p (Inr (ch', p'))"
    by (auto simp: op_ok_def)
  have inv: "store_inv (st(a \<mapsto> ch')) p'"
    using Cons.prems(1) ch ok by (rule store_inv_step)
  have d: "dom (st(a \<mapsto> ch')) = dom st"
    using ch by auto
  then have "fst ` set cmds \<subseteq> dom (st(a \<mapsto> ch'))"
    using Cons.prems(2) by auto
  from Cons.IH [OF inv this] obtain st'' p''
    where "poller_run ctl cmds (st(a \<mapsto> ch')) p' = Inr (st'', p'')"
      and "store_inv st'' p''" and "dom st'' = dom st"
    using d by blast
  moreover have "poller_run ctl (c # cmds) st p = poller_run ctl cmds (st(a \<mapsto> ch')) p'"
    using c ch e by simp
  ultimately show ?case by simp
qed

lemma fillActiveChannel_ok:
  assumes "fst ` set evs \<subseteq> dom st"
  shows "\<exists>st'. fillActiveChannel evs st = Inr (map fst evs, st') \<and> dom st' = dom st \<and>
    (\<forall>a. map_option (\<lambda>ch. ch\<lparr>ch_revents := 0\<rparr>) (st' a) =
         map_option (\<lambda>ch. ch\<lparr>ch_revents := 0\<rparr>) (st a)) \<and>
    (\<forall>a ev. (a, ev) \<in> set evs \<longrightarrow> distinct (map fst evs) \<longrightarrow>
        map_option ch_revents (st' a) = Some ev) \<and>
    (\<forall>a. a \<notin> fst ` set evs \<longrightarrow> st' a = st a)"
  using assms
proof (induction evs arbitrary: st)
  case Nil
  then show ?case by simp
next
  case (Cons e evs)
  obtain a ev where e: "e = (a, ev)" by (cases e)
  with Cons.prems obtain ch where ch: "st a = Some ch" by auto
  let ?st = "st(a \<mapsto> ch\<lparr>ch_revents := ev\<rparr>)"
  have "dom ?st = dom st" using ch by auto
  with Cons.prems have "fst ` set evs \<subseteq> dom ?st" by auto
  from Cons.IH [OF this] obtain st' where
    st': "fillActiveChannel evs ?st = Inr (map fst evs, st')" "dom st' = dom ?st"
      "\<forall>b. map_option (\<lambda>ch. ch\<lparr>ch_revents := 0\<rparr>) (st' b) =
         map_option (\<lambda>ch. ch\<lparr>ch_revents := 0\<rparr>) (?st b)"
      "\<forall>b ev. (b, ev) \<in> set evs \<longrightarrow> distinct (map fst evs) \<longrightarrow>
         map_option ch_revents (st' b) = Some ev"
      "\<forall>b. b \<notin> fst ` set evs \<longrightarrow> st' b = ?st b"
    by blast
  have "fillActiveChannel (e # evs) st = Inr (map fst (e # evs), st')"
    using e ch st'(1) by simp
  moreover have "\<forall>b. map_option (\<lambda>ch. ch\<lparr>ch_revents := 0\<rparr>) (st' b) =
      map_option (\<lambda>ch. ch\<lparr>ch_revents := 0\<rparr>) (st b)"
    using st'(3) ch by auto
  moreover have "\<forall>b ev'. (b, ev') \<in> set (e # evs) \<longrightarrow> distinct (map fst (e # evs)) \<longrightarrow>
      map_option ch_revents (st' b) = Some ev'"
    using st'(4,5) e by auto
  ultimately show ?case
    using st'(2,5) e ch by auto
qed

section \<open>Interest in write events\<close>

lemma updateChannel_fields:
  "updateChannel ctl ch p = Inr (ch', p') \<Longrightarrow>
     ch_events ch' = ch_events ch \<and> ch_tied ch' = ch_tied ch"
  by (auto simp: updateChannel_def Let_def split: if_splits)

lemma write_bit_set: "(x OR kWriteEvent) AND kWriteEvent \<noteq> 0"
  by (simp add: kWriteEvent_def EPOLLOUT_def bit.conj_disj_distrib2 word_ao_absorbs)

lemma write_bit_clear: "(x AND NOT kWriteEvent) AND kWriteEvent = 0"
  by (simp add: bit_eq_iff bit_simps)

lemma read_keeps_write_bit: "(x OR kReadEvent) AND kWriteEvent = x AND kWriteEvent"
  by (simp add: kReadEvent_def kWriteEvent_def EPOLLIN_def EPOLLPRI_def EPOLLOUT_def
      bit.conj_disj_distrib2)

lemma isWriting_enableWriting:
  "enableWriting ctl ch p = Inr (ch', p') \<Longrightarrow> isWriting ch'"
  using write_bit_set by (auto simp: enableWriting_def isWriting_def dest!: updateChannel_fields)

lemma isWriting_disableWriting:
  "disableWriting ctl ch p = Inr (ch', p') \<Longrightarrow> \<not> isWriting ch'"
  using write_bit_clear by (auto simp: disableWriting_def isWriting_def dest!: updateChannel_fields)

lemma isWriting_disableAll:
  "disableAll ctl ch p = Inr (ch', p') \<Longrightarrow> \<not> isWriting ch'"
  by (auto simp: disableAll_def isWriting_def kNoneEvent_def dest!: updateChannel_fields)

lemma isWriting_enableReading:
  "enableReading ctl ch p = Inr (ch', p') \<Longrightarrow> isWriting ch' \<longleftrightarrow> isWriting ch"
  using read_keeps_write_bit
  by (auto simp: enableReading_def isWriting_def dest!: updateChannel_fields)

text \<open>
  What a connection relies on when it turns the interest in write events on and off: the
  operations succeed, keep the registration consistent, and have the effect they are
  named after.
\<close>

locale write_interest =
  fixes ok :: "'ch \<Rightarrow> 'p \<Rightarrow> bool"
    and writing :: "'ch \<Rightarrow> bool"
    and enable :: "'ch \<Rightarrow> 'p \<Rightarrow> ('ch \<times> 'p) res"
    and disable :: "'ch \<Rightarrow> 'p \<Rightarrow> ('ch \<times> 'p) res"
    and disable_all :: "'ch \<Rightarrow> 'p \<Rightarrow> ('ch \<times> 'p) res"
  assumes enable_ok: "ok c p \<Longrightarrow> \<exists>c' p'. enable c p = Inr (c', p') \<and> ok c' p' \<and> writing c'"
    and disable_ok: "ok c p \<Longrightarrow> \<exists>c' p'. disable c p = Inr (c', p') \<and> ok c' p' \<and> \<not> writing c'"
    and disable_all_ok:
      "ok c p \<Longrightarrow> \<exists>c' p'. disable_all c p = Inr (c', p') \<and> ok c' p' \<and> \<not> writing c'"
begin

lemma enable_then_disable:
  "ok c p \<Longrightarrow> \<exists>c' p'. res_bind (enable c p) (\<lambda>(c1, p1). disable c1 p1) = Inr (c', p') \<and>
     ok c' p' \<and> \<not> writing c'"
  using enable_ok disable_ok by fastforce

end

interpretation wi: write_interest "\<lambda>ch p. ctl_honest ctl \<and> chan_inv ch p" isWriting
  "enableWriting ctl" "disableWriting ctl" "disableAll ctl" for ctl
proof
  fix c p
  assume "ctl_honest ctl \<and> chan_inv c p"
  then have h: "ctl_honest ctl" and i: "chan_inv c p" by auto
  show "\<exists>c' p'. enableWriting ctl c p = Inr (c', p') \<and>
      (ctl_honest ctl \<and> chan_inv c' p') \<and> isWriting c'"
    using chan_exec_ok [OF h i, of EnableWriting] h isWriting_enableWriting
    by (fastforce simp: op_ok_def)
  show "\<exists>c' p'. disableWriting ctl c p = Inr (c', p') \<and>
      (ctl_honest ctl \<and> chan_inv c' p') \<and> \<not> isWriting c'"
    using chan_exec_ok [OF h i, of DisableWriting] h isWriting_disableWriting
    by (fastforce simp: op_ok_def)
  show "\<exists>c' p'. disableAll ctl c p = Inr (c', p') \<and>
      (ctl_honest ctl \<and> chan_inv c' p') \<and> \<not> isWriting c'"
    using chan_exec_ok [OF h i, of DisableAll] h isWriting_disableAll
    by (fastforce simp: op_ok_def)
qed

section \<open>Properties\<close>

text \<open>
  C19: the registration state machine is sound. For any channels with distinct
  descriptors and any sequence of enabling, disabling and removing calls on them, the
  poller makes only legal \<open>epoll_ctl\<close> calls (it adds a descriptor exactly when it is
  not registered), so with a kernel that accepts legal calls it never aborts, and at
  the end every channel's index tells the truth: \<open>kAdded\<close> is registered for exactly
  the channel's events, \<open>kNew\<close> and \<open>kDeleted\<close> are not registered.
\<close>

theorem poller_run_sound:
  assumes "ctl_honest ctl" and "store_inv st p" and "fst ` set cmds \<subseteq> dom st"
  shows "\<exists>st' p'. poller_run ctl cmds st p = Inr (st', p') \<and> calls_legal [] (po_calls p') \<and>
    (\<forall>a ch. st' a = Some ch \<longrightarrow>
       (ch_index ch = kAdded \<longleftrightarrow> interest (po_calls p') (ch_fd ch) = Some (ch_events ch, a)) \<and>
       (ch_index ch \<noteq> kAdded \<longleftrightarrow> interest (po_calls p') (ch_fd ch) = None) \<and>
       (hasChannel ch p' \<longleftrightarrow> ch_index ch \<noteq> kNew))"
proof -
  obtain st' p' where r: "poller_run ctl cmds st p = Inr (st', p')" and inv: "store_inv st' p'"
    using poller_run_ok [OF assms] by blast
  have "(ch_index ch = kAdded \<longleftrightarrow> interest (po_calls p') (ch_fd ch) = Some (ch_events ch, a)) \<and>
      (ch_index ch \<noteq> kAdded \<longleftrightarrow> interest (po_calls p') (ch_fd ch) = None) \<and>
      (hasChannel ch p' \<longleftrightarrow> ch_index ch \<noteq> kNew)" if "st' a = Some ch" for a ch
  proof -
    have "ch_addr ch = a" "chan_inv ch p'"
      using inv that unfolding store_inv_def by blast+
    then show ?thesis by (auto simp: chan_inv_def hasChannel_def index_consts)
  qed
  moreover have "calls_legal [] (po_calls p')"
    using inv unfolding store_inv_def by blast
  ultimately show ?thesis using r by blast
qed

theorem poller_run_sound_witness:
  "\<exists>st' p'. poller_run ctl_legal [(5, EnableReading), (5, EnableWriting), (5, DisableAll),
        (5, Remove)] [5 \<mapsto> Channel_new 5 9] EPollPoller_new = Inr (st', p') \<and>
    calls_legal [] (po_calls p') \<and>
    (\<forall>a ch. st' a = Some ch \<longrightarrow>
       (ch_index ch = kAdded \<longleftrightarrow> interest (po_calls p') (ch_fd ch) = Some (ch_events ch, a)) \<and>
       (ch_index ch \<noteq> kAdded \<longleftrightarrow> interest (po_calls p') (ch_fd ch) = None) \<and>
       (hasChannel ch p' \<longleftrightarrow> ch_index ch \<noteq> kNew))"
proof (rule poller_run_sound)
  show "ctl_honest ctl_legal" by (simp add: ctl_honest_def)
  show "store_inv [5 \<mapsto> Channel_new 5 9] EPollPoller_new"
    by (auto simp: store_inv_def chan_inv_def Channel_new_def EPollPoller_new_def interest_def
        kNew_def split: if_splits)
qed auto

text \<open>
  C27: polling only reaches live channels. When the events the kernel reports carry
  pointers that it was given in the registrations in force, \<open>poll\<close> follows no bad
  pointer: it returns exactly the reported channels, each with the reported events,
  and changes nothing else of any channel.
\<close>

theorem poll_reaches_live_channels:
  assumes "store_inv st p" and "distinct (map fst evs)"
    and "\<forall>(a, ev) \<in> set evs. \<exists>fd e. interest (po_calls p) fd = Some (e, a)"
  shows "\<exists>st' p'. poll (Inr evs) st p = Inr (map fst evs, st', p') \<and> dom st' = dom st \<and>
    (\<forall>(a, ev) \<in> set evs. map_option ch_revents (st' a) = Some ev) \<and>
    (\<forall>a. map_option (\<lambda>ch. ch\<lparr>ch_revents := 0\<rparr>) (st' a) =
         map_option (\<lambda>ch. ch\<lparr>ch_revents := 0\<rparr>) (st a))"
proof (cases "evs = []")
  case True
  then show ?thesis by (simp add: poll_def)
next
  case False
  have "fst ` set evs \<subseteq> dom st"
    using assms(1,3) unfolding store_inv_def by fastforce
  from fillActiveChannel_ok [OF this] obtain st' where
    "fillActiveChannel evs st = Inr (map fst evs, st')" "dom st' = dom st"
    "\<forall>a. map_option (\<lambda>ch. ch\<lparr>ch_revents := 0\<rparr>) (st' a) =
         map_option (\<lambda>ch. ch\<lparr>ch_revents := 0\<rparr>) (st a)"
    "\<forall>(a, ev) \<in> set evs. map_option ch_revents (st' a) = Some ev"
    using assms(2) by blast
  with False show ?thesis by (simp add: poll_def)
qed

theorem poll_reaches_live_channels_witness:
  "\<exists>st' p'. poll (Inr [(5, EPOLLIN)])
      [5 \<mapsto> (Channel_new 5 9)\<lparr>ch_events := kReadEvent, ch_index := kAdded\<rparr>]
      \<lparr>po_channels = [9 \<mapsto> 5], po_calls = [CtlCall EPOLL_CTL_ADD 9 kReadEvent 5],
       po_eventList = 16\<rparr> = Inr (map fst [(5, EPOLLIN)], st', p') \<and>
    dom st' = dom [5 \<mapsto> (Channel_new 5 9)\<lparr>ch_events := kReadEvent, ch_index := kAdded\<rparr>] \<and>
    (\<forall>(a, ev) \<in> set [(5, EPOLLIN)]. map_option ch_revents (st' a) = Some ev) \<and>
    (\<forall>a. map_option (\<lambda>ch. ch\<lparr>ch_revents := 0\<rparr>) (st' a) =
         map_option (\<lambda>ch. ch\<lparr>ch_revents := 0\<rparr>)
           ([5 \<mapsto> (Channel_new 5 9)\<lparr>ch_events := kReadEvent, ch_index := kAdded\<rparr>] a))"
  by (rule poll_reaches_live_channels)
     (auto simp: store_inv_def chan_inv_def Channel_new_def interest_def kAdded_def ctl_legal_def
       split: if_splits)

end
