(* ===== verification/Tcp_Connection.thy ===== *)
theory Tcp_Connection
  imports Net_Buffer Channel_Poller
begin

text \<open>
  The class \<open>TcpConnection\<close> (\<open>src/include/TcpConnection.h\<close>,
  \<open>src/src/TcpConnection.cpp\<close>): the states of a connection, its output path (direct
  write, output buffer, write events, high water mark), its input path, half-close
  and teardown.

  A handler maps an environment to an environment: the connection, the poller of its
  loop, the functors it has queued in the loop, and what the kernel has been given (the
  bytes it accepted, and whether the write side was shut down). The answers of the
  kernel are parameters: \<open>kn_ctl\<close> for \<open>epoll_ctl\<close>, \<open>kn_write\<close> for \<open>write\<close> (which may
  depend on the bytes accepted before), and the answer of \<open>readv\<close> as an argument of
  \<open>handleRead\<close>. The callbacks that the owner installs are parameters too.
\<close>

section \<open>Data and operations\<close>

datatype conn_state = kDisconnected | kconnecting | kConnected | kDisconnecting

record 'c tcp_conn =
  tc_state :: conn_state
  tc_channel :: channel
  tc_input :: buffer
  tc_output :: buffer
  tc_highWaterMark :: nat
  tc_writeCompleteSet :: bool
  tc_highWaterMarkSet :: bool
  tc_context :: "'c option"

text \<open>
  The functors that the class binds. \<open>FSendInLoop\<close> carries a pointer to the caller's
  bytes and their number, not the bytes.
\<close>

datatype conn_functor =
    FWriteComplete | FHighWaterMark nat | FSendInLoop nat nat | FShutdownInLoop

record 'c tcp_env =
  te_conn :: "'c tcp_conn"
  te_poller :: poller
  te_queued :: "conn_functor list"
  te_sent :: string
  te_shutdown :: bool

record kernel =
  kn_ctl :: ctl_fn
  kn_write :: "string \<Rightarrow> string \<Rightarrow> errno + nat"

record 'c conn_callbacks =
  connectionCallback :: "'c tcp_env \<Rightarrow> 'c tcp_env res"
  messageCallback :: "int \<Rightarrow> 'c tcp_env \<Rightarrow> 'c tcp_env res"
  connCloseCallback :: "'c tcp_env \<Rightarrow> 'c tcp_env res"

definition TcpConnection_new :: "nat \<Rightarrow> int \<Rightarrow> 'c tcp_conn" where
  "TcpConnection_new a sockfd = \<lparr>tc_state = kconnecting, tc_channel = Channel_new a sockfd,
     tc_input = Buffer_new kInitialSize, tc_output = Buffer_new kInitialSize,
     tc_highWaterMark = 64 * 1024 * 1024, tc_writeCompleteSet = False,
     tc_highWaterMarkSet = False, tc_context = None\<rparr>"

definition connected :: "'c tcp_conn \<Rightarrow> bool" where
  "connected c \<longleftrightarrow> tc_state c = kConnected"

definition setState :: "conn_state \<Rightarrow> 'c tcp_env \<Rightarrow> 'c tcp_env" where
  "setState st e = e\<lparr>te_conn := (te_conn e)\<lparr>tc_state := st\<rparr>\<rparr>"

definition setContext :: "'c \<Rightarrow> 'c tcp_env \<Rightarrow> 'c tcp_env" where
  "setContext ctx e = e\<lparr>te_conn := (te_conn e)\<lparr>tc_context := Some ctx\<rparr>\<rparr>"

definition queue_functor :: "conn_functor \<Rightarrow> 'c tcp_env \<Rightarrow> 'c tcp_env" where
  "queue_functor f e = e\<lparr>te_queued := te_queued e @ [f]\<rparr>"

text \<open>A channel operation of the connection, on its channel and the poller of its loop.\<close>

definition on_channel ::
    "(channel \<Rightarrow> poller \<Rightarrow> (channel \<times> poller) res) \<Rightarrow> 'c tcp_env \<Rightarrow> 'c tcp_env res" where
  "on_channel f e =
     res_bind (f (tc_channel (te_conn e)) (te_poller e))
       (\<lambda>(ch, p). Inr (e\<lparr>te_conn := (te_conn e)\<lparr>tc_channel := ch\<rparr>, te_poller := p\<rparr>))"

definition outputBytes :: "'c tcp_env \<Rightarrow> string" where
  "outputBytes e = peek_range (tc_output (te_conn e))"

definition set_output :: "buffer \<Rightarrow> 'c tcp_env \<Rightarrow> 'c tcp_env" where
  "set_output b e = e\<lparr>te_conn := (te_conn e)\<lparr>tc_output := b\<rparr>\<rparr>"

text \<open>The direct write of \<open>sendInLoop\<close>: the bytes written, and whether the peer is gone.\<close>

definition direct_write :: "kernel \<Rightarrow> string \<Rightarrow> 'c tcp_env \<Rightarrow> nat \<times> bool \<times> 'c tcp_env" where
  "direct_write k data e =
     (case kn_write k (te_sent e) data of
        Inr nwrote \<Rightarrow>
          (let e' = e\<lparr>te_sent := te_sent e @ take nwrote data\<rparr> in
           (nwrote, False,
            if length data - nwrote = 0 \<and> tc_writeCompleteSet (te_conn e)
            then queue_functor FWriteComplete e' else e'))
      | Inl err \<Rightarrow>
          (0, err \<noteq> EWOULDBLOCK \<and> (err = EPIPE \<or> err = ECONNRESET), e))"

text \<open>What is left goes to the output buffer, and the channel asks for write events.\<close>

definition buffer_rest :: "kernel \<Rightarrow> string \<Rightarrow> 'c tcp_env \<Rightarrow> 'c tcp_env res" where
  "buffer_rest k rest e1 =
     (let remaining = length rest;
          oldLen = readableBytes (tc_output (te_conn e1));
          hwm = tc_highWaterMark (te_conn e1);
          e2 = (if hwm \<le> oldLen + remaining \<and> oldLen < hwm \<and> tc_highWaterMarkSet (te_conn e1)
                then queue_functor (FHighWaterMark (oldLen + remaining)) e1 else e1);
          e3 = set_output (append rest (tc_output (te_conn e2))) e2
      in if \<not> isWriting (tc_channel (te_conn e3))
         then on_channel (enableWriting (kn_ctl k)) e3 else Inr e3)"

definition sendInLoop :: "kernel \<Rightarrow> string \<Rightarrow> 'c tcp_env \<Rightarrow> 'c tcp_env res" where
  "sendInLoop k data e =
     (let (nwrote, faultError, e1) =
            (if \<not> isWriting (tc_channel (te_conn e)) \<and> readableBytes (tc_output (te_conn e)) = 0
             then direct_write k data e else (0, False, e));
          remaining = length data - nwrote
      in if \<not> faultError \<and> 0 < remaining then buffer_rest k (drop nwrote data) e1
         else Inr e1)"

definition send :: "kernel \<Rightarrow> bool \<Rightarrow> nat \<Rightarrow> string \<Rightarrow> 'c tcp_env \<Rightarrow> 'c tcp_env res" where
  "send k inLoopThread ptr buf e =
     (if tc_state (te_conn e) = kConnected
      then (if inLoopThread then sendInLoop k buf e
            else Inr (queue_functor (FSendInLoop ptr (length buf)) e))
      else Inr e)"

definition shutdownInLoop :: "'c tcp_env \<Rightarrow> 'c tcp_env" where
  "shutdownInLoop e =
     (if \<not> isWriting (tc_channel (te_conn e)) then e\<lparr>te_shutdown := True\<rparr> else e)"

definition shutdown :: "bool \<Rightarrow> 'c tcp_env \<Rightarrow> 'c tcp_env" where
  "shutdown inLoopThread e =
     (if tc_state (te_conn e) = kConnected
      then (let e1 = setState kDisconnecting e in
            if inLoopThread then shutdownInLoop e1 else queue_functor FShutdownInLoop e1)
      else e)"

definition connectEstablished ::
    "kernel \<Rightarrow> 'c conn_callbacks \<Rightarrow> 'c tcp_env \<Rightarrow> 'c tcp_env res" where
  "connectEstablished k cbs e =
     (let e1 = setState kConnected e;
          e2 = e1\<lparr>te_conn := (te_conn e1)\<lparr>tc_channel := tie (tc_channel (te_conn e1))\<rparr>\<rparr>
      in res_bind (on_channel (enableReading (kn_ctl k)) e2) (connectionCallback cbs))"

definition connectDestroyed ::
    "kernel \<Rightarrow> 'c conn_callbacks \<Rightarrow> 'c tcp_env \<Rightarrow> 'c tcp_env res" where
  "connectDestroyed k cbs e =
     res_bind (if tc_state (te_conn e) = kConnected
               then res_bind (on_channel (disableAll (kn_ctl k)) (setState kDisconnected e))
                      (connectionCallback cbs)
               else Inr e)
       (on_channel (removeChannel (kn_ctl k)))"

definition handleClose :: "kernel \<Rightarrow> 'c conn_callbacks \<Rightarrow> 'c tcp_env \<Rightarrow> 'c tcp_env res" where
  "handleClose k cbs e =
     res_bind (on_channel (disableAll (kn_ctl k)) (setState kDisconnected e))
       (\<lambda>e1. res_bind (connectionCallback cbs e1) (connCloseCallback cbs))"

text \<open>\<open>handleError\<close> reads the error of the socket and logs it.\<close>

definition handleError :: "'c tcp_env \<Rightarrow> 'c tcp_env res" where
  "handleError e = Inr e"

definition handleRead ::
    "kernel \<Rightarrow> 'c conn_callbacks \<Rightarrow> readv_fn \<Rightarrow> int \<Rightarrow> 'c tcp_env \<Rightarrow> 'c tcp_env res" where
  "handleRead k cbs readv receiveTime e =
     (let (n, b) = readFd readv (tc_input (te_conn e));
          e1 = e\<lparr>te_conn := (te_conn e)\<lparr>tc_input := b\<rparr>\<rparr>
      in case n of
           Inr m \<Rightarrow> if 0 < m then messageCallback cbs receiveTime e1 else handleClose k cbs e1
         | Inl err \<Rightarrow> handleError e1)"

definition handleWrite :: "kernel \<Rightarrow> 'c tcp_env \<Rightarrow> 'c tcp_env res" where
  "handleWrite k e =
     (if isWriting (tc_channel (te_conn e)) then
        (case writeFd (kn_write k (te_sent e)) (tc_output (te_conn e)) of
           Inr n \<Rightarrow>
             if 0 < n then
               (let e1 = set_output (retrieve n (tc_output (te_conn e)))
                           (e\<lparr>te_sent := te_sent e @ take n (outputBytes e)\<rparr>)
                in if readableBytes (tc_output (te_conn e1)) = 0 then
                     res_bind (on_channel (disableWriting (kn_ctl k)) e1)
                       (\<lambda>e2. let e3 = (if tc_writeCompleteSet (te_conn e2)
                                        then queue_functor FWriteComplete e2 else e2)
                              in Inr (if tc_state (te_conn e3) = kDisconnecting
                                      then shutdownInLoop e3 else e3))
                   else Inr e1)
             else Inr e
         | Inl err \<Rightarrow> Inr e)
      else Inr e)"

text \<open>
  The loop runs a queued functor of the class; \<open>mem\<close> gives the bytes that a pointer
  points to at that time. The user's callbacks are not followed here.
\<close>

fun run_conn_functor ::
    "kernel \<Rightarrow> (nat \<Rightarrow> nat \<Rightarrow> string) \<Rightarrow> conn_functor \<Rightarrow> 'c tcp_env \<Rightarrow> 'c tcp_env res" where
  "run_conn_functor k mem (FSendInLoop ptr len) e = sendInLoop k (mem ptr len) e"
| "run_conn_functor k mem FShutdownInLoop e = Inr (shutdownInLoop e)"
| "run_conn_functor k mem FWriteComplete e = Inr e"
| "run_conn_functor k mem (FHighWaterMark n) e = Inr e"

text \<open>What can happen to the output path of a connection, in the thread of its loop.\<close>

datatype conn_event = EvSend string | EvShutdown | EvWritable

fun conn_exec :: "kernel \<Rightarrow> conn_event \<Rightarrow> 'c tcp_env \<Rightarrow> 'c tcp_env res" where
  "conn_exec k (EvSend data) e = send k True 0 data e"
| "conn_exec k EvShutdown e = Inr (shutdown True e)"
| "conn_exec k EvWritable e = handleWrite k e"

fun conn_run :: "kernel \<Rightarrow> conn_event list \<Rightarrow> 'c tcp_env \<Rightarrow> 'c tcp_env res" where
  "conn_run k [] e = Inr e"
| "conn_run k (ev # evs) e = res_bind (conn_exec k ev e) (conn_run k evs)"

text \<open>The bytes that the class promises to deliver: what is sent before the half-close.\<close>

fun accepted :: "conn_event list \<Rightarrow> string" where
  "accepted [] = []"
| "accepted (EvSend data # evs) = data @ accepted evs"
| "accepted (EvShutdown # evs) = []"
| "accepted (EvWritable # evs) = accepted evs"

section \<open>Hypotheses on the kernel\<close>

text \<open>\<open>write\<close> takes at most the bytes it is given.\<close>

definition write_fits :: "kernel \<Rightarrow> bool" where
  "write_fits k \<longleftrightarrow> (\<forall>s d n. kn_write k s d = Inr n \<longrightarrow> n \<le> length d)"

text \<open>The peer has not reset the connection.\<close>

definition write_no_reset :: "kernel \<Rightarrow> bool" where
  "write_no_reset k \<longleftrightarrow> (\<forall>s d. kn_write k s d \<noteq> Inl EPIPE \<and> kn_write k s d \<noteq> Inl ECONNRESET)"

section \<open>Invariant\<close>

text \<open>
  The buffers and the registration are consistent; as long as the connection is up, the
  channel asks for write events exactly while output is waiting; and the write side is
  only shut down when nothing is waiting and nothing more is accepted.
\<close>

definition conn_inv :: "'c tcp_env \<Rightarrow> bool" where
  "conn_inv e \<longleftrightarrow>
     buf_inv (tc_input (te_conn e)) \<and> buf_inv (tc_output (te_conn e)) \<and>
     chan_inv (tc_channel (te_conn e)) (te_poller e) \<and>
     (tc_state (te_conn e) \<noteq> kDisconnected \<longrightarrow>
        (isWriting (tc_channel (te_conn e)) \<longleftrightarrow> outputBytes e \<noteq> [])) \<and>
     (te_shutdown e \<longrightarrow> tc_state (te_conn e) = kDisconnecting \<and> outputBytes e = [] \<or>
        tc_state (te_conn e) = kDisconnected)"

section \<open>Lemmas\<close>

lemmas env_defs = setState_def set_output_def queue_functor_def outputBytes_def

lemma on_channel_Inr:
  "f (tc_channel (te_conn e)) (te_poller e) = Inr (ch, p) \<Longrightarrow>
     on_channel f e = Inr (e\<lparr>te_conn := (te_conn e)\<lparr>tc_channel := ch\<rparr>, te_poller := p\<rparr>)"
  by (simp add: on_channel_def)

text \<open>The output path, on a connection that is up and not shut down.\<close>

lemma buffer_rest_ok:
  assumes "conn_inv e" and "tc_state (te_conn e) \<noteq> kDisconnected" and "\<not> te_shutdown e"
    and "ctl_honest (kn_ctl k)" and "rest \<noteq> []"
  shows "\<exists>e'. buffer_rest k rest e = Inr e' \<and> conn_inv e' \<and>
    tc_state (te_conn e') = tc_state (te_conn e) \<and> \<not> te_shutdown e' \<and>
    te_sent e' = te_sent e \<and> outputBytes e' = outputBytes e @ rest"
proof -
  let ?hw = "tc_highWaterMark (te_conn e) \<le> readableBytes (tc_output (te_conn e)) + length rest \<and>
      readableBytes (tc_output (te_conn e)) < tc_highWaterMark (te_conn e) \<and>
      tc_highWaterMarkSet (te_conn e)"
  let ?e2 = "if ?hw then queue_functor (FHighWaterMark
      (readableBytes (tc_output (te_conn e)) + length rest)) e else e"
  let ?e3 = "set_output (append rest (tc_output (te_conn ?e2))) ?e2"
  have same: "te_conn ?e2 = te_conn e" "te_poller ?e2 = te_poller e" "te_sent ?e2 = te_sent e"
    "te_shutdown ?e2 = te_shutdown e"
    by (auto simp: queue_functor_def)
  have b: "buf_inv (tc_output (te_conn e))"
    using assms(1) by (simp add: conn_inv_def)
  have e3: "te_conn ?e3 = (te_conn e)\<lparr>tc_output := append rest (tc_output (te_conn e))\<rparr>"
    "te_poller ?e3 = te_poller e" "te_sent ?e3 = te_sent e" "te_shutdown ?e3 = te_shutdown e"
    "outputBytes ?e3 = outputBytes e @ rest"
    using b by (simp_all add: env_defs same peek_range_append)
  show ?thesis
  proof (cases "isWriting (tc_channel (te_conn e))")
    case True
    then have "buffer_rest k rest e = Inr ?e3"
      using e3(1) by (simp add: buffer_rest_def Let_def)
    moreover have "conn_inv ?e3"
      using assms True e3 b by (auto simp: conn_inv_def buf_inv_append)
    ultimately show ?thesis using e3 assms(3) by simp
  next
    case False
    have "chan_inv (tc_channel (te_conn e)) (te_poller e)"
      using assms(1) by (simp add: conn_inv_def)
    then obtain ch p where
      ch: "enableWriting (kn_ctl k) (tc_channel (te_conn e)) (te_poller e) = Inr (ch, p)"
      "chan_inv ch p" "isWriting ch"
      using wi.enable_ok [of "kn_ctl k"] assms(4) by blast
    let ?e4 = "?e3\<lparr>te_conn := (te_conn ?e3)\<lparr>tc_channel := ch\<rparr>, te_poller := p\<rparr>"
    have "on_channel (enableWriting (kn_ctl k)) ?e3 = Inr ?e4"
      using ch(1) e3(1,2) by (intro on_channel_Inr) simp
    then have "buffer_rest k rest e = Inr ?e4"
      using False e3(1) by (simp add: buffer_rest_def Let_def)
    moreover have "outputBytes ?e4 = outputBytes e @ rest"
      using e3(5) by (simp add: outputBytes_def)
    moreover have "conn_inv ?e4"
      using assms ch(2,3) e3 b calculation(2) by (auto simp: conn_inv_def buf_inv_append)
    ultimately show ?thesis using e3 assms(3) by simp
  qed
qed

lemma direct_write_ok:
  assumes "write_fits k" and "direct_write k data e = (n, fault, e')"
  shows "te_conn e' = te_conn e \<and> te_poller e' = te_poller e \<and> te_shutdown e' = te_shutdown e \<and>
    n \<le> length data \<and> te_sent e' = te_sent e @ take n data \<and>
    (fault \<longrightarrow> e' = e \<and> (kn_write k (te_sent e) data = Inl EPIPE \<or>
       kn_write k (te_sent e) data = Inl ECONNRESET))"
  using assms
  by (auto simp: direct_write_def queue_functor_def write_fits_def Let_def
      split: sum.splits if_splits)

lemma sendInLoop_ok:
  assumes "conn_inv e" and "tc_state (te_conn e) \<noteq> kDisconnected" and "\<not> te_shutdown e"
    and "ctl_honest (kn_ctl k)" and "write_fits k"
  shows "\<exists>e'. sendInLoop k data e = Inr e' \<and> conn_inv e' \<and>
    tc_state (te_conn e') = tc_state (te_conn e) \<and> \<not> te_shutdown e' \<and>
    (te_sent e' @ outputBytes e' = te_sent e @ outputBytes e @ data \<or>
     e' = e \<and> (kn_write k (te_sent e) data = Inl EPIPE \<or>
       kn_write k (te_sent e) data = Inl ECONNRESET))"
proof -
  have b: "buf_inv (tc_output (te_conn e))"
    and w: "isWriting (tc_channel (te_conn e)) \<longleftrightarrow> outputBytes e \<noteq> []"
    using assms(1,2) by (auto simp: conn_inv_def)
  show ?thesis
  proof (cases "outputBytes e = []")
    case False
    then have s: "sendInLoop k data e = (if data \<noteq> [] then buffer_rest k data e else Inr e)"
      using w by (simp add: sendInLoop_def)
    show ?thesis
    proof (cases "data = []")
      case True
      then show ?thesis using s assms by simp
    next
      case False
      from buffer_rest_ok [OF assms(1-4) False] s False show ?thesis by auto
    qed
  next
    case True
    obtain n fault e1 where d: "direct_write k data e = (n, fault, e1)"
      by (cases "direct_write k data e")
    have s: "sendInLoop k data e =
        (if \<not> fault \<and> n < length data then buffer_rest k (drop n data) e1 else Inr e1)"
      using True w b d by (simp add: sendInLoop_def readableBytes_0_iff outputBytes_def Let_def)
    note dw = direct_write_ok [OF assms(5) d]
    have inv1: "conn_inv e1" and st1: "tc_state (te_conn e1) = tc_state (te_conn e)"
      and sh1: "\<not> te_shutdown e1" and o1: "outputBytes e1 = []"
      using dw assms(1,3) True by (auto simp: conn_inv_def outputBytes_def)
    show ?thesis
    proof (cases "\<not> fault \<and> n < length data")
      case more: True
      have "drop n data \<noteq> []" using more by simp
      from buffer_rest_ok [OF inv1 _ sh1 assms(4) this] assms(2) st1
      obtain e' where e': "buffer_rest k (drop n data) e1 = Inr e'" "conn_inv e'"
        "tc_state (te_conn e') = tc_state (te_conn e)" "\<not> te_shutdown e'"
        "te_sent e' = te_sent e1" "outputBytes e' = drop n data"
        using o1 by auto
      then have "te_sent e' @ outputBytes e' = te_sent e @ outputBytes e @ data"
        using dw True by simp
      with e' s more show ?thesis by auto
    next
      case False
      then show ?thesis
        using s inv1 st1 sh1 o1 dw True by (cases fault) auto
    qed
  qed
qed

text \<open>The write handler moves bytes from the output buffer to the kernel.\<close>

definition half_closed :: "'c tcp_env \<Rightarrow> bool" where
  "half_closed e \<longleftrightarrow> tc_state (te_conn e) = kDisconnecting \<and> (te_shutdown e \<longleftrightarrow> outputBytes e = [])"

lemma shutdownInLoop_ok:
  assumes "conn_inv e" and "tc_state (te_conn e) = kDisconnecting"
  shows "conn_inv (shutdownInLoop e)" and "\<not> te_shutdown e \<Longrightarrow> half_closed (shutdownInLoop e)"
    and "te_conn (shutdownInLoop e) = te_conn e" and "te_sent (shutdownInLoop e) = te_sent e"
    and "outputBytes (shutdownInLoop e) = outputBytes e"
    and "isWriting (tc_channel (te_conn e)) \<longleftrightarrow> outputBytes e \<noteq> []"
  using assms by (auto simp: shutdownInLoop_def conn_inv_def half_closed_def outputBytes_def)

text \<open>After the last byte: interest off, callback queued, half-close if one is due.\<close>

lemma handleWrite_drained:
  assumes "conn_inv e" and "tc_state (te_conn e) \<noteq> kDisconnected" and "\<not> te_shutdown e"
    and "ctl_honest (kn_ctl k)"
    and e1: "e1 = set_output b (e\<lparr>te_sent := sent\<rparr>)" and "buf_inv b" and "peek_range b = []"
  shows "\<exists>e'. res_bind (on_channel (disableWriting (kn_ctl k)) e1)
        (\<lambda>e2. let e3 = (if tc_writeCompleteSet (te_conn e2)
                        then queue_functor FWriteComplete e2 else e2)
              in Inr (if tc_state (te_conn e3) = kDisconnecting then shutdownInLoop e3 else e3))
      = Inr e' \<and> conn_inv e' \<and> tc_state (te_conn e') = tc_state (te_conn e) \<and>
    te_sent e' = sent \<and> outputBytes e' = [] \<and>
    (te_shutdown e' \<longleftrightarrow> tc_state (te_conn e) = kDisconnecting)"
proof -
  have "chan_inv (tc_channel (te_conn e)) (te_poller e)"
    using assms(1) by (simp add: conn_inv_def)
  then obtain ch p where
    ch: "disableWriting (kn_ctl k) (tc_channel (te_conn e)) (te_poller e) = Inr (ch, p)"
    "chan_inv ch p" "\<not> isWriting ch"
    using wi.disable_ok [of "kn_ctl k"] assms(4) by blast
  let ?e2 = "e1\<lparr>te_conn := (te_conn e1)\<lparr>tc_channel := ch\<rparr>, te_poller := p\<rparr>"
  have on: "on_channel (disableWriting (kn_ctl k)) e1 = Inr ?e2"
    using ch(1) by (intro on_channel_Inr) (simp add: e1 set_output_def)
  have inv: "conn_inv ?e2"
    using assms ch by (simp add: conn_inv_def e1 set_output_def outputBytes_def)
  show ?thesis
    using on inv ch(2,3) assms
    by (auto simp: Let_def conn_inv_def shutdownInLoop_def env_defs)
qed

text \<open>What a write event does, by the outcome of \<open>write\<close>.\<close>

definition wrote :: "kernel \<Rightarrow> 'c tcp_env \<Rightarrow> 'c tcp_env \<Rightarrow> bool" where
  "wrote k e e' \<longleftrightarrow> conn_inv e' \<and>
    tc_state (te_conn e') = tc_state (te_conn e) \<and>
    te_sent e' @ outputBytes e' = te_sent e @ outputBytes e \<and>
    (tc_state (te_conn e) = kDisconnecting \<and> half_closed e \<longrightarrow> half_closed e') \<and>
    (tc_state (te_conn e) = kConnected \<longrightarrow> \<not> te_shutdown e') \<and>
    (\<forall>n. kn_write k (te_sent e) (outputBytes e) = Inr n \<longrightarrow> outputBytes e' = drop n (outputBytes e))"

lemma handleWrite_some:
  assumes "conn_inv e" and "tc_state (te_conn e) \<noteq> kDisconnected" and "ctl_honest (kn_ctl k)"
    and w: "isWriting (tc_channel (te_conn e))" and sh: "\<not> te_shutdown e" and b: "buf_inv (tc_output (te_conn e))"
    and Inr: "kn_write k (te_sent e) (outputBytes e) = Inr n" and n: "n \<le> length (outputBytes e)" and pos: "n \<noteq> 0"
  shows "\<exists>e'. handleWrite k e = Inr e' \<and> wrote k e e'"
proof -
  let ?b = "retrieve n (tc_output (te_conn e))"
  let ?e1 = "set_output ?b (e\<lparr>te_sent := te_sent e @ take n (outputBytes e)\<rparr>)"
  have b': "buf_inv ?b" and pb: "peek_range ?b = drop n (outputBytes e)"
    using b n by (simp_all add: inv_intros peek_range_retrieve outputBytes_def)
  have wf: "writeFd (kn_write k (te_sent e)) (tc_output (te_conn e)) = Inr n"
    using Inr by (simp add: writeFd_def outputBytes_def)
  show ?thesis
  proof (cases "drop n (outputBytes e) = []")
    case True
    obtain e' where e': "handleWrite k e = Inr e'" "conn_inv e'"
      "tc_state (te_conn e') = tc_state (te_conn e)"
      "te_sent e' = te_sent e @ take n (outputBytes e)" "outputBytes e' = []"
      "te_shutdown e' \<longleftrightarrow> tc_state (te_conn e) = kDisconnecting"
      using handleWrite_drained [OF assms(1,2) sh assms(3) refl b', of
          "te_sent e @ take n (outputBytes e)"] wf pos w True pb b'
      by (auto simp: handleWrite_def Let_def readableBytes_0_iff set_output_def)
    then show ?thesis using True n Inr by (auto simp: half_closed_def wrote_def)
  next
    case more: False
    have "handleWrite k e = Inr ?e1"
      using wf pos w more pb b' by (simp add: handleWrite_def Let_def readableBytes_0_iff set_output_def)
    moreover have "conn_inv ?e1"
      using assms(1) w sh more pb b' by (auto simp: conn_inv_def set_output_def outputBytes_def)
    ultimately show ?thesis
      using pb Inr sh more by (auto simp: half_closed_def set_output_def outputBytes_def wrote_def)
  qed
qed

lemma handleWrite_ok:
  assumes "conn_inv e" and "tc_state (te_conn e) \<noteq> kDisconnected"
    and "ctl_honest (kn_ctl k)" and "write_fits k"
  shows "\<exists>e'. handleWrite k e = Inr e' \<and> wrote k e e'"
proof (cases "outputBytes e = []")
  case True
  then have "\<not> isWriting (tc_channel (te_conn e))"
    using assms(1,2) by (auto simp: conn_inv_def)
  then show ?thesis
    using assms True by (auto simp: handleWrite_def conn_inv_def wrote_def)
next
  case False
  then have w: "isWriting (tc_channel (te_conn e))" and sh: "\<not> te_shutdown e"
    and b: "buf_inv (tc_output (te_conn e))"
    using assms(1,2) by (auto simp: conn_inv_def)
  show ?thesis
  proof (cases "kn_write k (te_sent e) (outputBytes e)")
    case (Inl err)
    then show ?thesis
      using w sh assms False by (simp add: handleWrite_def writeFd_def outputBytes_def wrote_def)
  next
    case (Inr n)
    then have "n \<le> length (outputBytes e)" using assms(4) by (auto simp: write_fits_def)
    then show ?thesis
      using Inr handleWrite_some [OF assms(1-3) w sh b Inr] w sh assms False
      by (cases "n = 0") (simp_all add: handleWrite_def writeFd_def outputBytes_def wrote_def)
  qed
qed

text \<open>One event, and a sequence of events, on a connection that is up.\<close>

definition conn_live :: "'c tcp_env \<Rightarrow> bool" where
  "conn_live e \<longleftrightarrow> conn_inv e \<and> (tc_state (te_conn e) = kConnected \<or> half_closed e)"

lemma conn_live_up: "conn_live e \<Longrightarrow> tc_state (te_conn e) \<noteq> kDisconnected"
  by (auto simp: conn_live_def half_closed_def)

lemma conn_exec_ok:
  assumes live: "conn_live e" and k: "ctl_honest (kn_ctl k)" "write_fits k" "write_no_reset k"
  shows "\<exists>e'. conn_exec k ev e = Inr e' \<and> conn_live e' \<and>
    (tc_state (te_conn e') = kConnected \<longleftrightarrow> tc_state (te_conn e) = kConnected \<and> ev \<noteq> EvShutdown) \<and>
    te_sent e' @ outputBytes e' = te_sent e @ outputBytes e @
      (if tc_state (te_conn e) = kConnected then accepted [ev] else [])"
proof (cases ev)
  case (EvSend data)
  show ?thesis
  proof (cases "tc_state (te_conn e) = kConnected")
    case True
    then have "conn_inv e" "tc_state (te_conn e) \<noteq> kDisconnected" "\<not> te_shutdown e"
      using live by (auto simp: conn_live_def conn_inv_def half_closed_def)
    from sendInLoop_ok [OF this k(1,2), of data] k(3) True EvSend show ?thesis
      by (auto simp: send_def conn_live_def write_no_reset_def)
  next
    case False
    then show ?thesis using live EvSend by (simp add: send_def)
  qed
next
  case EvShutdown
  show ?thesis
  proof (cases "tc_state (te_conn e) = kConnected")
    case True
    let ?e1 = "setState kDisconnecting e"
    have "conn_inv ?e1" "tc_state (te_conn ?e1) = kDisconnecting" "\<not> te_shutdown ?e1"
      using live True by (auto simp: conn_live_def conn_inv_def half_closed_def env_defs)
    note sh = shutdownInLoop_ok [OF this(1,2)] this
    show ?thesis
      using sh EvShutdown True by (auto simp: shutdown_def conn_live_def env_defs)
  next
    case False
    then show ?thesis using live EvShutdown by (simp add: shutdown_def)
  qed
next
  case EvWritable
  from handleWrite_ok [unfolded wrote_def, OF _ conn_live_up [OF live] k(1,2)] live EvWritable show ?thesis
    by (auto simp: conn_live_def half_closed_def)
qed

lemma conn_run_ok:
  assumes "conn_live e" and k: "ctl_honest (kn_ctl k)" "write_fits k" "write_no_reset k"
  shows "\<exists>e'. conn_run k evs e = Inr e' \<and> conn_live e' \<and>
    (tc_state (te_conn e') = kConnected \<longleftrightarrow>
       tc_state (te_conn e) = kConnected \<and> EvShutdown \<notin> set evs) \<and>
    te_sent e' @ outputBytes e' = te_sent e @ outputBytes e @
      (if tc_state (te_conn e) = kConnected then accepted evs else [])"
  using assms(1)
proof (induction evs arbitrary: e)
  case (Cons ev evs)
  from conn_exec_ok [OF Cons.prems k, of ev] obtain e1 where
    e1: "conn_exec k ev e = Inr e1" "conn_live e1"
    "tc_state (te_conn e1) = kConnected \<longleftrightarrow> tc_state (te_conn e) = kConnected \<and> ev \<noteq> EvShutdown"
    "te_sent e1 @ outputBytes e1 = te_sent e @ outputBytes e @
      (if tc_state (te_conn e) = kConnected then accepted [ev] else [])"
    by blast
  from Cons.IH [OF e1(2)] obtain e2 where
    e2: "conn_run k evs e1 = Inr e2" "conn_live e2"
    "tc_state (te_conn e2) = kConnected \<longleftrightarrow> tc_state (te_conn e1) = kConnected \<and> EvShutdown \<notin> set evs"
    "te_sent e2 @ outputBytes e2 = (te_sent e1 @ outputBytes e1) @
      (if tc_state (te_conn e1) = kConnected then accepted evs else [])"
    by auto
  have "accepted (ev # evs) = accepted [ev] @ (if ev = EvShutdown then [] else accepted evs)"
    by (cases ev) auto
  then show ?case using e1 e2 by auto
qed auto

lemma conn_run_drains:
  assumes "conn_live e" and k: "ctl_honest (kn_ctl k)" "write_fits k" "write_no_reset k"
    and progress: "\<forall>s d. d \<noteq> [] \<longrightarrow> (\<exists>n > 0. kn_write k s d = Inr n)"
    and "length (outputBytes e) \<le> m"
  shows "\<exists>e'. conn_run k (replicate m EvWritable) e = Inr e' \<and> conn_live e' \<and>
    tc_state (te_conn e') = tc_state (te_conn e) \<and> outputBytes e' = [] \<and>
    te_sent e' = te_sent e @ outputBytes e"
  using assms(1,6)
proof (induction m arbitrary: e)
  case (Suc m)
  from handleWrite_ok [unfolded wrote_def, OF _ conn_live_up [OF Suc.prems(1)] k(1,2)] Suc.prems(1) obtain e1 where
    e1: "handleWrite k e = Inr e1" "conn_inv e1" "tc_state (te_conn e1) = tc_state (te_conn e)"
    "te_sent e1 @ outputBytes e1 = te_sent e @ outputBytes e"
    "half_closed e \<longrightarrow> half_closed e1"
    "\<forall>n. kn_write k (te_sent e) (outputBytes e) = Inr n \<longrightarrow> outputBytes e1 = drop n (outputBytes e)"
    by (auto simp: conn_live_def half_closed_def)
  have live: "conn_live e1"
    using e1 Suc.prems(1) by (auto simp: conn_live_def)
  have "length (outputBytes e1) \<le> m"
  proof (cases "outputBytes e = []")
    case True
    then have "\<not> isWriting (tc_channel (te_conn e))"
      using Suc.prems(1) conn_live_up [OF Suc.prems(1)] by (auto simp: conn_live_def conn_inv_def)
    then show ?thesis using True e1(1) by (simp add: handleWrite_def)
  next
    case False
    then obtain n where "n > 0" "kn_write k (te_sent e) (outputBytes e) = Inr n"
      using progress by blast
    then show ?thesis using e1(6) Suc.prems(2) by auto
  qed
  from Suc.IH [OF live this] e1 show ?case by auto
qed simp

text \<open>Teardown. A callback is passive when it leaves the state and the channel alone.\<close>

definition same_channel :: "'c tcp_env \<Rightarrow> 'c tcp_env \<Rightarrow> bool" where
  "same_channel e e' \<longleftrightarrow> tc_state (te_conn e') = tc_state (te_conn e) \<and>
     tc_channel (te_conn e') = tc_channel (te_conn e) \<and> te_poller e' = te_poller e"

definition cb_passive :: "('c tcp_env \<Rightarrow> 'c tcp_env res) \<Rightarrow> bool" where
  "cb_passive cb \<longleftrightarrow> (\<forall>e. \<exists>e'. cb e = Inr e' \<and> same_channel e e')"

definition unregistered :: "channel \<Rightarrow> poller \<Rightarrow> bool" where
  "unregistered ch p \<longleftrightarrow> interest (po_calls p) (ch_fd ch) = None \<and> po_channels p (ch_fd ch) = None"

lemma disableAll_closes:
  assumes "conn_inv e" and "ctl_honest (kn_ctl k)"
  shows "\<exists>e1. on_channel (disableAll (kn_ctl k)) (setState kDisconnected e) = Inr e1 \<and>
    tc_state (te_conn e1) = kDisconnected \<and> chan_inv (tc_channel (te_conn e1)) (te_poller e1) \<and>
    ch_fd (tc_channel (te_conn e1)) = ch_fd (tc_channel (te_conn e))"
  using updateChannel_ok [of "kn_ctl k" "tc_channel (te_conn e)" "te_poller e" kNoneEvent] assms
  by (auto simp: conn_inv_def on_channel_def setState_def disableAll_def op_ok_def)

lemma remove_unregisters:
  assumes "chan_inv (tc_channel (te_conn e)) (te_poller e)" and "ctl_honest (kn_ctl k)"
  shows "\<exists>e'. on_channel (removeChannel (kn_ctl k)) e = Inr e' \<and>
    tc_state (te_conn e') = tc_state (te_conn e) \<and>
    (\<forall>ch. ch_fd ch = ch_fd (tc_channel (te_conn e)) \<longrightarrow> unregistered ch (te_poller e'))"
  using assms
  by (auto simp: on_channel_def removeChannel_def epoll_update_def Let_def chan_inv_def index_consts
      ctl_honest_def ctl_legal_def interest_snoc unregistered_def)

lemma enableWriting_registers:
  assumes "ctl_honest ctl" and "chan_inv ch p" and "unregistered ch p"
  shows "\<exists>ch' p'. enableWriting ctl ch p = Inr (ch', p') \<and>
    interest (po_calls p') (ch_fd ch) = Some (ch_events ch', ch_addr ch)"
  using assms
  by (auto simp: enableWriting_def updateChannel_def epoll_update_def Let_def chan_inv_def
      index_consts ctl_honest_def ctl_legal_def interest_snoc unregistered_def)

section \<open>Properties\<close>

text \<open>
  C11: a connection delivers its byte stream. For every sequence of sends, a half-close
  and write events, with a kernel that takes any part of the bytes each time and
  refuses at will with EWOULDBLOCK, the handlers never fail, and the bytes given to the
  kernel followed by the bytes waiting are exactly the bytes sent before the half-close,
  in order. Write events are requested exactly while bytes are waiting, and the write
  side is shut down exactly when it was asked for and nothing is waiting any more.
\<close>

theorem connection_delivers_stream:
  assumes "conn_inv e" and "tc_state (te_conn e) = kConnected"
    and "ctl_honest (kn_ctl k)" and "write_fits k" and "write_no_reset k"
  shows "\<exists>e'. conn_run k evs e = Inr e' \<and> conn_inv e' \<and>
    te_sent e' @ outputBytes e' = te_sent e @ outputBytes e @ accepted evs \<and>
    (isWriting (tc_channel (te_conn e')) \<longleftrightarrow> outputBytes e' \<noteq> []) \<and>
    (te_shutdown e' \<longleftrightarrow> EvShutdown \<in> set evs \<and> outputBytes e' = [])"
proof -
  have "conn_live e" using assms by (simp add: conn_live_def)
  from conn_run_ok [OF this assms(3-5), of evs] assms(2) obtain e' where
    e': "conn_run k evs e = Inr e'" "conn_live e'"
    "tc_state (te_conn e') = kConnected \<longleftrightarrow> EvShutdown \<notin> set evs"
    "te_sent e' @ outputBytes e' = te_sent e @ outputBytes e @ accepted evs"
    by auto
  then have "te_shutdown e' \<longleftrightarrow> EvShutdown \<in> set evs \<and> outputBytes e' = []"
    and "isWriting (tc_channel (te_conn e')) \<longleftrightarrow> outputBytes e' \<noteq> []"
    by (auto simp: conn_live_def half_closed_def conn_inv_def)
  with e' show ?thesis by (auto simp: conn_live_def)
qed

text \<open>A kernel that takes at most three bytes at a time, and none at the first byte.\<close>

definition slow_kernel :: kernel where
  "slow_kernel = \<lparr>kn_ctl = ctl_legal,
     kn_write = (\<lambda>s d. if s = [] then Inr (min 1 (length d)) else Inr (min 3 (length d)))\<rparr>"

definition established_env :: "unit tcp_env" where
  "established_env = \<lparr>te_conn = (TcpConnection_new 5 9)\<lparr>tc_state := kConnected,
       tc_channel := (Channel_new 5 9)\<lparr>ch_events := kReadEvent, ch_index := kAdded\<rparr>\<rparr>,
     te_poller = \<lparr>po_channels = [9 \<mapsto> 5], po_calls = [CtlCall EPOLL_CTL_ADD 9 kReadEvent 5],
       po_eventList = 16\<rparr>,
     te_queued = [], te_sent = [], te_shutdown = False\<rparr>"

lemma slow_kernel_ok:
  "ctl_honest (kn_ctl slow_kernel)" "write_fits slow_kernel" "write_no_reset slow_kernel"
  by (simp_all add: slow_kernel_def ctl_honest_def write_fits_def write_no_reset_def)

lemma established_env_ok:
  "conn_inv established_env" "tc_state (te_conn established_env) = kConnected"
  "outputBytes established_env = []" "te_sent established_env = []"
  by (simp_all add: conn_inv_def established_env_def TcpConnection_new_def outputBytes_def
      chan_inv_def Channel_new_def interest_def ctl_legal_def isWriting_def kReadEvent_def
      EPOLLIN_def EPOLLPRI_def kWriteEvent_def EPOLLOUT_def kAdded_def)

theorem connection_delivers_stream_witness:
  "\<exists>e'. conn_run slow_kernel [EvSend ''hello'', EvSend ''world'', EvWritable, EvShutdown,
        EvSend ''late'', EvWritable] established_env = Inr e' \<and> conn_inv e' \<and>
    te_sent e' @ outputBytes e' = ''helloworld'' \<and>
    (isWriting (tc_channel (te_conn e')) \<longleftrightarrow> outputBytes e' \<noteq> []) \<and>
    (te_shutdown e' \<longleftrightarrow> outputBytes e' = [])"
  using connection_delivers_stream [OF established_env_ok(1,2) slow_kernel_ok, of
      "[EvSend ''hello'', EvSend ''world'', EvWritable, EvShutdown, EvSend ''late'', EvWritable]"]
  by (simp add: established_env_ok(3,4))

definition waiting_env :: "unit tcp_env" where
  "waiting_env = established_env\<lparr>te_conn := (te_conn established_env)\<lparr>tc_state := kDisconnecting,
       tc_channel := (Channel_new 5 9)\<lparr>ch_events := kReadEvent OR kWriteEvent, ch_index := kAdded\<rparr>,
       tc_output := append ''abcde'' (Buffer_new kInitialSize)\<rparr>,
     te_poller := (te_poller established_env)\<lparr>po_calls :=
       [CtlCall EPOLL_CTL_ADD 9 (kReadEvent OR kWriteEvent) 5]\<rparr>\<rparr>"

lemma waiting_env_ok:
  "conn_live waiting_env" "outputBytes waiting_env = ''abcde''" "te_sent waiting_env = []"
  "tc_state (te_conn waiting_env) = kDisconnecting"
  by (simp_all add: conn_live_def half_closed_def conn_inv_def waiting_env_def established_env_def
      TcpConnection_new_def outputBytes_def peek_range_append buf_inv_append
      chan_inv_def Channel_new_def interest_def ctl_legal_def isWriting_def write_bit_set kAdded_def
      kWriteEvent_def EPOLLOUT_def)

lemma slow_kernel_progress: "\<forall>s d. d \<noteq> [] \<longrightarrow> (\<exists>n > 0. kn_write slow_kernel s d = Inr n)"
  by (auto simp: slow_kernel_def)

text \<open>
  The output is flushed. When every write of a non-empty range takes at least one
  byte, as many write events as there are bytes waiting empty the output buffer into
  the kernel, the channel stops asking for write events, and a half-close that was
  waiting for the output takes place.
\<close>

theorem output_is_flushed:
  assumes "conn_live e" and "ctl_honest (kn_ctl k)" and "write_fits k" and "write_no_reset k"
    and "\<forall>s d. d \<noteq> [] \<longrightarrow> (\<exists>n > 0. kn_write k s d = Inr n)"
  shows "\<exists>e'. conn_run k (replicate (length (outputBytes e)) EvWritable) e = Inr e' \<and>
    te_sent e' = te_sent e @ outputBytes e \<and> outputBytes e' = [] \<and>
    \<not> isWriting (tc_channel (te_conn e')) \<and>
    (te_shutdown e' \<longleftrightarrow> tc_state (te_conn e) = kDisconnecting)"
proof -
  from conn_run_drains [OF assms order.refl] obtain e' where
    e': "conn_run k (replicate (length (outputBytes e)) EvWritable) e = Inr e'" "conn_live e'"
    "tc_state (te_conn e') = tc_state (te_conn e)" "outputBytes e' = []"
    "te_sent e' = te_sent e @ outputBytes e"
    by blast
  then show ?thesis by (auto simp: conn_live_def half_closed_def conn_inv_def)
qed

theorem output_is_flushed_witness:
  "\<exists>e'. conn_run slow_kernel (replicate 5 EvWritable) waiting_env = Inr e' \<and>
    te_sent e' = ''abcde'' \<and> outputBytes e' = [] \<and>
    \<not> isWriting (tc_channel (te_conn e')) \<and> te_shutdown e'"
  using output_is_flushed [OF waiting_env_ok(1) slow_kernel_ok slow_kernel_progress]
  by (simp add: waiting_env_ok(2-4) numeral_eq_Suc)

text \<open>
  Teardown leaves nothing behind. When the peer closes a connection that is up,
  \<open>handleClose\<close> and then \<open>connectDestroyed\<close> end in the state \<open>kDisconnected\<close> with
  the descriptor unknown to epoll and to the poller's table, and \<open>connectDestroyed\<close>
  calls no callback a second time (its result is the same for any callbacks). When the
  server destroys a connection that is still connected, \<open>connectDestroyed\<close> alone has
  the same effect.
\<close>

theorem teardown_unregisters:
  assumes "conn_inv e" and "ctl_honest (kn_ctl k)"
    and "cb_passive (connectionCallback cbs)" and "cb_passive (connCloseCallback cbs)"
  shows "(\<exists>e1 e2. handleClose k cbs e = Inr e1 \<and> (\<forall>cbs'. connectDestroyed k cbs' e1 = Inr e2) \<and>
      tc_state (te_conn e2) = kDisconnected \<and>
      unregistered (tc_channel (te_conn e)) (te_poller e2)) \<and>
    (tc_state (te_conn e) = kConnected \<longrightarrow>
      (\<exists>e2. connectDestroyed k cbs e = Inr e2 \<and> tc_state (te_conn e2) = kDisconnected \<and>
        unregistered (tc_channel (te_conn e)) (te_poller e2)))"
proof -
  obtain e1 where e1: "on_channel (disableAll (kn_ctl k)) (setState kDisconnected e) = Inr e1"
    "tc_state (te_conn e1) = kDisconnected" "chan_inv (tc_channel (te_conn e1)) (te_poller e1)"
    "ch_fd (tc_channel (te_conn e1)) = ch_fd (tc_channel (te_conn e))"
    using disableAll_closes [OF assms(1,2)] by blast
  obtain e2 where e2: "connectionCallback cbs e1 = Inr e2" "same_channel e1 e2"
    using assms(3) unfolding cb_passive_def by blast
  obtain e3 where e3: "connCloseCallback cbs e2 = Inr e3" "same_channel e2 e3"
    using assms(4) unfolding cb_passive_def by blast
  have close: "handleClose k cbs e = Inr e3"
    using e1(1) e2(1) e3(1) by (simp add: handleClose_def)
  obtain e4 where e4: "on_channel (removeChannel (kn_ctl k)) e3 = Inr e4"
    "tc_state (te_conn e4) = kDisconnected" "unregistered (tc_channel (te_conn e)) (te_poller e4)"
    using remove_unregisters [of e3 k] e1 e2(2) e3(2) assms(2) by (auto simp: same_channel_def)
  have "connectDestroyed k cbs' e3 = Inr e4" for cbs'
    using e1(2) e2(2) e3(2) e4(1) by (simp add: connectDestroyed_def same_channel_def)
  moreover have "\<exists>e2. connectDestroyed k cbs e = Inr e2 \<and> tc_state (te_conn e2) = kDisconnected \<and>
      unregistered (tc_channel (te_conn e)) (te_poller e2)" if "tc_state (te_conn e) = kConnected"
    using remove_unregisters [of e2 k] e1 e2 assms(2) that
    by (auto simp: connectDestroyed_def same_channel_def)
  ultimately show ?thesis using close e4 by blast
qed

definition quiet_callbacks :: "unit conn_callbacks" where
  "quiet_callbacks = \<lparr>connectionCallback = Inr, messageCallback = (\<lambda>t. Inr),
     connCloseCallback = Inr\<rparr>"

theorem teardown_unregisters_witness:
  "(\<exists>e1 e2. handleClose slow_kernel quiet_callbacks established_env = Inr e1 \<and>
      (\<forall>cbs'. connectDestroyed slow_kernel cbs' e1 = Inr e2) \<and>
      tc_state (te_conn e2) = kDisconnected \<and>
      unregistered (tc_channel (te_conn established_env)) (te_poller e2)) \<and>
   (\<exists>e2. connectDestroyed slow_kernel quiet_callbacks established_env = Inr e2 \<and>
      tc_state (te_conn e2) = kDisconnected \<and>
      unregistered (tc_channel (te_conn established_env)) (te_poller e2))"
  using teardown_unregisters [OF established_env_ok(1) slow_kernel_ok(1), of quiet_callbacks]
    established_env_ok(2)
  by (simp add: cb_passive_def quiet_callbacks_def same_channel_def)

text \<open>
  \<open>sendInLoop\<close> does not give up on a closed connection. It logs that it gives up,
  but goes on: when the kernel takes none of the bytes now, they are buffered and the
  channel of the closed connection is registered with epoll again, even after
  \<open>connectDestroyed\<close> has removed it.
\<close>

theorem sendInLoop_revives_closed_channel:
  assumes "conn_inv e" and "tc_state (te_conn e) = kDisconnected"
    and "unregistered (tc_channel (te_conn e)) (te_poller e)"
    and "\<not> isWriting (tc_channel (te_conn e))" and "outputBytes e = []" and "data \<noteq> []"
    and "ctl_honest (kn_ctl k)" and "kn_write k (te_sent e) data = Inl EWOULDBLOCK"
  shows "\<exists>e' ev. sendInLoop k data e = Inr e' \<and> tc_state (te_conn e') = kDisconnected \<and>
    outputBytes e' = data \<and> interest (po_calls (te_poller e')) (ch_fd (tc_channel (te_conn e))) =
      Some (ev, ch_addr (tc_channel (te_conn e)))"
proof -
  let ?ch = "tc_channel (te_conn e)"
  have b: "buf_inv (tc_output (te_conn e))" and r: "readableBytes (tc_output (te_conn e)) = 0"
    using assms(1,5) by (simp_all add: conn_inv_def readableBytes_0_iff outputBytes_def)
  have s: "sendInLoop k data e = buffer_rest k data e"
    using assms r by (simp add: sendInLoop_def direct_write_def)
  obtain ch p where ch: "enableWriting (kn_ctl k) ?ch (te_poller e) = Inr (ch, p)"
    "interest (po_calls p) (ch_fd ?ch) = Some (ch_events ch, ch_addr ?ch)"
    using enableWriting_registers [OF assms(7), of ?ch "te_poller e"] assms(1,3)
    by (auto simp: conn_inv_def)
  show ?thesis
    using s ch b assms(2,4,5)
    by (auto simp: buffer_rest_def Let_def env_defs on_channel_def peek_range_append)
qed

definition full_kernel :: kernel where
  "full_kernel = \<lparr>kn_ctl = ctl_legal, kn_write = (\<lambda>s d. Inl EWOULDBLOCK)\<rparr>"

definition closed_env :: "unit tcp_env" where
  "closed_env = \<lparr>te_conn = (TcpConnection_new 5 9)\<lparr>tc_state := kDisconnected\<rparr>,
     te_poller = EPollPoller_new, te_queued = [], te_sent = [], te_shutdown = False\<rparr>"

theorem sendInLoop_revives_closed_channel_witness:
  "\<exists>e' ev. sendInLoop full_kernel ''x'' closed_env = Inr e' \<and>
    tc_state (te_conn e') = kDisconnected \<and> outputBytes e' = ''x'' \<and>
    interest (po_calls (te_poller e')) (ch_fd (tc_channel (te_conn closed_env))) =
      Some (ev, ch_addr (tc_channel (te_conn closed_env)))"
  by (rule sendInLoop_revives_closed_channel)
    (simp_all add: closed_env_def full_kernel_def conn_inv_def unregistered_def chan_inv_def
      TcpConnection_new_def Channel_new_def EPollPoller_new_def interest_def outputBytes_def
      isWriting_def kNoneEvent_def ctl_honest_def kNew_def hasChannel_def)

end
