(* ===== verification/Thread_Pool.thy ===== *)
theory Thread_Pool
  imports Prelude
begin

text \<open>
  Addresses (\<open>InetAddress\<close>), threads (\<open>Thread\<close>, \<open>EventLoopThread\<close>) and the pool of event
  loops (\<open>EventLoopThreadPool\<close>) that a server distributes its connections over:
  \<open>src/src/InetAddress.cpp\<close>, \<open>src/src/Thread.cpp\<close>, \<open>src/src/EventLoopThread.cpp\<close>,
  \<open>src/src/EventLoopThreadPool.cpp\<close> and their headers.

  An event loop is named by a number (its address). The start of an \<open>EventLoopThread\<close> is
  a transition system of the two threads that meet at its condition variable; a section
  under the mutex is one step, and the end of \<open>threadFunc\<close>, where the unlocked reads of the
  destructor may fall anywhere, is one step per effect.
\<close>

unbundle bit_operations_syntax

section \<open>Addresses\<close>

text \<open>\<open>sockaddr_in\<close>, its fields as the bytes in memory (network order).\<close>

record inet_address =
  sin_port :: "8 word \<times> 8 word"
  sin_addr :: "8 word \<times> 8 word \<times> 8 word \<times> 8 word"

definition htons :: "16 word \<Rightarrow> 8 word \<times> 8 word" where
  "htons port = (ucast (drop_bit 8 port), ucast port)"

definition ntohs :: "8 word \<times> 8 word \<Rightarrow> 16 word" where
  "ntohs b = push_bit 8 (ucast (fst b)) OR ucast (snd b)"

text \<open>\<open>inet_addr\<close> of the C library is a parameter.\<close>

definition InetAddress_new ::
    "(string \<Rightarrow> 8 word \<times> 8 word \<times> 8 word \<times> 8 word) \<Rightarrow> 16 word \<Rightarrow> string \<Rightarrow> inet_address" where
  "InetAddress_new inet_addr port ip = \<lparr>sin_port = htons port, sin_addr = inet_addr ip\<rparr>"

definition toIP :: "inet_address \<Rightarrow> string" where
  "toIP addr = (case sin_addr addr of (a, b, c, d) \<Rightarrow>
     dec (unat a) @ ''.'' @ dec (unat b) @ ''.'' @ dec (unat c) @ ''.'' @ dec (unat d))"

definition toPort :: "inet_address \<Rightarrow> 16 word" where
  "toPort addr = ntohs (sin_port addr)"

definition toIpPort :: "inet_address \<Rightarrow> string" where
  "toIpPort addr = toIP addr @ '':'' @ dec (unat (toPort addr))"

section \<open>Threads\<close>

record thread =
  th_started :: bool
  th_joined :: bool
  th_detached :: bool
  th_tid :: int
  th_name :: string

text \<open>The constructor with \<open>setDefaultName\<close>, on the counter \<open>numCreated_\<close>.\<close>

definition setDefaultName :: "int \<Rightarrow> thread \<Rightarrow> int \<times> thread" where
  "setDefaultName numCreated t =
     (numCreated + 1,
      if th_name t = [] then t\<lparr>th_name := take 31 (''Thread'' @ dec_int numCreated)\<rparr> else t)"

definition Thread_new :: "int \<Rightarrow> string \<Rightarrow> int \<times> thread" where
  "Thread_new numCreated name =
     setDefaultName numCreated \<lparr>th_started = False, th_joined = False, th_detached = False,
       th_tid = 0, th_name = name\<rparr>"

text \<open>\<open>start\<close> returns after the new thread has stored its id.\<close>

definition Thread_start :: "int \<Rightarrow> thread \<Rightarrow> thread" where
  "Thread_start tid t = t\<lparr>th_started := True, th_tid := tid\<rparr>"

definition Thread_join :: "thread \<Rightarrow> thread" where
  "Thread_join t = t\<lparr>th_joined := True\<rparr>"

definition Thread_dtor :: "thread \<Rightarrow> thread" where
  "Thread_dtor t = (if th_started t \<and> \<not> th_joined t then t\<lparr>th_detached := True\<rparr> else t)"

section \<open>The start of a loop thread\<close>

text \<open>
  Where the starting thread and the loop's thread are. The wait on the condition
  variable releases the mutex; a notification, or a spurious wakeup, leads back to the
  test of \<open>loop_\<close>.
\<close>

datatype starter_pc = SEntry | STest | SWait | SReturned "nat option"

text \<open>
  The worker: not started, before the publication of the loop, in \<open>loop()\<close>, and then the
  end of \<open>threadFunc\<close> step by step: \<open>loop_\<close> is cleared and the mutex held, the mutex is
  released and the \<open>EventLoop\<close> still there, the \<open>EventLoop\<close> is destroyed, the function is
  over. \<open>worker_left\<close>: it has cleared \<open>loop_\<close>.
\<close>

datatype worker_pc = WNotStarted | WInit | WLooping | WCleared | WUnlocked | WDestroyed | WFinished

definition worker_left :: "worker_pc \<Rightarrow> bool" where
  "worker_left w \<longleftrightarrow> w = WCleared \<or> w = WUnlocked \<or> w = WDestroyed \<or> w = WFinished"

record elt_state =
  es_loop :: "nat option"
  es_starter :: starter_pc
  es_worker :: worker_pc
  es_callback_done :: bool

definition EventLoopThread_new :: elt_state where
  "EventLoopThread_new = \<lparr>es_loop = None, es_starter = SEntry, es_worker = WNotStarted,
     es_callback_done = False\<rparr>"

text \<open>
  \<open>loop\<close> is the address of the \<open>EventLoop\<close> on the worker's stack. The loop is left only
  through the pointer that \<open>startLoop\<close> hands out: neither the callback nor a functor that
  it queues calls \<open>quit\<close>, so the worker leaves after \<open>startLoop\<close> has returned.
\<close>

inductive elt_step :: "nat \<Rightarrow> elt_state \<Rightarrow> elt_state \<Rightarrow> bool" for loop :: nat where
  thread_start:
    "es_starter s = SEntry \<Longrightarrow> elt_step loop s (s\<lparr>es_starter := STest, es_worker := WInit\<rparr>)"
| test_null:
    "es_starter s = STest \<Longrightarrow> es_loop s = None \<Longrightarrow> elt_step loop s (s\<lparr>es_starter := SWait\<rparr>)"
| test_set:
    "es_starter s = STest \<Longrightarrow> es_loop s = Some l \<Longrightarrow>
       elt_step loop s (s\<lparr>es_starter := SReturned (Some l)\<rparr>)"
| spurious:
    "es_starter s = SWait \<Longrightarrow> elt_step loop s (s\<lparr>es_starter := STest\<rparr>)"
| run_callback:
    "es_worker s = WInit \<Longrightarrow> \<not> es_callback_done s \<Longrightarrow> elt_step loop s (s\<lparr>es_callback_done := True\<rparr>)"
| publish:
    "es_worker s = WInit \<Longrightarrow> es_callback_done s \<Longrightarrow>
       elt_step loop s (s\<lparr>es_loop := Some loop, es_worker := WLooping,
         es_starter := (if es_starter s = SWait then STest else es_starter s)\<rparr>)"
| leave:
    "es_worker s = WLooping \<Longrightarrow> es_starter s = SReturned r \<Longrightarrow>
       elt_step loop s (s\<lparr>es_loop := None, es_worker := WCleared\<rparr>)"
| unlock:
    "es_worker s = WCleared \<Longrightarrow> elt_step loop s (s\<lparr>es_worker := WUnlocked\<rparr>)"
| destroy_loop:
    "es_worker s = WUnlocked \<Longrightarrow> elt_step loop s (s\<lparr>es_worker := WDestroyed\<rparr>)"
| thread_end:
    "es_worker s = WDestroyed \<Longrightarrow> elt_step loop s (s\<lparr>es_worker := WFinished\<rparr>)"

inductive_cases elt_stepE: "elt_step loop s t"

definition elt_init :: "elt_state \<Rightarrow> bool" where
  "elt_init s \<longleftrightarrow> s = EventLoopThread_new"

section \<open>The pool of loops\<close>

record thread_pool =
  tp_baseLoop :: nat
  tp_started :: bool
  tp_name :: string
  tp_numThreads :: int
  tp_next :: int
  tp_threads :: "string list"
  tp_loops :: "nat list"

definition EventLoopThreadPool_new :: "nat \<Rightarrow> string \<Rightarrow> thread_pool" where
  "EventLoopThreadPool_new baseloop name = \<lparr>tp_baseLoop = baseloop, tp_started = False,
     tp_name = name, tp_numThreads = 0, tp_next = 0, tp_threads = [], tp_loops = []\<rparr>"

definition pool_setThreadNum :: "int \<Rightarrow> thread_pool \<Rightarrow> thread_pool" where
  "pool_setThreadNum n p = p\<lparr>tp_numThreads := n\<rparr>"

text \<open>
  \<open>startLoop i\<close> is the loop of the \<open>i\<close>-th thread. The second result tells whether the
  callback is run on the base loop. A name buffer has 32 bytes more than the pool's name.
\<close>

definition thread_name :: "string \<Rightarrow> int \<Rightarrow> string" where
  "thread_name name i = take (length name + 31) (name @ dec_int i)"

function pool_start_loop :: "(int \<Rightarrow> nat) \<Rightarrow> int \<Rightarrow> thread_pool \<Rightarrow> thread_pool" where
  "pool_start_loop startLoop i p =
     (if i < tp_numThreads p
      then pool_start_loop startLoop (i + 1)
             (p\<lparr>tp_threads := tp_threads p @ [thread_name (tp_name p) i],
                tp_loops := tp_loops p @ [startLoop i]\<rparr>)
      else p)"
  by pat_completeness auto

termination
  by (relation "measure (\<lambda>(f, i, p). nat (tp_numThreads p - i))") auto

declare pool_start_loop.simps [simp del]

definition pool_start :: "(int \<Rightarrow> nat) \<Rightarrow> bool \<Rightarrow> thread_pool \<Rightarrow> thread_pool \<times> bool" where
  "pool_start startLoop cb p =
     (let p' = pool_start_loop startLoop 0 (p\<lparr>tp_started := True\<rparr>)
      in (p', tp_numThreads p' = 0 \<and> cb))"

definition getNextLoop :: "thread_pool \<Rightarrow> (nat \<times> thread_pool) res" where
  "getNextLoop p =
     (if tp_loops p \<noteq> [] then
        (if 0 \<le> tp_next p \<and> nat (tp_next p) < length (tp_loops p) then
           (let loop = tp_loops p ! nat (tp_next p); n = tp_next p + 1
            in Inr (loop, p\<lparr>tp_next := (if n \<ge> int (length (tp_loops p)) then 0 else n)\<rparr>))
         else Inl OutOfBounds)
      else Inr (tp_baseLoop p, p))"

definition getAllLoops :: "thread_pool \<Rightarrow> nat list" where
  "getAllLoops p = (if tp_loops p = [] then [tp_baseLoop p] else tp_loops p)"

text \<open>A number of successive calls.\<close>

fun getNextLoops :: "nat \<Rightarrow> thread_pool \<Rightarrow> (nat list \<times> thread_pool) res" where
  "getNextLoops 0 p = Inr ([], p)"
| "getNextLoops (Suc m) p =
     res_bind (getNextLoop p) (\<lambda>(l, p'). res_bind (getNextLoops m p') (\<lambda>(ls, p''). Inr (l # ls, p'')))"

section \<open>Lemmas\<close>

lemma ntohs_htons [simp]: "ntohs (htons port) = port"
  unfolding ntohs_def htons_def
  by (rule bit_word_eqI) (auto simp: bit_simps)

lemma length_dec_byte: "length (dec (unat (b :: 8 word))) \<le> 3"
  using length_dec_le [of "unat b" 2] unsigned_less [of b, where ?'a = nat] by simp

lemma length_dec_port: "length (dec (unat (p :: 16 word))) \<le> 5"
  using length_dec_le [of "unat p" 4] unsigned_less [of p, where ?'a = nat] by simp

lemma length_toIP: "length (toIP addr) \<le> 15"
proof -
  obtain a b c d where "sin_addr addr = (a, b, c, d)" by (cases "sin_addr addr")
  then show ?thesis
    using length_dec_byte [of a] length_dec_byte [of b] length_dec_byte [of c] length_dec_byte [of d]
    by (simp add: toIP_def)
qed

lemma length_toIpPort: "length (toIpPort addr) \<le> 21"
  using length_toIP [of addr] length_dec_port [of "toPort addr"] by (simp add: toIpPort_def)

text \<open>The meeting of the two threads.\<close>

lemma worker_left_simps [simp]:
  "\<not> worker_left WNotStarted" "\<not> worker_left WInit" "\<not> worker_left WLooping" "worker_left WCleared"
  "worker_left WUnlocked" "worker_left WDestroyed" "worker_left WFinished"
  by (simp_all add: worker_left_def)

definition elt_inv :: "nat \<Rightarrow> elt_state \<Rightarrow> bool" where
  "elt_inv loop s \<longleftrightarrow>
     (case es_starter s of
        SEntry \<Rightarrow> es_worker s = WNotStarted \<and> es_loop s = None \<and> \<not> es_callback_done s
      | STest \<Rightarrow> es_worker s = WInit \<and> es_loop s = None \<or>
                 es_worker s = WLooping \<and> es_loop s = Some loop \<and> es_callback_done s
      | SWait \<Rightarrow> es_worker s = WInit \<and> es_loop s = None
      | SReturned r \<Rightarrow> r = Some loop \<and> es_callback_done s \<and>
          (es_worker s = WLooping \<and> es_loop s = Some loop \<or> worker_left (es_worker s) \<and> es_loop s = None))"

interpretation elt: inductive_invariant elt_init "elt_step loop" "elt_inv loop" for loop
proof
  show "elt_init s \<Longrightarrow> elt_inv loop s" for s
    by (simp add: elt_init_def EventLoopThread_new_def elt_inv_def)
  show "elt_inv loop t" if "elt_inv loop s" "elt_step loop s t" for s t
    using that(2,1) by cases (auto simp: elt_inv_def worker_left_def split: starter_pc.splits)
qed

definition can_return :: "nat \<Rightarrow> elt_state \<Rightarrow> bool" where
  "can_return loop s \<longleftrightarrow> (\<exists>t. (elt_step loop)\<^sup>*\<^sup>* s t \<and> es_starter t = SReturned (Some loop))"

lemma can_return_step: "elt_step loop s u \<Longrightarrow> can_return loop u \<Longrightarrow> can_return loop s"
  unfolding can_return_def by (blast intro: converse_rtranclp_into_rtranclp)

lemma can_return_tested:
  "es_starter s = STest \<Longrightarrow> es_loop s = Some loop \<Longrightarrow> can_return loop s"
  by (rule can_return_step, erule (1) test_set) (auto simp: can_return_def)

lemma can_return_init:
  assumes "es_starter s = STest \<or> es_starter s = SWait" and "es_worker s = WInit"
  shows "can_return loop s"
proof -
  have published: "can_return loop u"
    if "es_starter u = STest \<or> es_starter u = SWait" "es_worker u = WInit" "es_callback_done u" for u
    by (rule can_return_step [OF publish [OF that(2,3)]], rule can_return_tested) (use that(1) in auto)
  show ?thesis
  proof (cases "es_callback_done s")
    case True
    with assms show ?thesis by (rule published)
  next
    case False
    show ?thesis
      by (rule can_return_step [OF run_callback [OF assms(2) False]], rule published) (use assms in auto)
  qed
qed

lemma elt_can_return:
  assumes "elt_inv loop s"
  shows "can_return loop s"
proof (cases "es_starter s")
  case SEntry
  show ?thesis
    by (rule can_return_step [OF thread_start [OF SEntry]], rule can_return_init) auto
next
  case (SReturned r)
  then show ?thesis using assms by (auto simp: elt_inv_def can_return_def)
qed (use assms can_return_tested can_return_init in \<open>auto simp: elt_inv_def\<close>)

text \<open>The pool.\<close>

lemma length_dec_int: "\<bar>i\<bar> \<le> 2 ^ 31 \<Longrightarrow> length (dec_int i) \<le> 11"
  using length_dec_le [of "nat \<bar>i\<bar>" 9] by (auto simp: dec_int_def nat_less_iff)

lemma thread_name_fits: "\<bar>i\<bar> \<le> 2 ^ 31 \<Longrightarrow> thread_name name i = name @ dec_int i"
  using length_dec_int [of i] by (simp add: thread_name_def)

definition pool_inv :: "thread_pool \<Rightarrow> bool" where
  "pool_inv p \<longleftrightarrow> 0 \<le> tp_next p \<and> nat (tp_next p) < length (getAllLoops p)"

lemma pool_start_loop_eq:
  "0 \<le> i \<Longrightarrow> i \<le> tp_numThreads p \<Longrightarrow> pool_start_loop f i p =
     p\<lparr>tp_threads := tp_threads p @ map (thread_name (tp_name p)) [i..tp_numThreads p - 1],
       tp_loops := tp_loops p @ map f [i..tp_numThreads p - 1]\<rparr>"
proof (induction f i p rule: pool_start_loop.induct)
  case (1 f i p)
  show ?case
  proof (cases "i < tp_numThreads p")
    case True
    then show ?thesis
      using 1 by (subst pool_start_loop.simps) (simp add: upto_rec1)
  next
    case False
    then show ?thesis using 1 by (subst pool_start_loop.simps) simp
  qed
qed

lemma pool_started:
  assumes "0 \<le> n" and "n < 2 ^ 31"
  shows "fst (pool_start f cb (pool_setThreadNum n (EventLoopThreadPool_new base name))) =
    (EventLoopThreadPool_new base name)\<lparr>tp_started := True, tp_numThreads := n,
      tp_threads := map (\<lambda>i. name @ dec_int i) [0..n - 1], tp_loops := map f [0..n - 1]\<rparr>"
proof -
  have "map (thread_name name) [0..n - 1] = map (\<lambda>i. name @ dec_int i) [0..n - 1]"
    using assms(2) by (auto intro!: thread_name_fits)
  then show ?thesis
    using assms(1)
    by (simp add: pool_start_def Let_def pool_setThreadNum_def EventLoopThreadPool_new_def pool_start_loop_eq)
qed

lemma getNextLoop_ok:
  assumes "pool_inv p"
  shows "\<exists>p'. getNextLoop p = Inr (getAllLoops p ! nat (tp_next p), p') \<and> pool_inv p' \<and>
    getAllLoops p' = getAllLoops p \<and>
    nat (tp_next p') = Suc (nat (tp_next p)) mod length (getAllLoops p) \<and>
    tp_baseLoop p' = tp_baseLoop p"
proof (cases "tp_loops p = []")
  case True
  then show ?thesis using assms by (simp add: getNextLoop_def getAllLoops_def pool_inv_def)
next
  case False
  then have n: "0 \<le> tp_next p" "nat (tp_next p) < length (tp_loops p)"
    using assms by (simp_all add: pool_inv_def getAllLoops_def)
  then have s: "nat (tp_next p + 1) = Suc (nat (tp_next p))" by simp
  show ?thesis
  proof (cases "tp_next p + 1 \<ge> int (length (tp_loops p))")
    case True
    then have "Suc (nat (tp_next p)) = length (tp_loops p)" using n by linarith
    then show ?thesis
      using False n True by (simp add: getNextLoop_def getAllLoops_def pool_inv_def Let_def)
  next
    case more: False
    then have "Suc (nat (tp_next p)) < length (tp_loops p)" using n by linarith
    then show ?thesis
      using False n more s by (simp add: getNextLoop_def getAllLoops_def pool_inv_def Let_def)
  qed
qed

lemma getNextLoops_ok:
  "pool_inv p \<Longrightarrow> \<exists>p'. getNextLoops m p =
     Inr (map (\<lambda>i. getAllLoops p ! ((nat (tp_next p) + i) mod length (getAllLoops p))) [0..<m], p') \<and>
     pool_inv p' \<and> getAllLoops p' = getAllLoops p"
proof (induction m arbitrary: p)
  case (Suc m)
  from getNextLoop_ok [OF Suc.prems] obtain p1 where
    p1: "getNextLoop p = Inr (getAllLoops p ! nat (tp_next p), p1)" "pool_inv p1"
    "getAllLoops p1 = getAllLoops p"
    "nat (tp_next p1) = Suc (nat (tp_next p)) mod length (getAllLoops p)"
    by blast
  from Suc.IH [OF p1(2)] obtain p2 where
    p2: "getNextLoops m p1 = Inr (map (\<lambda>i. getAllLoops p !
           ((Suc (nat (tp_next p)) mod length (getAllLoops p) + i) mod length (getAllLoops p))) [0..<m], p2)"
      "pool_inv p2" "getAllLoops p2 = getAllLoops p"
    using p1(3,4) by auto
  have "nat (tp_next p) mod length (getAllLoops p) = nat (tp_next p)"
    using Suc.prems by (simp add: pool_inv_def)
  then have "[0..<Suc m] = 0 # map Suc [0..<m]" and
    "getAllLoops p ! nat (tp_next p) = getAllLoops p ! ((nat (tp_next p) + 0) mod length (getAllLoops p))"
    by (simp_all add: upt_conv_Cons map_Suc_upt)
  then show ?case
    using p1(1) p2 by (simp add: mod_add_left_eq comp_def)
qed simp

section \<open>Properties\<close>

text \<open>
  C29: connections are distributed round-robin. The \<open>k\<close>-th of any number of calls of
  \<open>getNextLoop\<close> after \<open>start\<close> returns the loop with index \<open>k\<close> modulo the number of
  loops (the base loop alone when the pool has no thread), and never reads outside the
  vector; the pool has one thread and one loop per requested thread, named after the
  pool and the number without truncation.
\<close>

theorem getNextLoop_round_robin:
  assumes "0 \<le> n" and "n < 2 ^ 31"
    and start: "pool_start startLoop cb (pool_setThreadNum n (EventLoopThreadPool_new base name)) =
      (p, cb_ran)"
  shows "(\<exists>p'. getNextLoops m p =
      Inr (map (\<lambda>k. getAllLoops p ! (k mod length (getAllLoops p))) [0..<m], p')) \<and>
    getAllLoops p = (if n = 0 then [base] else map startLoop [0..n - 1]) \<and>
    tp_threads p = map (\<lambda>i. name @ dec_int i) [0..n - 1] \<and> (cb_ran \<longleftrightarrow> n = 0 \<and> cb)"
proof -
  have p: "p = (EventLoopThreadPool_new base name)\<lparr>tp_started := True, tp_numThreads := n,
      tp_threads := map (\<lambda>i. name @ dec_int i) [0..n - 1], tp_loops := map startLoop [0..n - 1]\<rparr>"
    using pool_started [OF assms(1,2), of startLoop cb base name] start by simp
  have r: "cb_ran \<longleftrightarrow> n = 0 \<and> cb"
    using start p by (auto simp: pool_start_def Let_def EventLoopThreadPool_new_def)
  have "pool_inv p" and "tp_next p = 0"
    by (simp_all add: pool_inv_def p getAllLoops_def EventLoopThreadPool_new_def)
  moreover have "[0..n - 1] = [] \<longleftrightarrow> n = 0" using assms(1) by auto
  ultimately show ?thesis
    using getNextLoops_ok [of p m] r
    by (auto simp: p getAllLoops_def EventLoopThreadPool_new_def)
qed

theorem getNextLoop_round_robin_witness:
  "(\<exists>p'. getNextLoops 5 (fst (pool_start nat True
        (pool_setThreadNum 3 (EventLoopThreadPool_new 7 ''srv'')))) = Inr ([0, 1, 2, 0, 1], p'))"
proof -
  obtain p r where
    p: "pool_start nat True (pool_setThreadNum 3 (EventLoopThreadPool_new 7 ''srv'')) = (p, r)"
    by fastforce
  then have all: "getAllLoops p = [0, 1, 2]" and run: "(\<exists>p'. getNextLoops 5 p =
      Inr (map (\<lambda>k. getAllLoops p ! (k mod length (getAllLoops p))) [0..<5], p'))"
    using getNextLoop_round_robin [OF _ _ p, of 5] by (auto simp: upto_rec1)
  have "map (\<lambda>k. getAllLoops p ! (k mod length (getAllLoops p))) [0..<5] = [0, 1, 2, 0, 1]"
    by (simp add: all upt_rec)
  with run p show ?thesis by simp
qed

text \<open>
  C30: \<open>startLoop\<close> hands out a running loop. In every interleaving of the two threads,
  spurious wakeups included, with a loop that is asked to quit only through the pointer
  that is handed out, when \<open>startLoop\<close> returns it returns the new thread's loop,
  never null, and the thread's callback has run; and it can always go on to return:
  no notification is lost, since a starter that waits has a worker that has not yet
  published its loop.
\<close>

theorem startLoop_returns_loop:
  assumes "reach elt_init (elt_step loop) s"
  shows "(\<forall>r. es_starter s = SReturned r \<longrightarrow> r = Some loop \<and> es_callback_done s) \<and>
    (es_starter s = SWait \<longrightarrow> es_worker s = WInit) \<and>
    (\<exists>t. (elt_step loop)\<^sup>*\<^sup>* s t \<and> es_starter t = SReturned (Some loop))"
  using elt.reach_inv [OF assms] elt_can_return [of loop s]
  by (auto simp: elt_inv_def can_return_def)

theorem startLoop_returns_loop_witness:
  "\<exists>t. (elt_step 4)\<^sup>*\<^sup>* EventLoopThread_new t \<and> es_starter t = SReturned (Some 4)"
proof -
  have "reach elt_init (elt_step 4) EventLoopThread_new"
    by (rule reach_init) (simp add: elt_init_def)
  then show ?thesis using startLoop_returns_loop [of 4 EventLoopThread_new] by blast
qed

text \<open>
  The text of an address fits the code's buffer of 64 bytes, and the port survives
  the conversion to network order and back.
\<close>

theorem toIpPort_fits:
  "length (toIpPort addr) + 1 \<le> 64 \<and> toPort (InetAddress_new inet_addr port ip) = port"
  using length_toIpPort [of addr] by (simp add: toPort_def InetAddress_new_def)

end
