(* ===== verification/Tcp_Server.thy ===== *)
theory Tcp_Server
  imports Tcp_Connection Thread_Pool
begin

text \<open>
  The classes \<open>TcpServer\<close> and \<open>Acceptor\<close> (\<open>src/src/TcpServer.cpp\<close>, \<open>src/src/Acceptor.cpp\<close>
  and their headers): accepting, naming and distributing connections, and the hand-over
  between the base loop and the loop of a connection when it is closed.

  The world holds the server, the connection objects by address, one poller and one
  queue of functors per loop. A thread runs one loop, so a thread is named by its loop
  and \<open>runInLoop\<close> compares the two. Connection objects are shared pointers: an object is
  freed when the connection map and the queued functors hold it no more, and using a
  freed object is the error \<open>BadPointer\<close>.
\<close>

section \<open>Data and operations\<close>

subsection \<open>Acceptor\<close>

record acceptor =
  ac_listenning :: bool
  ac_channel :: channel
  ac_reuseAddr :: bool
  ac_reusePort :: bool

text \<open>The constructor, on the address of the channel and the new socket.\<close>

definition Acceptor_new :: "nat \<Rightarrow> int \<Rightarrow> bool \<Rightarrow> acceptor" where
  "Acceptor_new a sockfd reuseport = \<lparr>ac_listenning = False, ac_channel = Channel_new a sockfd,
     ac_reuseAddr = True, ac_reusePort = True\<rparr>"

definition Acceptor_listen :: "ctl_fn \<Rightarrow> acceptor \<Rightarrow> poller \<Rightarrow> (acceptor \<times> poller) res" where
  "Acceptor_listen ctl ac p =
     res_bind (enableReading ctl (ac_channel ac) p)
       (\<lambda>(ch, p'). Inr (ac\<lparr>ac_listenning := True, ac_channel := ch\<rparr>, p'))"

definition Acceptor_dtor :: "ctl_fn \<Rightarrow> acceptor \<Rightarrow> poller \<Rightarrow> (acceptor \<times> poller) res" where
  "Acceptor_dtor ctl ac p =
     res_bind (disableAll ctl (ac_channel ac) p)
       (\<lambda>(ch, p'). res_bind (removeChannel ctl ch p')
          (\<lambda>(ch', p''). Inr (ac\<lparr>ac_channel := ch'\<rparr>, p'')))"

subsection \<open>Server and world\<close>

datatype server_functor =
    ConnectEstablished nat
  | ConnectDestroyed nat
  | RemoveConnectionInLoop nat
  | AcceptorListen
  | ConnFunctor nat conn_functor

record tcp_server =
  ts_loop :: nat
  ts_ipPort :: string
  ts_name :: string
  ts_acceptor :: acceptor
  ts_pool :: thread_pool
  ts_writeCompleteSet :: bool
  ts_started :: int
  ts_nextConnId :: int
  ts_connections :: "string \<rightharpoonup> nat"

record 'c conn_obj =
  co_name :: string
  co_loop :: nat
  co_conn :: "'c tcp_conn"
  co_sent :: string
  co_shutdown :: bool

record 'c world =
  w_server :: tcp_server
  w_heap :: "nat \<rightharpoonup> 'c conn_obj"
  w_alloc :: nat
  w_pollers :: "nat \<Rightarrow> poller"
  w_queues :: "nat \<Rightarrow> server_functor list"

definition TcpServer_new ::
    "nat \<Rightarrow> nat \<Rightarrow> int \<Rightarrow> inet_address \<Rightarrow> string \<Rightarrow> bool \<Rightarrow> tcp_server" where
  "TcpServer_new loop a sockfd listenAddr nameArg kReusePort = \<lparr>ts_loop = loop,
     ts_ipPort = toIpPort listenAddr, ts_name = nameArg,
     ts_acceptor = Acceptor_new a sockfd kReusePort,
     ts_pool = EventLoopThreadPool_new loop nameArg, ts_writeCompleteSet = False,
     ts_started = 0, ts_nextConnId = 1, ts_connections = Map.empty\<rparr>"

definition setThreadNum :: "int \<Rightarrow> tcp_server \<Rightarrow> tcp_server" where
  "setThreadNum numThreads s = s\<lparr>ts_pool := pool_setThreadNum numThreads (ts_pool s)\<rparr>"

definition setWriteCompleteCallback :: "tcp_server \<Rightarrow> tcp_server" where
  "setWriteCompleteCallback s = s\<lparr>ts_writeCompleteSet := True\<rparr>"

definition set_server :: "(tcp_server \<Rightarrow> tcp_server) \<Rightarrow> 'c world \<Rightarrow> 'c world" where
  "set_server f w = w\<lparr>w_server := f (w_server w)\<rparr>"

definition post :: "nat \<Rightarrow> server_functor \<Rightarrow> 'c world \<Rightarrow> 'c world" where
  "post l f w = w\<lparr>w_queues := (w_queues w)(l := w_queues w l @ [f])\<rparr>"

text \<open>A handler of a connection, run on the object and the poller of its loop.\<close>

definition conn_env :: "'c conn_obj \<Rightarrow> 'c world \<Rightarrow> 'c tcp_env" where
  "conn_env co w = \<lparr>te_conn = co_conn co, te_poller = w_pollers w (co_loop co), te_queued = [],
     te_sent = co_sent co, te_shutdown = co_shutdown co\<rparr>"

definition store_env :: "nat \<Rightarrow> 'c conn_obj \<Rightarrow> 'c tcp_env \<Rightarrow> 'c world \<Rightarrow> 'c world" where
  "store_env cid co e w =
     w\<lparr>w_heap := (w_heap w)(cid \<mapsto> co\<lparr>co_conn := te_conn e, co_sent := te_sent e,
          co_shutdown := te_shutdown e\<rparr>),
       w_pollers := (w_pollers w)(co_loop co := te_poller e),
       w_queues := (w_queues w)(co_loop co :=
          w_queues w (co_loop co) @ map (ConnFunctor cid) (te_queued e))\<rparr>"

definition on_conn ::
    "('c tcp_env \<Rightarrow> 'c tcp_env res) \<Rightarrow> nat \<Rightarrow> 'c world \<Rightarrow> 'c world res" where
  "on_conn f cid w =
     (case w_heap w cid of
        None \<Rightarrow> Inl BadPointer
      | Some co \<Rightarrow> res_bind (f (conn_env co w)) (\<lambda>e. Inr (store_env cid co e w)))"

text \<open>The name of a connection: \<open>snprintf\<close> into 64 bytes, after the name of the server.\<close>

definition connName :: "tcp_server \<Rightarrow> int \<Rightarrow> string" where
  "connName s i = ts_name s @ take 63 (''-'' @ ts_ipPort s @ ''#'' @ dec_int i)"

definition run_connectEstablished ::
    "kernel \<Rightarrow> 'c conn_callbacks \<Rightarrow> nat \<Rightarrow> 'c world \<Rightarrow> 'c world res" where
  "run_connectEstablished k cbs = on_conn (connectEstablished k cbs)"

definition newConnection ::
    "kernel \<Rightarrow> 'c conn_callbacks \<Rightarrow> int \<Rightarrow> 'c world \<Rightarrow> 'c world res" where
  "newConnection k cbs sockfd w =
     res_bind (getNextLoop (ts_pool (w_server w))) (\<lambda>(ioLoop, pool).
       let s = w_server w; name = connName s (ts_nextConnId s); cid = w_alloc w in
       if ts_nextConnId s \<ge> 2 ^ 31 - 1 then Inl IntOverflow else
         (let w1 = w\<lparr>w_server := s\<lparr>ts_pool := pool, ts_nextConnId := ts_nextConnId s + 1,
                        ts_connections := (ts_connections s)(name \<mapsto> cid)\<rparr>,
                     w_heap := (w_heap w)(cid \<mapsto> \<lparr>co_name = name, co_loop = ioLoop,
                        co_conn = (TcpConnection_new cid sockfd)\<lparr>tc_writeCompleteSet :=
                          ts_writeCompleteSet s\<rparr>, co_sent = [], co_shutdown = False\<rparr>),
                     w_alloc := cid + 1\<rparr>
          in if ioLoop = ts_loop s then run_connectEstablished k cbs cid w1
             else Inr (post ioLoop (ConnectEstablished cid) w1)))"

definition removeConnectionInLoop :: "nat \<Rightarrow> 'c world \<Rightarrow> 'c world res" where
  "removeConnectionInLoop cid w =
     (case w_heap w cid of
        None \<Rightarrow> Inl BadPointer
      | Some co \<Rightarrow>
          Inr (post (co_loop co) (ConnectDestroyed cid)
            (set_server (\<lambda>s. s\<lparr>ts_connections := (ts_connections s)(co_name co := None)\<rparr>) w)))"

definition removeConnection :: "nat \<Rightarrow> nat \<Rightarrow> 'c world \<Rightarrow> 'c world res" where
  "removeConnection cur cid w =
     (if cur = ts_loop (w_server w) then removeConnectionInLoop cid w
      else Inr (post (ts_loop (w_server w)) (RemoveConnectionInLoop cid) w))"

text \<open>
  The close event of a connection, in the thread of its loop. The close callback that the
  server installs is \<open>removeConnection\<close>, and it is the last call of the handler.
\<close>

definition peer_closed :: "kernel \<Rightarrow> 'c conn_callbacks \<Rightarrow> nat \<Rightarrow> 'c world \<Rightarrow> 'c world res" where
  "peer_closed k cbs cid w =
     (case w_heap w cid of
        None \<Rightarrow> Inl BadPointer
      | Some co \<Rightarrow>
          res_bind (on_conn (handleClose k (cbs\<lparr>connCloseCallback := Inr\<rparr>)) cid w)
            (removeConnection (co_loop co) cid))"

text \<open>
  A read event, in the thread of the connection's loop. When the peer has sent its last
  byte, the handler ends with the close callback, as above.
\<close>

definition conn_read ::
    "kernel \<Rightarrow> 'c conn_callbacks \<Rightarrow> readv_fn \<Rightarrow> int \<Rightarrow> nat \<Rightarrow> 'c world \<Rightarrow> 'c world res" where
  "conn_read k cbs readv receiveTime cid w =
     (case w_heap w cid of
        None \<Rightarrow> Inl BadPointer
      | Some co \<Rightarrow>
          res_bind (on_conn (handleRead k (cbs\<lparr>connCloseCallback := Inr\<rparr>) readv receiveTime) cid w)
            (\<lambda>w1. if fst (readFd readv (tc_input (co_conn co))) = Inr 0
                  then removeConnection (co_loop co) cid w1 else Inr w1))"

text \<open>\<open>accept\<close> answers with a descriptor or an error number.\<close>

definition Acceptor_handleRead ::
    "kernel \<Rightarrow> 'c conn_callbacks \<Rightarrow> errno + int \<Rightarrow> 'c world \<Rightarrow> 'c world res" where
  "Acceptor_handleRead k cbs answer w =
     (case answer of Inr connfd \<Rightarrow> newConnection k cbs connfd w | Inl err \<Rightarrow> Inr w)"

definition run_listen :: "kernel \<Rightarrow> 'c world \<Rightarrow> 'c world res" where
  "run_listen k w =
     (let s = w_server w in
      res_bind (Acceptor_listen (kn_ctl k) (ts_acceptor s) (w_pollers w (ts_loop s)))
        (\<lambda>(ac, p). Inr (w\<lparr>w_server := s\<lparr>ts_acceptor := ac\<rparr>,
           w_pollers := (w_pollers w)(ts_loop s := p)\<rparr>)))"

definition TcpServer_start ::
    "kernel \<Rightarrow> (int \<Rightarrow> nat) \<Rightarrow> bool \<Rightarrow> nat \<Rightarrow> 'c world \<Rightarrow> 'c world res" where
  "TcpServer_start k startLoop cb cur w =
     (let s = w_server w; w1 = set_server (\<lambda>s. s\<lparr>ts_started := ts_started s + 1\<rparr>) w in
      if ts_started s = 0 then
        (let w2 = set_server (\<lambda>s. s\<lparr>ts_pool := fst (pool_start startLoop cb (ts_pool s))\<rparr>) w1
         in if cur = ts_loop s then run_listen k w2 else Inr (post (ts_loop s) AcceptorListen w2))
      else Inr w1)"

text \<open>The destructor resets every connection of the map, in the map's order.\<close>

fun TcpServer_dtor ::
    "kernel \<Rightarrow> 'c conn_callbacks \<Rightarrow> nat \<Rightarrow> nat list \<Rightarrow> 'c world \<Rightarrow> 'c world res" where
  "TcpServer_dtor k cbs cur [] w = Inr w"
| "TcpServer_dtor k cbs cur (cid # cids) w =
     (case w_heap w cid of
        None \<Rightarrow> Inl BadPointer
      | Some co \<Rightarrow>
          res_bind (if cur = co_loop co then on_conn (connectDestroyed k cbs) cid w
                    else Inr (post (co_loop co) (ConnectDestroyed cid) w))
            (TcpServer_dtor k cbs cur cids))"

subsection \<open>Running the queues\<close>

text \<open>The functors that hold a shared pointer; \<open>sendInLoop\<close> and \<open>shutdownInLoop\<close> bind \<open>this\<close>.\<close>

fun mentions :: "nat \<Rightarrow> server_functor \<Rightarrow> bool" where
  "mentions cid (ConnectEstablished c) \<longleftrightarrow> c = cid"
| "mentions cid (ConnectDestroyed c) \<longleftrightarrow> c = cid"
| "mentions cid (RemoveConnectionInLoop c) \<longleftrightarrow> c = cid"
| "mentions cid AcceptorListen \<longleftrightarrow> False"
| "mentions cid (ConnFunctor c f) \<longleftrightarrow> c = cid"

fun owns :: "conn_functor \<Rightarrow> bool" where
  "owns FWriteComplete \<longleftrightarrow> True"
| "owns (FHighWaterMark n) \<longleftrightarrow> True"
| "owns (FSendInLoop ptr len) \<longleftrightarrow> False"
| "owns FShutdownInLoop \<longleftrightarrow> False"

fun holds_ref :: "server_functor \<Rightarrow> bool" where
  "holds_ref (ConnFunctor c f) \<longleftrightarrow> owns f"
| "holds_ref f \<longleftrightarrow> True"

definition mine :: "nat \<Rightarrow> nat \<Rightarrow> 'c world \<Rightarrow> server_functor list" where
  "mine cid l w = filter (mentions cid) (w_queues w l)"

definition in_map :: "nat \<Rightarrow> 'c conn_obj \<Rightarrow> 'c world \<Rightarrow> bool" where
  "in_map cid co w \<longleftrightarrow> ts_connections (w_server w) (co_name co) = Some cid"

definition held :: "nat \<Rightarrow> 'c conn_obj \<Rightarrow> 'c world \<Rightarrow> bool" where
  "held cid co w \<longleftrightarrow> in_map cid co w \<or>
     list_ex holds_ref (mine cid (co_loop co) w @ mine cid (ts_loop (w_server w)) w)"

definition release :: "nat \<Rightarrow> 'c world \<Rightarrow> 'c world" where
  "release cid w =
     (case w_heap w cid of
        None \<Rightarrow> w
      | Some co \<Rightarrow> if held cid co w then w else w\<lparr>w_heap := (w_heap w)(cid := None)\<rparr>)"

fun run_functor ::
    "kernel \<Rightarrow> 'c conn_callbacks \<Rightarrow> (nat \<Rightarrow> nat \<Rightarrow> string) \<Rightarrow> server_functor \<Rightarrow> 'c world \<Rightarrow>
     'c world res" where
  "run_functor k cbs mem (ConnectEstablished cid) w =
     res_bind (run_connectEstablished k cbs cid w) (\<lambda>w'. Inr (release cid w'))"
| "run_functor k cbs mem (ConnectDestroyed cid) w =
     res_bind (on_conn (connectDestroyed k cbs) cid w) (\<lambda>w'. Inr (release cid w'))"
| "run_functor k cbs mem (RemoveConnectionInLoop cid) w =
     res_bind (removeConnectionInLoop cid w) (\<lambda>w'. Inr (release cid w'))"
| "run_functor k cbs mem AcceptorListen w = run_listen k w"
| "run_functor k cbs mem (ConnFunctor cid f) w =
     res_bind (on_conn (run_conn_functor k mem f) cid w) (\<lambda>w'. Inr (release cid w'))"

definition conn_up :: "conn_state \<Rightarrow> bool" where
  "conn_up st \<longleftrightarrow> st = kConnected \<or> st = kDisconnecting"

definition co_state :: "'c conn_obj \<Rightarrow> conn_state" where
  "co_state co = tc_state (co_conn co)"

text \<open>
  The steps of the threads: the base loop accepts a connection, a loop runs the next
  functor of its queue, and a registered connection has output events, has input or is
  closed.
\<close>

inductive server_step ::
    "kernel \<Rightarrow> 'c conn_callbacks \<Rightarrow> (nat \<Rightarrow> nat \<Rightarrow> string) \<Rightarrow> 'c world \<Rightarrow> 'c world \<Rightarrow> bool"
  for k :: kernel and cbs :: "'c conn_callbacks" and mem :: "nat \<Rightarrow> nat \<Rightarrow> string" where
  step_accept:
    "Acceptor_handleRead k cbs answer w = Inr w' \<Longrightarrow> server_step k cbs mem w w'"
| step_functor:
    "w_queues w l = f # fs \<Longrightarrow>
     run_functor k cbs mem f (w\<lparr>w_queues := (w_queues w)(l := fs)\<rparr>) = Inr w' \<Longrightarrow>
     server_step k cbs mem w w'"
| step_output:
    "w_heap w cid = Some co \<Longrightarrow> conn_up (co_state co) \<Longrightarrow>
     on_conn (conn_run k evs) cid w = Inr w' \<Longrightarrow> server_step k cbs mem w w'"
| step_close:
    "w_heap w cid = Some co \<Longrightarrow> conn_up (co_state co) \<Longrightarrow>
     peer_closed k cbs cid w = Inr w' \<Longrightarrow> server_step k cbs mem w w'"
| step_read:
    "w_heap w cid = Some co \<Longrightarrow> conn_up (co_state co) \<Longrightarrow>
     conn_read k cbs readv t cid w = Inr w' \<Longrightarrow> server_step k cbs mem w w'"

text \<open>A server that has been started, before its first connection.\<close>

definition server_init :: "'c world \<Rightarrow> bool" where
  "server_init w \<longleftrightarrow> w_heap w = Map.empty \<and> ts_connections (w_server w) = Map.empty \<and>
     ts_nextConnId (w_server w) = 1 \<and> length (ts_ipPort (w_server w)) \<le> 21 \<and>
     (\<forall>l f. f \<in> set (w_queues w l) \<longrightarrow> f = AcceptorListen)"

section \<open>Invariant\<close>

text \<open>Where the functors of a connection are queued.\<close>

fun home :: "'c conn_obj \<Rightarrow> nat \<Rightarrow> server_functor \<Rightarrow> nat" where
  "home co base (RemoveConnectionInLoop c) = base"
| "home co base f = co_loop co"

definition count_functor :: "server_functor \<Rightarrow> nat \<Rightarrow> nat \<Rightarrow> 'c world \<Rightarrow> nat" where
  "count_functor f cid l w = count_list (mine cid l w) f"

text \<open>
  The life of a connection: it waits to be established, or is up and in the map, or is
  closed with exactly one removal under way, or is out of the map and waits for its
  destruction or for the last functor that holds it.
\<close>

definition life_ok :: "conn_state \<Rightarrow> bool \<Rightarrow> nat \<Rightarrow> nat \<Rightarrow> nat \<Rightarrow> bool" where
  "life_ok st mapped nE nD nR \<longleftrightarrow>
     nE = (if st = kconnecting then 1 else 0) \<and> nR + nD \<le> 1 \<and>
     (0 < nR \<longrightarrow> mapped) \<and> (0 < nD \<longrightarrow> \<not> mapped) \<and>
     (if mapped then st = kDisconnected \<longleftrightarrow> nR = 1 else st = kDisconnected)"

definition life :: "nat \<Rightarrow> 'c conn_obj \<Rightarrow> 'c world \<Rightarrow> bool" where
  "life cid co w \<longleftrightarrow> life_ok (co_state co) (in_map cid co w)
     (count_functor (ConnectEstablished cid) cid (co_loop co) w)
     (count_functor (ConnectDestroyed cid) cid (co_loop co) w)
     (count_functor (RemoveConnectionInLoop cid) cid (ts_loop (w_server w)) w)"

definition map_ok :: "'c world \<Rightarrow> bool" where
  "map_ok w \<longleftrightarrow> (\<forall>n cid. ts_connections (w_server w) n = Some cid \<longrightarrow>
     map_option co_name (w_heap w cid) = Some n)"

definition queues_ok :: "'c world \<Rightarrow> bool" where
  "queues_ok w \<longleftrightarrow> (\<forall>l f cid. f \<in> set (w_queues w l) \<longrightarrow> mentions cid f \<longrightarrow>
     holds_ref f \<and> (\<exists>co. w_heap w cid = Some co \<and> l = home co (ts_loop (w_server w)) f))"

definition names_ok :: "'c world \<Rightarrow> bool" where
  "names_ok w \<longleftrightarrow> (\<forall>cid n. map_option co_name (w_heap w cid) = Some n \<longrightarrow> cid < w_alloc w \<and>
     (\<exists>i. 1 \<le> i \<and> i < ts_nextConnId (w_server w) \<and> n = connName (w_server w) i) \<and>
     (\<forall>c. map_option co_name (w_heap w c) = Some n \<longrightarrow> c = cid))"

definition ids_ok :: "tcp_server \<Rightarrow> bool" where
  "ids_ok s \<longleftrightarrow> 1 \<le> ts_nextConnId s \<and> ts_nextConnId s < 2 ^ 31 \<and> length (ts_ipPort s) \<le> 21"

definition world_inv :: "'c world \<Rightarrow> bool" where
  "world_inv w \<longleftrightarrow> map_ok w \<and> queues_ok w \<and> names_ok w \<and> ids_ok (w_server w)"

definition server_inv :: "'c world \<Rightarrow> bool" where
  "server_inv w \<longleftrightarrow> world_inv w \<and> 
     (\<forall>cid co. w_heap w cid = Some co \<longrightarrow> life cid co w \<and> held cid co w)"

text \<open>
  What the user's callbacks may do in the loop of the connection: send and
  shut down, but not revive a closed connection.
\<close>

definition cb_local :: "('c tcp_env \<Rightarrow> 'c tcp_env res) \<Rightarrow> bool" where
  "cb_local cb \<longleftrightarrow> (\<forall>e e'. cb e = Inr e' \<longrightarrow>
     (conn_up (tc_state (te_conn e)) \<longrightarrow> conn_up (tc_state (te_conn e'))) \<and>
     (tc_state (te_conn e) = kDisconnected \<longrightarrow> tc_state (te_conn e') = kDisconnected) \<and>
     (\<forall>f \<in> set (te_queued e'). f \<in> set (te_queued e) \<or> owns f))"

definition cbs_local :: "'c conn_callbacks \<Rightarrow> bool" where
  "cbs_local cbs \<longleftrightarrow> cb_local (connectionCallback cbs) \<and> (\<forall>t. cb_local (messageCallback cbs t))"

section \<open>Lemmas\<close>

subsection \<open>The handlers of a connection\<close>

text \<open>What a handler does to the state and to the functors queued.\<close>

definition queued_own :: "'c tcp_env \<Rightarrow> 'c tcp_env \<Rightarrow> bool" where
  "queued_own e e' \<longleftrightarrow> (\<forall>f \<in> set (te_queued e'). f \<in> set (te_queued e) \<or> owns f)"

lemma queued_own_refl [simp]: "queued_own e e"
  by (simp add: queued_own_def)

lemma queued_own_trans: "queued_own e e' \<Longrightarrow> queued_own e' e'' \<Longrightarrow> queued_own e e''"
  by (auto simp: queued_own_def)

lemma on_channel_local:
  "on_channel f e = Inr e' \<Longrightarrow> tc_state (te_conn e') = tc_state (te_conn e) \<and> te_queued e' = te_queued e"
  by (auto simp: on_channel_def)

lemma buffer_rest_local:
  "buffer_rest k d e = Inr e' \<Longrightarrow> tc_state (te_conn e') = tc_state (te_conn e) \<and> queued_own e e'"
  by (auto simp: buffer_rest_def Let_def queued_own_def env_defs split: if_splits dest!: on_channel_local)

lemma direct_write_local:
  "direct_write k d e = (n, b, e') \<Longrightarrow> tc_state (te_conn e') = tc_state (te_conn e) \<and> queued_own e e'"
  by (auto simp: direct_write_def Let_def queued_own_def env_defs split: if_splits sum.splits)

lemma sendInLoop_local:
  "sendInLoop k d e = Inr e' \<Longrightarrow> tc_state (te_conn e') = tc_state (te_conn e) \<and> queued_own e e'"
  by (auto simp: sendInLoop_def Let_def split: if_splits prod.splits
      dest!: buffer_rest_local direct_write_local intro: queued_own_trans)

lemma handleWrite_local:
  "handleWrite k e = Inr e' \<Longrightarrow> tc_state (te_conn e') = tc_state (te_conn e) \<and> queued_own e e'"
  by (auto simp: handleWrite_def Let_def shutdownInLoop_def queued_own_def env_defs
      split: if_splits sum.splits dest!: on_channel_local)

lemma conn_exec_local:
  "conn_exec k ev e = Inr e' \<Longrightarrow> conn_up (tc_state (te_conn e)) \<Longrightarrow>
     conn_up (tc_state (te_conn e')) \<and> queued_own e e'"
  by (cases ev) (auto simp: send_def shutdown_def shutdownInLoop_def conn_up_def Let_def env_defs
      queued_own_def [of _ "_\<lparr>te_shutdown := _\<rparr>"] queued_own_def [of _ "_\<lparr>te_conn := _\<rparr>"]
      split: if_splits dest!: sendInLoop_local handleWrite_local)

lemma conn_run_local:
  "conn_run k evs e = Inr e' \<Longrightarrow> conn_up (tc_state (te_conn e)) \<Longrightarrow>
     conn_up (tc_state (te_conn e')) \<and> queued_own e e'"
proof (induction evs arbitrary: e)
  case (Cons ev evs)
  then obtain e1 where e1: "conn_exec k ev e = Inr e1" "conn_run k evs e1 = Inr e'" by auto
  from conn_exec_local [OF e1(1) Cons.prems(2)] Cons.IH [OF e1(2)] show ?case
    by (blast intro: queued_own_trans)
qed simp

lemma connectEstablished_local:
  assumes "connectEstablished k cbs e = Inr e'" and "cb_local (connectionCallback cbs)"
  shows "conn_up (tc_state (te_conn e')) \<and> queued_own e e'"
proof -
  obtain e1 where e1: "tc_state (te_conn e1) = kConnected" "te_queued e1 = te_queued e"
    "connectionCallback cbs e1 = Inr e'"
    using assms(1)
    by (auto simp: connectEstablished_def Let_def setState_def dest!: on_channel_local)
  with assms(2) show ?thesis
    unfolding cb_local_def queued_own_def conn_up_def by metis
qed

lemma handleClose_local:
  assumes "handleClose k (cbs\<lparr>connCloseCallback := Inr\<rparr>) e = Inr e'"
    and "cb_local (connectionCallback cbs)"
  shows "tc_state (te_conn e') = kDisconnected \<and> queued_own e e'"
proof -
  obtain e1 where e1: "tc_state (te_conn e1) = kDisconnected" "te_queued e1 = te_queued e"
    "connectionCallback cbs e1 = Inr e'"
    using assms(1) by (auto simp: handleClose_def setState_def dest!: on_channel_local)
  with assms(2) show ?thesis
    unfolding cb_local_def queued_own_def by metis
qed

text \<open>A read event closes the connection at the end of the input, and only there.\<close>

lemma handleRead_local:
  assumes "handleRead k (cbs\<lparr>connCloseCallback := Inr\<rparr>) readv t e = Inr e'" and cb: "cbs_local cbs"
    and up: "conn_up (tc_state (te_conn e))"
  shows "(if fst (readFd readv (tc_input (te_conn e))) = Inr 0 then tc_state (te_conn e') = kDisconnected
     else conn_up (tc_state (te_conn e'))) \<and> queued_own e e'"
proof -
  obtain n b where r: "readFd readv (tc_input (te_conn e)) = (n, b)" by fastforce
  let ?e1 = "e\<lparr>te_conn := (te_conn e)\<lparr>tc_input := b\<rparr>\<rparr>"
  have q: "queued_own ?e1 e' = queued_own e e'" by (simp add: queued_own_def)
  consider (err) err where "n = Inl err" | (eof) "n = Inr 0" | (data) m where "n = Inr m" "0 < m"
    by (cases n) auto
  then show ?thesis
  proof cases
    case err
    with assms(1) r have "e' = ?e1" by (simp add: handleRead_def handleError_def)
    with err r up show ?thesis by (simp add: queued_own_def)
  next
    case eof
    with assms(1) r have "handleClose k (cbs\<lparr>connCloseCallback := Inr\<rparr>) ?e1 = Inr e'"
      by (simp add: handleRead_def)
    from handleClose_local [OF this] cb q eof r show ?thesis by (simp add: cbs_local_def)
  next
    case data
    with assms(1) r have "messageCallback cbs t ?e1 = Inr e'" by (simp add: handleRead_def)
    moreover have "cb_local (messageCallback cbs t)" using cb by (simp add: cbs_local_def)
    moreover have "conn_up (tc_state (te_conn ?e1))" using up by simp
    ultimately have "conn_up (tc_state (te_conn e')) \<and> queued_own ?e1 e'"
      unfolding cb_local_def queued_own_def by blast
    with data r q show ?thesis by simp
  qed
qed

lemma connectDestroyed_local:
  "connectDestroyed k cbs e = Inr e' \<Longrightarrow> tc_state (te_conn e) = kDisconnected \<Longrightarrow>
     tc_state (te_conn e') = kDisconnected \<and> te_queued e' = te_queued e"
  by (auto simp: connectDestroyed_def dest!: on_channel_local)

subsection \<open>Worlds\<close>

text \<open>A handler of one connection touches its object, the poller and the queue of its loop.\<close>

definition touch :: "nat \<Rightarrow> 'c conn_obj \<Rightarrow> 'c conn_obj \<Rightarrow> 'c world \<Rightarrow> 'c world \<Rightarrow> bool" where
  "touch cid co co' w w' \<longleftrightarrow> w_heap w cid = Some co \<and> co_name co' = co_name co \<and>
     co_loop co' = co_loop co \<and> w_heap w' = (w_heap w)(cid \<mapsto> co') \<and> w_server w' = w_server w \<and>
     w_alloc w' = w_alloc w \<and>
     (\<exists>fs. list_all owns fs \<and> w_queues w' = (w_queues w)(co_loop co :=
        w_queues w (co_loop co) @ map (ConnFunctor cid) fs))"

lemma on_conn_touch_at:
  assumes "on_conn f cid w = Inr w'" and "w_heap w cid = Some co"
    and "\<And>e. f (conn_env co w) = Inr e \<Longrightarrow> P (tc_state (te_conn e)) \<and> queued_own (conn_env co w) e"
  shows "\<exists>co'. touch cid co co' w w' \<and> P (co_state co')"
proof -
  obtain e where e: "f (conn_env co w) = Inr e" "w' = store_env cid co e w"
    using assms(1,2) by (auto simp: on_conn_def)
  show ?thesis
    using e(2) assms(2) assms(3) [OF e(1)]
    by (auto simp: touch_def store_env_def queued_own_def conn_env_def co_state_def list_all_iff
        intro!: exI [of _ "co\<lparr>co_conn := te_conn e, co_sent := te_sent e, co_shutdown := te_shutdown e\<rparr>"]
          exI [of _ "te_queued e"])
qed

lemma on_conn_touch:
  assumes "on_conn f cid w = Inr w'" and "w_heap w cid = Some co"
    and "\<And>e e'. f e = Inr e' \<Longrightarrow> tc_state (te_conn e) = co_state co \<Longrightarrow>
      P (tc_state (te_conn e')) \<and> queued_own e e'"
  shows "\<exists>co'. touch cid co co' w w' \<and> P (co_state co')"
  by (rule on_conn_touch_at [OF assms(1,2)]) (rule assms(3), simp_all add: conn_env_def co_state_def)

lemma count_list_filter_mentions:
  "mentions cid f \<Longrightarrow> count_list (filter (mentions cid) fs) f = count_list fs f"
  by (induction fs) auto

lemma mentions_unique: "mentions c f \<Longrightarrow> mentions c' f \<Longrightarrow> c = c'"
  by (cases f) auto

lemma mine_touch: "touch cid co co' w w' \<Longrightarrow> c \<noteq> cid \<Longrightarrow> mine c l w' = mine c l w"
  by (auto simp: touch_def mine_def filter_empty_conv)

lemma count_touch:
  "touch cid co co' w w' \<Longrightarrow> f \<notin> range (ConnFunctor cid) \<Longrightarrow>
     count_functor f c l w' = count_functor f c l w"
  by (auto simp: touch_def mine_def count_functor_def count_list_0_iff)

lemma life_cong:
  assumes "\<And>l. mine cid l w' = mine cid l w" and "ts_loop (w_server w') = ts_loop (w_server w)"
    and "in_map cid co w' = in_map cid co w"
  shows "life cid co w' = life cid co w" and "held cid co w' = held cid co w"
  using assms by (simp_all add: life_def held_def count_functor_def)

lemma queues_ok_touch:
  assumes "queues_ok w" and t: "touch cid co co' w w'"
  shows "queues_ok w'"
  unfolding queues_ok_def
proof (intro allI impI)
  fix l f c
  assume f: "f \<in> set (w_queues w' l)" "mentions c f"
  obtain fs where fs: "list_all owns fs" "w_queues w' = (w_queues w)(co_loop co :=
      w_queues w (co_loop co) @ map (ConnFunctor cid) fs)"
    using t by (auto simp: touch_def)
  have h: "w_heap w' = (w_heap w)(cid \<mapsto> co')" "w_heap w cid = Some co" "w_server w' = w_server w"
    "co_loop co' = co_loop co"
    using t by (auto simp: touch_def)
  have home: "home co' b f = home co b f" for b f
    using h(4) by (cases f) auto
  show "holds_ref f \<and> (\<exists>o'. w_heap w' c = Some o' \<and> l = home o' (ts_loop (w_server w')) f)"
  proof (cases "f \<in> set (w_queues w l)")
    case True
    then have "holds_ref f \<and> (\<exists>o'. w_heap w c = Some o' \<and> l = home o' (ts_loop (w_server w)) f)"
      using assms(1) f(2) unfolding queues_ok_def by blast
    then show ?thesis using h home by auto
  next
    case False
    then have "l = co_loop co" "\<exists>g \<in> set fs. f = ConnFunctor cid g"
      using f(1) fs(2) by (auto split: if_splits)
    then show ?thesis using fs(1) f(2) h by (auto simp: list_all_iff)
  qed
qed

lemma world_inv_touch:
  assumes "world_inv w" and t: "touch cid co co' w w'"
  shows "world_inv w'"
proof -
  have "map_option co_name (w_heap w' c) = map_option co_name (w_heap w c)" for c
    using t by (simp add: touch_def)
  then show ?thesis
    using assms queues_ok_touch [OF _ t]
    by (auto simp: world_inv_def map_ok_def names_ok_def touch_def)
qed

text \<open>
  The invariant but for one connection, while a functor or a handler of it runs; and
  what is left to do when its life is in order again.
\<close>

definition almost_inv :: "nat \<Rightarrow> 'c world \<Rightarrow> bool" where
  "almost_inv cid w \<longleftrightarrow> world_inv w \<and>
     (\<forall>c co. w_heap w c = Some co \<longrightarrow> c \<noteq> cid \<longrightarrow> life c co w \<and> held c co w)"

definition settled :: "nat \<Rightarrow> 'c world \<Rightarrow> bool" where
  "settled cid w \<longleftrightarrow> almost_inv cid w \<and> (\<forall>co. w_heap w cid = Some co \<longrightarrow> life cid co w)"

lemma settled_held: "settled cid w \<Longrightarrow> w_heap w cid = Some co \<Longrightarrow> held cid co w \<Longrightarrow> server_inv w"
  unfolding settled_def almost_inv_def server_inv_def by (metis option.inject)

lemma release_inv:
  assumes "settled cid w"
  shows "server_inv (release cid w)"
proof (cases "w_heap w cid")
  case None
  then show ?thesis using assms by (force simp: release_def server_inv_def almost_inv_def settled_def)
next
  case (Some co)
  show ?thesis
  proof (cases "held cid co w")
    case True
    then show ?thesis using Some settled_held [OF assms Some True] by (simp add: release_def)
  next
    case False
    let ?w = "w\<lparr>w_heap := (w_heap w)(cid := None)\<rparr>"
    have w: "world_inv w" using assms by (simp add: settled_def almost_inv_def)
    have nomention: "\<not> mentions cid f" if "f \<in> set (w_queues w l)" for f l
    proof
      assume m: "mentions cid f"
      then have "holds_ref f" "l = home co (ts_loop (w_server w)) f"
        using w that Some unfolding world_inv_def queues_ok_def by fastforce+
      then have "f \<in> set (mine cid (co_loop co) w @ mine cid (ts_loop (w_server w)) w)"
        using that m by (cases f) (auto simp: mine_def)
      then show False using False \<open>holds_ref f\<close> by (auto simp: held_def list_ex_iff)
    qed
    have nomap: "ts_connections (w_server w) n \<noteq> Some cid" for n
      using w Some False by (fastforce simp: world_inv_def map_ok_def held_def in_map_def)
    have "map_ok ?w" using w nomap by (auto simp: world_inv_def map_ok_def)
    moreover have "queues_ok ?w"
      using w nomention by (fastforce simp: world_inv_def queues_ok_def)
    moreover have "names_ok ?w"
      using w by (auto simp: world_inv_def names_ok_def split: if_splits)
    ultimately have "world_inv ?w" using w by (simp add: world_inv_def)
    moreover have "life c co' ?w \<and> held c co' ?w" if "w_heap ?w c = Some co'" for c co'
      using assms that life_cong [of c ?w w co']
      by (auto simp: settled_def almost_inv_def mine_def in_map_def split: if_splits)
    ultimately show ?thesis
      using Some False by (simp add: release_def server_inv_def)
  qed
qed

text \<open>A handler that keeps the life of its connection in order.\<close>

lemma touch_inv:
  assumes "almost_inv cid w" and t: "touch cid co co' w w'"
  shows "almost_inv cid w'"
proof -
  have "world_inv w'" using world_inv_touch [OF _ t] assms(1) by (simp add: almost_inv_def)
  moreover have "life c o' w' \<and> held c o' w'" if "w_heap w' c = Some o'" "c \<noteq> cid" for c o'
  proof -
    have "w_heap w c = Some o'" "w_server w' = w_server w"
      using that t by (auto simp: touch_def)
    then show ?thesis
      using assms(1) that(2) life_cong [of c w' w o'] mine_touch [OF t that(2)]
      by (auto simp: almost_inv_def in_map_def)
  qed
  ultimately show ?thesis by (simp add: almost_inv_def)
qed

text \<open>The life of a connection with another state.\<close>

definition life_at :: "conn_state \<Rightarrow> nat \<Rightarrow> 'c conn_obj \<Rightarrow> 'c world \<Rightarrow> bool" where
  "life_at st cid co w \<longleftrightarrow> life_ok st (in_map cid co w)
     (count_functor (ConnectEstablished cid) cid (co_loop co) w)
     (count_functor (ConnectDestroyed cid) cid (co_loop co) w)
     (count_functor (RemoveConnectionInLoop cid) cid (ts_loop (w_server w)) w)"

lemma life_touch:
  assumes t: "touch cid co co' w w'"
  shows "life cid co' w' = life_at (co_state co') cid co w"
proof -
  have "count_functor (ConnectEstablished cid) cid l w' = count_functor (ConnectEstablished cid) cid l w"
    "count_functor (ConnectDestroyed cid) cid l w' = count_functor (ConnectDestroyed cid) cid l w"
    "count_functor (RemoveConnectionInLoop cid) cid l w' =
       count_functor (RemoveConnectionInLoop cid) cid l w" for l
    using count_touch [OF t] by auto
  moreover have "co_loop co' = co_loop co" "co_name co' = co_name co" "w_server w' = w_server w"
    using t by (auto simp: touch_def)
  ultimately show ?thesis by (simp add: life_def life_at_def in_map_def)
qed

lemma on_conn_settled:
  assumes "almost_inv cid w" and "on_conn f cid w = Inr w'" and "w_heap w cid = Some co"
    and "\<And>e e'. f e = Inr e' \<Longrightarrow> tc_state (te_conn e) = co_state co \<Longrightarrow>
      P (tc_state (te_conn e')) \<and> queued_own e e'"
    and "\<And>st. P st \<Longrightarrow> life_at st cid co w"
  shows "settled cid w' \<and> (\<exists>co'. touch cid co co' w w')"
proof -
  from on_conn_touch [OF assms(2,3), of P] assms(4) obtain co' where
    t: "touch cid co co' w w'" and "P (co_state co')" by blast
  then have "life cid co' w'" using life_touch [OF t] assms(5) by blast
  with touch_inv [OF assms(1) t] t show ?thesis by (auto simp: settled_def touch_def)
qed

text \<open>Taking a functor from the head of a queue.\<close>

lemma queues_ok_weaken:
  assumes "queues_ok w" and "w_heap w' = w_heap w" and "ts_loop (w_server w') = ts_loop (w_server w)"
    and "\<And>l. set (w_queues w' l) \<subseteq> set (w_queues w l)"
  shows "queues_ok w'"
  using assms unfolding queues_ok_def by (metis subsetD)

lemma count_pop:
  assumes "w_queues w l = f # fs" and "mentions cid f"
  shows "count_functor g cid l' (w\<lparr>w_queues := (w_queues w)(l := fs)\<rparr>) =
    count_functor g cid l' w - (if g = f \<and> l' = l then 1 else 0)"
  using assms by (auto simp: count_functor_def mine_def)

lemma pop_inv:
  assumes inv: "server_inv w" and q: "w_queues w l = f # fs" and f: "mentions cid f"
    and w0: "w0 = w\<lparr>w_queues := (w_queues w)(l := fs)\<rparr>"
  shows "almost_inv cid w0 \<and> holds_ref f \<and>
    (\<exists>co. w_heap w0 cid = Some co \<and> l = home co (ts_loop (w_server w)) f \<and> life cid co w)"
proof -
  have w: "world_inv w" using inv by (simp add: server_inv_def)
  have "queues_ok w0"
    by (rule queues_ok_weaken [of w]) (use w q w0 in \<open>auto simp: world_inv_def\<close>)
  then have "world_inv w0"
    using w by (simp add: world_inv_def map_ok_def names_ok_def w0)
  moreover have "life c co w0 \<and> held c co w0" if "w_heap w0 c = Some co" "c \<noteq> cid" for c co
  proof -
    have "mine c l' w0 = mine c l' w" for l'
      using q f that(2) mentions_unique [of c f cid] by (auto simp: mine_def w0)
    then show ?thesis
      using inv that(1) life_cong [of c w0 w co] by (auto simp: server_inv_def in_map_def w0)
  qed
  moreover have "f \<in> set (w_queues w l)" using q by simp
  then have "holds_ref f \<and> (\<exists>co. w_heap w cid = Some co \<and> l = home co (ts_loop (w_server w)) f)"
    using w f unfolding world_inv_def queues_ok_def by blast
  ultimately show ?thesis
    using inv w0 by (auto simp: almost_inv_def server_inv_def)
qed

text \<open>Queueing a functor, and erasing a connection from the map.\<close>

lemma post_fields [simp]:
  "w_heap (post l f w) = w_heap w" "w_server (post l f w) = w_server w"
  "w_alloc (post l f w) = w_alloc w"
  by (simp_all add: post_def)

lemma mine_post:
  "mine c l' (post l f w) = mine c l' w @ (if l' = l \<and> mentions c f then [f] else [])"
  by (simp add: mine_def post_def)

lemma count_post:
  "count_functor g c l' (post l f w) =
     count_functor g c l' w + (if g = f \<and> l' = l \<and> mentions c f then 1 else 0)"
  by (simp add: count_functor_def mine_post)

lemma post_inv:
  assumes "almost_inv cid w" and "w_heap w cid = Some co" and "mentions cid f" and "holds_ref f"
    and "l = home co (ts_loop (w_server w)) f"
  shows "almost_inv cid (post l f w)"
proof -
  have q: "queues_ok w" using assms(1) by (simp add: almost_inv_def world_inv_def)
  have "queues_ok (post l f w)"
    unfolding queues_ok_def
  proof (intro allI impI)
    fix l' g c
    assume g: "g \<in> set (w_queues (post l f w) l')" "mentions c g"
    show "holds_ref g \<and> (\<exists>o'. w_heap (post l f w) c = Some o' \<and>
        l' = home o' (ts_loop (w_server (post l f w))) g)"
    proof (cases "g \<in> set (w_queues w l')")
      case True
      then show ?thesis using q g(2) unfolding queues_ok_def post_fields by blast
    next
      case False
      then have "g = f" "l' = l" using g(1) by (auto simp: post_def split: if_splits)
      moreover have "c = cid" using mentions_unique assms(3) g(2) \<open>g = f\<close> by blast
      ultimately show ?thesis using assms(2,4,5) unfolding post_fields by blast
    qed
  qed
  then have "world_inv (post l f w)"
    using assms(1) by (auto simp: almost_inv_def world_inv_def map_ok_def names_ok_def)
  moreover have "life c o' (post l f w) \<and> held c o' (post l f w)"
    if "w_heap w c = Some o'" "c \<noteq> cid" for c o'
  proof -
    have "mine c l' (post l f w) = mine c l' w" for l'
      using mentions_unique [OF assms(3), of c] that(2) by (auto simp: mine_post)
    then show ?thesis
      using assms(1) that life_cong [of c "post l f w" w o'] by (auto simp: almost_inv_def in_map_def)
  qed
  ultimately show ?thesis by (simp add: almost_inv_def)
qed

definition erase :: "'c conn_obj \<Rightarrow> 'c world \<Rightarrow> 'c world" where
  "erase co w = set_server (\<lambda>s. s\<lparr>ts_connections := (ts_connections s)(co_name co := None)\<rparr>) w"

lemma erase_fields [simp]:
  "w_heap (erase co w) = w_heap w" "w_alloc (erase co w) = w_alloc w"
  "w_queues (erase co w) = w_queues w" "ts_loop (w_server (erase co w)) = ts_loop (w_server w)"
  "mine c l (erase co w) = mine c l w" "count_functor g c l (erase co w) = count_functor g c l w"
  by (simp_all add: erase_def set_server_def mine_def count_functor_def)

lemma erase_inv:
  assumes "almost_inv cid w" and "w_heap w cid = Some co"
  shows "almost_inv cid (erase co w)" and "\<not> in_map cid co (erase co w)"
proof -
  have w: "world_inv w" using assms(1) by (simp add: almost_inv_def)
  have "connName (w_server (erase co w)) i = connName (w_server w) i" for i
    by (simp add: connName_def erase_def set_server_def)
  then have "world_inv (erase co w)"
    using w by (auto simp: world_inv_def map_ok_def names_ok_def ids_ok_def queues_ok_def
        erase_def set_server_def)
  moreover have "life c o' (erase co w) \<and> held c o' (erase co w)"
    if "w_heap w c = Some o'" "c \<noteq> cid" for c o'
  proof -
    have "co_name o' \<noteq> co_name co"
      using w that assms(2) by (auto simp: world_inv_def names_ok_def)
    then have "in_map c o' (erase co w) = in_map c o' w"
      by (simp add: in_map_def erase_def set_server_def)
    then show ?thesis
      using assms(1) that life_cong [of c "erase co w" w o'] by (auto simp: almost_inv_def)
  qed
  ultimately show "almost_inv cid (erase co w)" by (simp add: almost_inv_def)
  show "\<not> in_map cid co (erase co w)" by (simp add: in_map_def erase_def set_server_def)
qed

text \<open>The removal from the map, for a closed connection with no removal under way.\<close>

definition closed_idle :: "nat \<Rightarrow> 'c conn_obj \<Rightarrow> 'c world \<Rightarrow> bool" where
  "closed_idle cid co w \<longleftrightarrow> w_heap w cid = Some co \<and> co_state co = kDisconnected \<and> in_map cid co w \<and>
     count_functor (ConnectEstablished cid) cid (co_loop co) w = 0 \<and>
     count_functor (ConnectDestroyed cid) cid (co_loop co) w = 0 \<and>
     count_functor (RemoveConnectionInLoop cid) cid (ts_loop (w_server w)) w = 0"

lemma removeConnectionInLoop_inv:
  assumes "almost_inv cid w" and "closed_idle cid co w"
    and "removeConnectionInLoop cid w = Inr w'"
  shows "server_inv w'"
proof -
  have h: "w_heap w cid = Some co" using assms(2) by (simp add: closed_idle_def)
  have w': "w' = post (co_loop co) (ConnectDestroyed cid) (erase co w)"
    using assms(3) h by (simp add: removeConnectionInLoop_def erase_def)
  note e = erase_inv [OF assms(1) h]
  have "almost_inv cid w'"
    using post_inv [OF e(1), of co "ConnectDestroyed cid"] h w' by simp
  moreover have nm: "\<not> in_map cid co w'" using e(2) by (simp add: w' in_map_def)
  then have "life cid co w'"
    using assms(2) unfolding life_def closed_idle_def by (simp add: w' count_post life_ok_def)
  moreover have "held cid co w'"
    by (simp add: held_def w' mine_post)
  ultimately show ?thesis
    using settled_held [of cid w' co] h by (simp add: settled_def w')
qed

lemma removeConnection_inv:
  assumes "almost_inv cid w" and "closed_idle cid co w"
    and "removeConnection cur cid w = Inr w'"
  shows "server_inv w'"
proof (cases "cur = ts_loop (w_server w)")
  case True
  then show ?thesis using removeConnectionInLoop_inv [OF assms(1,2)] assms(3)
    by (simp add: removeConnection_def)
next
  case False
  let ?base = "ts_loop (w_server w)"
  have h: "w_heap w cid = Some co" using assms(2) by (simp add: closed_idle_def)
  have w': "w' = post ?base (RemoveConnectionInLoop cid) w"
    using assms(3) False by (simp add: removeConnection_def)
  have "almost_inv cid w'"
    using post_inv [OF assms(1) h, of "RemoveConnectionInLoop cid"] w' by simp
  moreover have "life cid co w'"
    using assms(2) unfolding life_def closed_idle_def
    by (simp add: w' count_post life_ok_def in_map_def)
  moreover have "held cid co w'" using assms(2) by (simp add: held_def closed_idle_def w' in_map_def)
  ultimately show ?thesis
    using settled_held [of cid w' co] h by (simp add: settled_def w')
qed

subsection \<open>The steps\<close>

lemma server_almost: "server_inv w \<Longrightarrow> almost_inv cid w"
  by (simp add: server_inv_def almost_inv_def)

lemma handler_inv:
  assumes inv: "server_inv w" and h: "w_heap w cid = Some co" and up: "conn_up (co_state co)"
    and r: "on_conn f cid w = Inr w'"
    and f: "\<And>e. f (conn_env co w) = Inr e \<Longrightarrow> conn_up (tc_state (te_conn e)) \<and> queued_own (conn_env co w) e"
  shows "server_inv w'"
proof -
  have l: "life cid co w" using inv h by (simp add: server_inv_def)
  then have m: "in_map cid co w"
    using up by (auto simp: life_def life_ok_def conn_up_def split: if_splits)
  from on_conn_touch_at [OF r h, of conn_up] f
  obtain co' where t: "touch cid co co' w w'" and up': "conn_up (co_state co')" by blast
  have "life_at (co_state co') cid co w"
    using l m up' up by (auto simp: life_at_def life_def life_ok_def conn_up_def)
  then have "settled cid w'"
    using life_touch [OF t] touch_inv [OF server_almost [OF inv] t] t by (simp add: settled_def touch_def)
  with m t show ?thesis
    using settled_held [of cid w' co'] by (simp add: touch_def held_def in_map_def)
qed

text \<open>A handler that closes its connection, and the close callback of the server.\<close>

lemma closing_inv:
  assumes inv: "server_inv w" and h: "w_heap w cid = Some co" and up: "conn_up (co_state co)"
    and r: "on_conn f cid w = Inr w1" "removeConnection (co_loop co) cid w1 = Inr w'"
    and f: "\<And>e. f (conn_env co w) = Inr e \<Longrightarrow>
      tc_state (te_conn e) = kDisconnected \<and> queued_own (conn_env co w) e"
  shows "server_inv w'"
proof -
  from on_conn_touch_at [OF r(1) h, of "\<lambda>st. st = kDisconnected"] f
  obtain co' where t: "touch cid co co' w w1" and st: "co_state co' = kDisconnected" by blast
  have l: "life cid co w" using inv h by (simp add: server_inv_def)
  have cl: "closed_idle cid co' w1"
    using l up st count_touch [OF t, of _ cid] t
    by (auto simp: closed_idle_def touch_def life_def life_ok_def conn_up_def in_map_def image_iff
        split: if_splits)
  show ?thesis
    by (rule removeConnection_inv [OF touch_inv [OF server_almost [OF inv] t] cl r(2)])
qed

lemma conn_env_state [simp]: "tc_state (te_conn (conn_env co w)) = co_state co"
  by (simp add: conn_env_def co_state_def)

lemma output_inv:
  assumes "server_inv w" and "w_heap w cid = Some co" and "conn_up (co_state co)"
    and "on_conn (conn_run k evs) cid w = Inr w'"
  shows "server_inv w'"
  by (rule handler_inv [OF assms]) (use conn_run_local assms(3) in fastforce)

lemma close_inv:
  assumes "server_inv w" and "w_heap w cid = Some co" and "conn_up (co_state co)"
    and "peer_closed k cbs cid w = Inr w'" and "cbs_local cbs"
  shows "server_inv w'"
proof -
  obtain w1 where w1: "on_conn (handleClose k (cbs\<lparr>connCloseCallback := Inr\<rparr>)) cid w = Inr w1"
    "removeConnection (co_loop co) cid w1 = Inr w'"
    using assms(2,4) by (auto simp: peer_closed_def)
  show ?thesis
    by (rule closing_inv [OF assms(1-3) w1]) (use handleClose_local assms(5) in \<open>auto simp: cbs_local_def\<close>)
qed

lemma read_inv:
  assumes "server_inv w" and h: "w_heap w cid = Some co" and up: "conn_up (co_state co)"
    and r: "conn_read k cbs readv t cid w = Inr w'" and cb: "cbs_local cbs"
  shows "server_inv w'"
proof -
  let ?f = "handleRead k (cbs\<lparr>connCloseCallback := Inr\<rparr>) readv t"
  let ?eof = "fst (readFd readv (tc_input (co_conn co))) = Inr 0"
  obtain w1 where w1: "on_conn ?f cid w = Inr w1"
    "if ?eof then removeConnection (co_loop co) cid w1 = Inr w' else w1 = w'"
    using r h by (auto simp: conn_read_def split: if_splits)
  have f: "(if ?eof then tc_state (te_conn e) = kDisconnected else conn_up (tc_state (te_conn e))) \<and>
      queued_own (conn_env co w) e" if "?f (conn_env co w) = Inr e" for e
    using handleRead_local [OF that cb] up by (simp add: conn_env_def co_state_def)
  show ?thesis
  proof (cases ?eof)
    case True
    with w1(2) have "removeConnection (co_loop co) cid w1 = Inr w'" by simp
    from closing_inv [OF assms(1-3) w1(1) this] True f show ?thesis by simp
  next
    case False
    with w1(2) have "w1 = w'" by simp
    with handler_inv [OF assms(1-3) w1(1)] False f show ?thesis by simp
  qed
qed

lemma establish_inv:
  assumes "almost_inv cid w" and h: "w_heap w cid = Some co" and "in_map cid co w"
    and "count_functor (ConnectEstablished cid) cid (co_loop co) w = 0"
    and "count_functor (ConnectDestroyed cid) cid (co_loop co) w = 0"
    and "count_functor (RemoveConnectionInLoop cid) cid (ts_loop (w_server w)) w = 0"
    and r: "run_connectEstablished k cbs cid w = Inr w'" and cb: "cb_local (connectionCallback cbs)"
  shows "server_inv w' \<and> release cid w' = w'"
proof -
  have "life_at st cid co w" if "conn_up st" for st
    using assms that by (auto simp: life_at_def life_ok_def conn_up_def)
  with on_conn_settled [OF assms(1) r [unfolded run_connectEstablished_def] h, of conn_up]
    connectEstablished_local cb
  obtain co' where s: "settled cid w'" and t: "touch cid co co' w w'" by metis
  have "held cid co' w'" and h': "w_heap w' cid = Some co'"
    using t assms(3) by (auto simp: touch_def held_def in_map_def)
  with s show ?thesis using settled_held [OF s h'] by (simp add: release_def)
qed

lemma destroy_inv:
  assumes "almost_inv cid w" and h: "w_heap w cid = Some co"
    and "life_at kDisconnected cid co w" and "co_state co = kDisconnected"
    and r: "on_conn (connectDestroyed k cbs) cid w = Inr w'"
  shows "server_inv (release cid w')"
proof -
  have "settled cid w'"
    using on_conn_settled [OF assms(1) r h, of "\<lambda>st. st = kDisconnected"] assms(3,4)
      connectDestroyed_local unfolding queued_own_def by metis
  then show ?thesis by (rule release_inv)
qed

text \<open>What is known of a connection when one of its functors comes to the head of a queue.\<close>

lemma head_established:
  assumes inv: "server_inv w" and q: "w_queues w l = ConnectEstablished cid # fs"
  shows "\<exists>co. w_heap w cid = Some co \<and> l = co_loop co \<and> in_map cid co w \<and> co_state co = kconnecting \<and>
    count_functor (ConnectEstablished cid) cid l w = 1 \<and> count_functor (ConnectDestroyed cid) cid l w = 0 \<and>
    count_functor (RemoveConnectionInLoop cid) cid (ts_loop (w_server w)) w = 0"
proof -
  from pop_inv [OF inv q _ refl, of cid] obtain co where
    co: "w_heap w cid = Some co" "l = co_loop co" "life cid co w" by auto
  moreover have "0 < count_functor (ConnectEstablished cid) cid l w" using q by (simp add: count_functor_def mine_def)
  ultimately show ?thesis by (auto simp: life_def life_ok_def split: if_splits)
qed

lemma head_destroyed:
  assumes inv: "server_inv w" and q: "w_queues w l = ConnectDestroyed cid # fs"
  shows "\<exists>co. w_heap w cid = Some co \<and> l = co_loop co \<and> \<not> in_map cid co w \<and> co_state co = kDisconnected \<and>
    count_functor (ConnectEstablished cid) cid l w = 0 \<and> count_functor (ConnectDestroyed cid) cid l w = 1 \<and>
    count_functor (RemoveConnectionInLoop cid) cid (ts_loop (w_server w)) w = 0"
proof -
  from pop_inv [OF inv q _ refl, of cid] obtain co where
    co: "w_heap w cid = Some co" "l = co_loop co" "life cid co w" by auto
  moreover have "0 < count_functor (ConnectDestroyed cid) cid l w" using q by (simp add: count_functor_def mine_def)
  ultimately show ?thesis by (auto simp: life_def life_ok_def split: if_splits)
qed

lemma head_removal:
  assumes inv: "server_inv w" and q: "w_queues w l = RemoveConnectionInLoop cid # fs"
  shows "\<exists>co. w_heap w cid = Some co \<and> l = ts_loop (w_server w) \<and> in_map cid co w \<and> co_state co = kDisconnected \<and>
    count_functor (ConnectEstablished cid) cid (co_loop co) w = 0 \<and>
    count_functor (ConnectDestroyed cid) cid (co_loop co) w = 0 \<and>
    count_functor (RemoveConnectionInLoop cid) cid l w = 1"
proof -
  from pop_inv [OF inv q _ refl, of cid] obtain co where
    co: "w_heap w cid = Some co" "l = ts_loop (w_server w)" "life cid co w" by auto
  moreover have "0 < count_functor (RemoveConnectionInLoop cid) cid l w" using q by (simp add: count_functor_def mine_def)
  ultimately show ?thesis by (auto simp: life_def life_ok_def split: if_splits)
qed

lemma run_established_inv:
  assumes inv: "server_inv w" and q: "w_queues w l = ConnectEstablished cid # fs"
    and r: "run_functor k cbs mem (ConnectEstablished cid) (w\<lparr>w_queues := (w_queues w)(l := fs)\<rparr>) = Inr w'"
    and cb: "cb_local (connectionCallback cbs)"
  shows "server_inv w'"
proof -
  let ?w0 = "w\<lparr>w_queues := (w_queues w)(l := fs)\<rparr>"
  obtain co where co: "w_heap w cid = Some co" "l = co_loop co" "in_map cid co w"
    "count_functor (ConnectEstablished cid) cid l w = 1" "count_functor (ConnectDestroyed cid) cid l w = 0"
    "count_functor (RemoveConnectionInLoop cid) cid (ts_loop (w_server w)) w = 0"
    using head_established [OF inv q] by blast
  have "almost_inv cid ?w0" using pop_inv [OF inv q _ refl, of cid] by simp
  from establish_inv [OF this, of co] co cb r count_pop [OF q, of cid] show ?thesis
    by (auto simp: in_map_def)
qed

lemma run_destroyed_inv:
  assumes inv: "server_inv w" and q: "w_queues w l = ConnectDestroyed cid # fs"
    and r: "run_functor k cbs mem (ConnectDestroyed cid) (w\<lparr>w_queues := (w_queues w)(l := fs)\<rparr>) = Inr w'"
  shows "server_inv w'"
proof -
  let ?w0 = "w\<lparr>w_queues := (w_queues w)(l := fs)\<rparr>"
  obtain co where co: "w_heap w cid = Some co" "l = co_loop co" "\<not> in_map cid co w" "co_state co = kDisconnected"
    "count_functor (ConnectEstablished cid) cid l w = 0" "count_functor (ConnectDestroyed cid) cid l w = 1"
    "count_functor (RemoveConnectionInLoop cid) cid (ts_loop (w_server w)) w = 0"
    using head_destroyed [OF inv q] by blast
  have "almost_inv cid ?w0" using pop_inv [OF inv q _ refl, of cid] by simp
  moreover have "life_at kDisconnected cid co ?w0"
    using co count_pop [OF q, of cid] by (simp add: life_at_def life_ok_def in_map_def)
  ultimately show ?thesis
    using destroy_inv [of cid ?w0 co] co(1,4) r by auto
qed

lemma run_removal_inv:
  assumes inv: "server_inv w" and q: "w_queues w l = RemoveConnectionInLoop cid # fs"
    and r: "run_functor k cbs mem (RemoveConnectionInLoop cid) (w\<lparr>w_queues := (w_queues w)(l := fs)\<rparr>) = Inr w'"
  shows "server_inv w'"
proof -
  let ?w0 = "w\<lparr>w_queues := (w_queues w)(l := fs)\<rparr>"
  obtain co where co: "w_heap w cid = Some co" "l = ts_loop (w_server w)" "in_map cid co w" "co_state co = kDisconnected"
    "count_functor (ConnectEstablished cid) cid (co_loop co) w = 0" "count_functor (ConnectDestroyed cid) cid (co_loop co) w = 0"
    "count_functor (RemoveConnectionInLoop cid) cid l w = 1"
    using head_removal [OF inv q] by blast
  have a: "almost_inv cid ?w0" using pop_inv [OF inv q _ refl, of cid] by simp
  have "closed_idle cid co ?w0"
    using co count_pop [OF q, of cid] by (simp add: closed_idle_def in_map_def)
  from removeConnectionInLoop_inv [OF a this] r
  obtain w1 where "server_inv w1" "w' = release cid w1" by auto
  then show ?thesis
    using release_inv [of cid w1] by (auto simp: settled_def server_inv_def almost_inv_def)
qed

lemma run_listen_inv:
  assumes inv: "server_inv w" and q: "w_queues w l = AcceptorListen # fs"
    and r: "run_listen k (w\<lparr>w_queues := (w_queues w)(l := fs)\<rparr>) = Inr w'"
  shows "server_inv w'"
proof -
  obtain ac p where w': "w' = w\<lparr>w_queues := (w_queues w)(l := fs), w_server := (w_server w)\<lparr>ts_acceptor := ac\<rparr>,
      w_pollers := (w_pollers w)(ts_loop (w_server w) := p)\<rparr>"
    using r by (auto simp: run_listen_def Let_def)
  have nomine: "mine c l' w' = mine c l' w" for c l'
    using q by (auto simp: mine_def w')
  have "queues_ok w'"
    by (rule queues_ok_weaken [of w])
       (use inv q in \<open>auto simp: server_inv_def world_inv_def w'\<close>)
  moreover have "connName (w_server w') i = connName (w_server w) i" for i
    by (simp add: connName_def w')
  ultimately have "world_inv w'"
    using inv by (simp add: server_inv_def world_inv_def map_ok_def names_ok_def ids_ok_def w')
  moreover have "life c co w' = life c co w \<and> held c co w' = held c co w" for c co
    using nomine life_cong [of c w' w co] by (simp add: w' in_map_def)
  ultimately show ?thesis
    using inv by (simp add: server_inv_def) (simp add: w')
qed

lemma owned_functor_idle: "owns g \<Longrightarrow> run_conn_functor k mem g e = Inr e"
  by (cases g) auto

lemma run_own_inv:
  assumes inv: "server_inv w" and q: "w_queues w l = ConnFunctor cid g # fs"
    and r: "run_functor k cbs mem (ConnFunctor cid g) (w\<lparr>w_queues := (w_queues w)(l := fs)\<rparr>) = Inr w'"
  shows "server_inv w'"
proof -
  let ?w0 = "w\<lparr>w_queues := (w_queues w)(l := fs)\<rparr>"
  obtain co where a: "almost_inv cid ?w0" "w_heap ?w0 cid = Some co" "life cid co w" "owns g"
    using pop_inv [OF inv q _ refl, of cid] by auto
  have "life_at (co_state co) cid co ?w0"
    using a(3) count_pop [OF q, of cid] by (simp add: life_def life_at_def in_map_def)
  moreover obtain w1 where w1: "on_conn (run_conn_functor k mem g) cid ?w0 = Inr w1" "w' = release cid w1"
    using r by auto
  moreover have "tc_state (te_conn e') = co_state co \<and> queued_own e e'"
    if "run_conn_functor k mem g e = Inr e'" "tc_state (te_conn e) = co_state co" for e e'
    using that owned_functor_idle [OF a(4), of k mem e] by simp
  ultimately have "settled cid w1"
    using on_conn_settled [OF a(1) w1(1) a(2), of "\<lambda>st. st = co_state co"] by blast
  then show ?thesis using release_inv w1(2) by blast
qed

lemma functor_inv:
  assumes "server_inv w" and "w_queues w l = f # fs"
    and "run_functor k cbs mem f (w\<lparr>w_queues := (w_queues w)(l := fs)\<rparr>) = Inr w'" and "cb_local (connectionCallback cbs)"
  shows "server_inv w'"
proof (cases f)
  case (ConnectEstablished cid)
  with assms show ?thesis using run_established_inv by blast
next
  case (ConnectDestroyed cid)
  with assms show ?thesis using run_destroyed_inv by blast
next
  case (RemoveConnectionInLoop cid)
  with assms show ?thesis using run_removal_inv by blast
next
  case AcceptorListen
  with assms show ?thesis using run_listen_inv by auto
next
  case (ConnFunctor cid g)
  with assms show ?thesis using run_own_inv by blast
qed

text \<open>A new connection: its name is new, and nothing in the queues mentions it.\<close>

lemma connName_inject:
  assumes "ids_ok s" and "1 \<le> i" "i < 2 ^ 31" and "1 \<le> j" "j < 2 ^ 31"
  shows "connName s i = connName s j \<longleftrightarrow> i = j"
proof -
  have "length (dec_int i) \<le> 11" "length (dec_int j) \<le> 11"
    using assms(2-5) by (auto intro!: length_dec_int)
  then have "connName s n = ts_name s @ ''-'' @ ts_ipPort s @ ''#'' @ dec_int n"
    if "n = i \<or> n = j" for n
    using assms(1) that by (auto simp: connName_def ids_ok_def)
  then have "connName s i = connName s j \<longleftrightarrow> dec_int i = dec_int j" by simp
  also have "\<dots> \<longleftrightarrow> i = j" using assms(2,4) by (auto simp: dec_int_def)
  finally show ?thesis .
qed

lemma connName_fresh:
  assumes "world_inv w" and "map_option co_name (w_heap w c) = Some n"
  shows "n \<noteq> connName (w_server w) (ts_nextConnId (w_server w))"
proof -
  obtain i where "1 \<le> i" "i < ts_nextConnId (w_server w)" "n = connName (w_server w) i"
    using assms unfolding world_inv_def names_ok_def by blast
  then show ?thesis
    using connName_inject [of "w_server w" i "ts_nextConnId (w_server w)"] assms(1)
    by (simp add: world_inv_def ids_ok_def)
qed

lemma add_conn_names:
  assumes w: "world_inv w" and s: "s = w_server w" and name: "name = connName s (ts_nextConnId s)" and cid: "cid = w_alloc w"
    and w1: "w1 = w\<lparr>w_server := s\<lparr>ts_pool := pool, ts_nextConnId := ts_nextConnId s + 1,
                       ts_connections := (ts_connections s)(name \<mapsto> cid)\<rparr>,
                    w_heap := (w_heap w)(cid \<mapsto> co), w_alloc := cid + 1\<rparr>"
    and co: "co_name co = name" and newname: "\<And>c. map_option co_name (w_heap w c) \<noteq> Some name"
  shows "names_ok w1"
  unfolding names_ok_def
proof (intro allI impI)
  have nc: "connName (w_server w1) i = connName s i" for i by (simp add: connName_def w1)
  fix c n
  assume n: "map_option co_name (w_heap w1 c) = Some n"
  show "c < w_alloc w1 \<and>
     (\<exists>i. 1 \<le> i \<and> i < ts_nextConnId (w_server w1) \<and> n = connName (w_server w1) i) \<and>
     (\<forall>c'. map_option co_name (w_heap w1 c') = Some n \<longrightarrow> c' = c)"
  proof (cases "c = cid")
    case True
    then have "n = name" using n co by (simp add: w1)
    moreover have "c' = cid" if "map_option co_name (w_heap w1 c') = Some name" for c'
      using that newname [of c'] by (auto simp: w1 split: if_splits)
    moreover have "1 \<le> ts_nextConnId s" using w s by (simp add: world_inv_def ids_ok_def)
    moreover have "w_alloc w1 = cid + 1" "ts_nextConnId (w_server w1) = ts_nextConnId s + 1"
      by (simp_all add: w1)
    ultimately show ?thesis
      using True nc [of "ts_nextConnId s"] name
      by (intro conjI exI [of _ "ts_nextConnId s"]) simp_all
  next
    case False
    then have o: "map_option co_name (w_heap w c) = Some n" using n by (simp add: w1)
    then obtain i where "c < w_alloc w" "1 \<le> i" "i < ts_nextConnId s" "n = connName s i"
      "\<forall>c'. map_option co_name (w_heap w c') = Some n \<longrightarrow> c' = c"
      using w s unfolding world_inv_def names_ok_def by blast
    moreover have "n \<noteq> name" using o newname by auto
    moreover have "w_heap w1 c' = (if c' = cid then Some co else w_heap w c')" for c'
      by (simp add: w1)
    moreover have "w_alloc w1 = w_alloc w + 1" "ts_nextConnId (w_server w1) = ts_nextConnId s + 1"
      using cid by (simp_all add: w1)
    ultimately show ?thesis using nc co by (auto split: if_splits)
  qed
qed

lemma add_conn_inv:
  assumes inv: "server_inv w" and id: "ts_nextConnId (w_server w) < 2 ^ 31 - 1"
    and s: "s = w_server w" and name: "name = connName s (ts_nextConnId s)" and cid: "cid = w_alloc w"
    and w1: "w1 = w\<lparr>w_server := s\<lparr>ts_pool := pool, ts_nextConnId := ts_nextConnId s + 1,
                       ts_connections := (ts_connections s)(name \<mapsto> cid)\<rparr>,
                    w_heap := (w_heap w)(cid \<mapsto> co), w_alloc := cid + 1\<rparr>"
    and co: "co_name co = name"
  shows "almost_inv cid w1" and "in_map cid co w1" and "mine cid l w1 = []"
proof -
  have w: "world_inv w" using inv by (simp add: server_inv_def)
  have fresh: "w_heap w cid = None"
    using w cid unfolding world_inv_def names_ok_def
    by (metis less_irrefl not_None_eq option.simps(9))
  have newname: "map_option co_name (w_heap w c) \<noteq> Some name" for c
    using connName_fresh [OF w, of c] name s by blast
  have nomention: "\<not> mentions cid f" if "f \<in> set (w_queues w l)" for f l
    using w that fresh unfolding world_inv_def queues_ok_def by fastforce
  have "map_ok w1"
    using w fresh co by (fastforce simp: world_inv_def map_ok_def w1 s)
  moreover have "queues_ok w1"
    unfolding queues_ok_def
  proof (intro allI impI)
    fix l f c
    assume f: "f \<in> set (w_queues w1 l)" "mentions c f"
    then have "c \<noteq> cid" using nomention by (auto simp: w1)
    then show "holds_ref f \<and> (\<exists>o'. w_heap w1 c = Some o' \<and> l = home o' (ts_loop (w_server w1)) f)"
      using w f unfolding world_inv_def queues_ok_def by (simp add: w1 s)
  qed
  moreover have "names_ok w1" by (rule add_conn_names [OF w s name cid w1 co newname])
  moreover have "ids_ok (w_server w1)"
    using w id s by (simp add: world_inv_def ids_ok_def w1)
  ultimately have "world_inv w1" by (simp add: world_inv_def)
  moreover have "life c o' w1 \<and> held c o' w1" if "w_heap w1 c = Some o'" "c \<noteq> cid" for c o'
  proof -
    have h: "w_heap w c = Some o'" using that by (simp add: w1)
    then have "co_name o' \<noteq> name" using newname [of c] by auto
    then have "in_map c o' w1 = in_map c o' w" by (simp add: in_map_def w1 s)
    then show ?thesis
      using inv h life_cong [of c w1 w o'] by (auto simp: server_inv_def w1 mine_def s)
  qed
  ultimately show "almost_inv cid w1" by (simp add: almost_inv_def)
  show "in_map cid co w1" using co by (simp add: in_map_def w1)
  show "mine cid l w1 = []" using nomention by (auto simp: mine_def filter_empty_conv w1)
qed

text \<open>The object of a new connection, and the world once the server knows it.\<close>

definition accepted_object :: "nat \<Rightarrow> int \<Rightarrow> 'c world \<Rightarrow> 'c conn_obj" where
  "accepted_object ioLoop sockfd w = \<lparr>co_name = connName (w_server w) (ts_nextConnId (w_server w)),
     co_loop = ioLoop, co_conn = (TcpConnection_new (w_alloc w) sockfd)\<lparr>tc_writeCompleteSet :=
       ts_writeCompleteSet (w_server w)\<rparr>, co_sent = [], co_shutdown = False\<rparr>"

definition with_connection :: "nat \<Rightarrow> thread_pool \<Rightarrow> int \<Rightarrow> 'c world \<Rightarrow> 'c world" where
  "with_connection ioLoop pool sockfd w =
     w\<lparr>w_server := (w_server w)\<lparr>ts_pool := pool, ts_nextConnId := ts_nextConnId (w_server w) + 1,
          ts_connections := (ts_connections (w_server w))
            (connName (w_server w) (ts_nextConnId (w_server w)) \<mapsto> w_alloc w)\<rparr>,
       w_heap := (w_heap w)(w_alloc w \<mapsto> accepted_object ioLoop sockfd w), w_alloc := w_alloc w + 1\<rparr>"

lemma newConnection_eq:
  "newConnection k cbs sockfd w = res_bind (getNextLoop (ts_pool (w_server w))) (\<lambda>(ioLoop, pool).
     if ts_nextConnId (w_server w) \<ge> 2 ^ 31 - 1 then Inl IntOverflow
     else if ioLoop = ts_loop (w_server w)
       then run_connectEstablished k cbs (w_alloc w) (with_connection ioLoop pool sockfd w)
     else Inr (post ioLoop (ConnectEstablished (w_alloc w)) (with_connection ioLoop pool sockfd w)))"
  by (simp add: newConnection_def with_connection_def accepted_object_def Let_def cong: if_cong)

lemma newConnection_split:
  assumes "newConnection k cbs sockfd w = Inr w'"
  obtains ioLoop pool where "getNextLoop (ts_pool (w_server w)) = Inr (ioLoop, pool)"
    and "ts_nextConnId (w_server w) < 2 ^ 31 - 1"
    and "ioLoop = ts_loop (w_server w) \<longrightarrow>
      run_connectEstablished k cbs (w_alloc w) (with_connection ioLoop pool sockfd w) = Inr w'"
    and "ioLoop \<noteq> ts_loop (w_server w) \<longrightarrow>
      w' = post ioLoop (ConnectEstablished (w_alloc w)) (with_connection ioLoop pool sockfd w)"
  using assms unfolding newConnection_eq by (auto split: if_splits)

lemma with_connection_object:
  "w_heap (with_connection ioLoop pool sockfd w) = (w_heap w)(w_alloc w \<mapsto> accepted_object ioLoop sockfd w)"
  "w_pollers (with_connection ioLoop pool sockfd w) = w_pollers w"
  "co_loop (accepted_object ioLoop sockfd w) = ioLoop"
  "co_state (accepted_object ioLoop sockfd w) = kconnecting"
  by (simp_all add: with_connection_def accepted_object_def co_state_def TcpConnection_new_def)

lemma newConnection_inv:
  assumes inv: "server_inv w" and r: "newConnection k cbs sockfd w = Inr w'"
    and cb: "cb_local (connectionCallback cbs)"
  shows "server_inv w'"
proof -
  obtain ioLoop pool where "getNextLoop (ts_pool (w_server w)) = Inr (ioLoop, pool)"
    and id: "ts_nextConnId (w_server w) < 2 ^ 31 - 1"
    and base: "ioLoop = ts_loop (w_server w) \<longrightarrow>
      run_connectEstablished k cbs (w_alloc w) (with_connection ioLoop pool sockfd w) = Inr w'"
    and other: "ioLoop \<noteq> ts_loop (w_server w) \<longrightarrow>
      w' = post ioLoop (ConnectEstablished (w_alloc w)) (with_connection ioLoop pool sockfd w)"
    using r by (rule newConnection_split)
  define w1 where "w1 = with_connection ioLoop pool sockfd w"
  let ?co = "accepted_object ioLoop sockfd w" and ?cid = "w_alloc w"
  have n: "co_name ?co = connName (w_server w) (ts_nextConnId (w_server w))" by (simp add: accepted_object_def)
  note add = add_conn_inv [OF inv id refl refl refl w1_def [unfolded with_connection_def] n]
  have h: "w_heap w1 ?cid = Some ?co" by (simp add: w1_def with_connection_object)
  show ?thesis
  proof (cases "ioLoop = ts_loop (w_server w)")
    case True
    then show ?thesis
      using establish_inv [OF add(1) h add(2) _ _ _ _ cb, of k w'] base add(3)
      by (simp add: count_functor_def w1_def)
  next
    case False
    then have w': "w' = post ioLoop (ConnectEstablished ?cid) w1" using other by (simp add: w1_def)
    have "almost_inv ?cid w'"
      using post_inv [OF add(1) h, of "ConnectEstablished ?cid"] w' by (simp add: with_connection_object)
    moreover have "life ?cid ?co w'" "held ?cid ?co w'"
      using add(2,3) by (simp_all add: w' life_def life_ok_def count_functor_def mine_post
          in_map_def held_def with_connection_object)
    ultimately show ?thesis
      using settled_held [of ?cid w' ?co] h by (simp add: settled_def w')
  qed
qed

interpretation srv: inductive_invariant "server_init :: 'c world \<Rightarrow> bool"
  "\<lambda>w w'. cbs_local cbs \<and> server_step k cbs mem w w'" server_inv
  for k mem and cbs :: "'c conn_callbacks"
proof
  show "server_inv w" if "server_init w" for w :: "'c world"
  proof -
    have "\<not> mentions c f" if "f \<in> set (w_queues w l)" for c f l
      using \<open>server_init w\<close> that by (cases f) (auto simp: server_init_def)
    then show ?thesis
      using that by (auto simp: server_init_def server_inv_def world_inv_def map_ok_def queues_ok_def
          names_ok_def ids_ok_def)
  qed
  show "server_inv t" if "server_inv s" "cbs_local cbs \<and> server_step k cbs mem s t"
    for s t :: "'c world"
  proof -
    have cbs: "cbs_local cbs" and st: "server_step k cbs mem s t" using that(2) by auto
    then have cb: "cb_local (connectionCallback cbs)" by (simp add: cbs_local_def)
    from st show ?thesis
    proof cases
      case (step_accept answer)
      then show ?thesis
        using that(1) newConnection_inv [OF that(1) _ cb]
        by (auto simp: Acceptor_handleRead_def split: sum.splits)
    next
      case (step_functor l f fs)
      then show ?thesis using functor_inv [OF that(1) _ _ cb] by blast
    next
      case (step_output cid co evs)
      then show ?thesis using output_inv [OF that(1)] by blast
    next
      case (step_close cid co)
      then show ?thesis using close_inv [OF that(1) _ _ _ cbs] by blast
    next
      case (step_read cid co readv now)
      then show ?thesis using read_inv [OF that(1) _ _ _ cbs] by blast
    qed
  qed
qed

text \<open>The last steps of a connection.\<close>

lemma on_conn_destroy:
  assumes "w_heap w cid = Some co" and "co_state co = kDisconnected"
  shows "\<exists>w' co'. on_conn (connectDestroyed k cbs) cid w = Inr w' \<and> w_queues w' = w_queues w \<and>
    w_server w' = w_server w \<and> w_heap w' cid = Some co' \<and> co_name co' = co_name co \<and>
    co_loop co' = co_loop co"
  using assms
  by (auto simp: on_conn_def connectDestroyed_def conn_env_def co_state_def on_channel_def
      removeChannel_def epoll_update_def Let_def store_env_def)

lemma last_removal:
  assumes inv: "server_inv w" and q: "w_queues w (ts_loop (w_server w)) = RemoveConnectionInLoop cid # fs"
    and h: "w_heap w cid = Some co" and other: "co_loop co \<noteq> ts_loop (w_server w)"
  shows "list_all (\<lambda>f. \<not> mentions cid f) fs"
proof (rule ccontr)
  let ?base = "ts_loop (w_server w)"
  assume "\<not> ?thesis"
  then obtain f where f: "f \<in> set fs" "mentions cid f" by (auto simp: list_all_iff)
  then have "\<exists>co. w_heap w cid = Some co \<and> ?base = home co ?base f"
    using inv q unfolding server_inv_def world_inv_def queues_ok_def
    by (metis list.set_intros(2))
  then have "f = RemoveConnectionInLoop cid" using h other f(2) by (cases f) auto
  then have "count_functor (RemoveConnectionInLoop cid) cid ?base w \<ge> 2"
    using f(1) q count_list_0_iff [of "filter (mentions cid) fs" f]
    by (auto simp: count_functor_def mine_def Suc_le_eq)
  moreover have "life cid co w" using inv h by (simp add: server_inv_def)
  ultimately show False by (simp add: life_def life_ok_def)
qed

section \<open>Properties\<close>

text \<open>
  C5: no connection is used after it is freed, lost or torn down twice. In every
  interleaving of the base loop and the connections' loops, every queued functor refers
  to a live connection object and keeps it alive; the map of the server only holds live
  objects under their own names; a connection waits for \<open>connectEstablished\<close> exactly
  once, until it is established; at most one of removal and destruction is ever pending;
  a connection out of the map is closed, and a closed one in the map has its removal
  pending; and every object is still referenced (none leaks).
\<close>

theorem server_connections_safe:
  assumes "cbs_local cbs"
    and "reach server_init (\<lambda>w w'. cbs_local cbs \<and> server_step k cbs mem w w') w"
  shows "(\<forall>l f cid. f \<in> set (w_queues w l) \<longrightarrow> mentions cid f \<longrightarrow> holds_ref f \<and> w_heap w cid \<noteq> None) \<and>
    (\<forall>n cid. ts_connections (w_server w) n = Some cid \<longrightarrow>
       map_option co_name (w_heap w cid) = Some n) \<and>
    (\<forall>cid co. w_heap w cid = Some co \<longrightarrow>
       count_list (w_queues w (co_loop co)) (ConnectEstablished cid) =
         (if co_state co = kconnecting then 1 else 0) \<and>
       count_list (w_queues w (ts_loop (w_server w))) (RemoveConnectionInLoop cid) +
         count_list (w_queues w (co_loop co)) (ConnectDestroyed cid) \<le> 1 \<and>
       (\<not> in_map cid co w \<longrightarrow> co_state co = kDisconnected) \<and>
       (in_map cid co w \<and> co_state co = kDisconnected \<longrightarrow>
          RemoveConnectionInLoop cid \<in> set (w_queues w (ts_loop (w_server w)))) \<and>
       held cid co w)"
proof -
  have inv: "server_inv w" using srv.reach_inv [OF assms(2)] .
  have c: "count_functor f cid l w = count_list (w_queues w l) f" if "mentions cid f" for f cid l
    using that by (simp add: count_functor_def mine_def count_list_filter_mentions)
  have "(\<forall>l f cid. f \<in> set (w_queues w l) \<longrightarrow> mentions cid f \<longrightarrow> holds_ref f \<and> w_heap w cid \<noteq> None)"
    using inv unfolding server_inv_def world_inv_def queues_ok_def by (metis option.distinct(1))
  moreover have "map_ok w" using inv by (simp add: server_inv_def world_inv_def)
  moreover have "count_list (w_queues w (co_loop co)) (ConnectEstablished cid) =
         (if co_state co = kconnecting then 1 else 0) \<and>
       count_list (w_queues w (ts_loop (w_server w))) (RemoveConnectionInLoop cid) +
         count_list (w_queues w (co_loop co)) (ConnectDestroyed cid) \<le> 1 \<and>
       (\<not> in_map cid co w \<longrightarrow> co_state co = kDisconnected) \<and>
       (in_map cid co w \<and> co_state co = kDisconnected \<longrightarrow>
          RemoveConnectionInLoop cid \<in> set (w_queues w (ts_loop (w_server w)))) \<and>
       held cid co w" if "w_heap w cid = Some co" for cid co
  proof -
    have l: "life cid co w" "held cid co w" using inv that by (auto simp: server_inv_def)
    moreover have "RemoveConnectionInLoop cid \<in> set (w_queues w (ts_loop (w_server w)))"
      if "in_map cid co w" "co_state co = kDisconnected"
      using l(1) that c count_list_0_iff [of "w_queues w (ts_loop (w_server w))" "RemoveConnectionInLoop cid"]
      by (auto simp: life_def life_ok_def)
    ultimately show ?thesis by (auto simp: life_def life_ok_def c)
  qed
  ultimately show ?thesis by (simp add: map_ok_def)
qed

text \<open>A world with a started server of three loops, and one with a closed connection.\<close>

definition demo_server :: tcp_server where
  "demo_server = (TcpServer_new 0 1 3 \<lparr>sin_port = (31, 144), sin_addr = (127, 0, 0, 1)\<rparr> ''web'' False)
     \<lparr>ts_pool := (EventLoopThreadPool_new 0 ''web'')\<lparr>tp_numThreads := 2, tp_loops := [7, 8]\<rparr>\<rparr>"

definition demo_world :: "'c world" where
  "demo_world = \<lparr>w_server = demo_server, w_heap = Map.empty, w_alloc = 10,
     w_pollers = (\<lambda>l. EPollPoller_new), w_queues = (\<lambda>l. [])\<rparr>"

lemma demo_world_init: "server_init demo_world"
  using length_toIpPort [of "\<lparr>sin_port = (31, 144), sin_addr = (127, 0, 0, 1)\<rparr>"]
  by (simp add: server_init_def demo_world_def demo_server_def TcpServer_new_def)

lemma quiet_callbacks_local: "cbs_local quiet_callbacks"
  by (simp add: cbs_local_def cb_local_def quiet_callbacks_def)

definition demo_object :: "'c conn_obj" where
  "demo_object = \<lparr>co_name = connName demo_server 1, co_loop = 7,
     co_conn = TcpConnection_new 10 5, co_sent = [], co_shutdown = False\<rparr>"

definition demo_accepted :: "'c world" where
  "demo_accepted = demo_world\<lparr>
     w_server := demo_server\<lparr>ts_pool := (ts_pool demo_server)\<lparr>tp_next := 1\<rparr>, ts_nextConnId := 2,
       ts_connections := [connName demo_server 1 \<mapsto> 10]\<rparr>,
     w_heap := [10 \<mapsto> demo_object], w_alloc := 11,
     w_queues := (\<lambda>l. if l = 7 then [ConnectEstablished 10] else [])\<rparr>"

lemma demo_accepts:
  "newConnection k cbs 5 demo_world = Inr demo_accepted"
  by (simp add: newConnection_def demo_world_def demo_accepted_def demo_server_def TcpServer_new_def
      getNextLoop_def EventLoopThreadPool_new_def post_def Let_def fun_eq_iff
      TcpConnection_new_def demo_object_def connName_def)

lemma demo_accepted_reachable:
  "reach server_init (\<lambda>w w'. cbs_local quiet_callbacks \<and>
     server_step slow_kernel quiet_callbacks (\<lambda>p n. []) w w') demo_accepted"
proof (rule reach_step [OF reach_init [of server_init demo_world]])
  have "Acceptor_handleRead slow_kernel quiet_callbacks (Inr 5) demo_world = Inr demo_accepted"
    by (simp add: Acceptor_handleRead_def demo_accepts)
  then show "cbs_local quiet_callbacks \<and>
      server_step slow_kernel quiet_callbacks (\<lambda>p n. []) demo_world demo_accepted"
    using quiet_callbacks_local step_accept by blast
qed (rule demo_world_init)

theorem server_connections_safe_witness:
  "map_option co_name (w_heap (demo_accepted :: unit world) 10) = Some (co_name (demo_object :: unit conn_obj)) \<and>
   count_list (w_queues (demo_accepted :: unit world) 7) (ConnectEstablished 10) = 1 \<and> held 10 demo_object (demo_accepted :: unit world)"
proof -
  note safe = server_connections_safe [OF quiet_callbacks_local demo_accepted_reachable]
  have h: "w_heap (demo_accepted :: unit world) 10 = Some demo_object" and l: "co_loop (demo_object :: unit conn_obj) = 7"
    and st: "co_state (demo_object :: unit conn_obj) = kconnecting"
    by (simp_all add: demo_accepted_def demo_object_def co_state_def TcpConnection_new_def)
  from safe h have "count_list (w_queues (demo_accepted :: unit world) (co_loop (demo_object :: unit conn_obj))) (ConnectEstablished 10) =
      (if co_state (demo_object :: unit conn_obj) = kconnecting then 1 else 0) \<and> held 10 demo_object (demo_accepted :: unit world)"
    by blast
  with h show ?thesis by (simp add: l st)
qed

text \<open>
  Connections do not clash. In every reachable state, the next accepted connection
  gets a name that no live connection has and that is not in the map, so the insertion
  overwrites nothing; it is in the map under this name afterwards, and until the 32-bit
  counter is exhausted accepting fails only if the pool, epoll or the user's callback does.
\<close>

theorem newConnection_fresh_name:
  assumes "cbs_local cbs"
    and "reach server_init (\<lambda>w w'. cbs_local cbs \<and> server_step k cbs mem w w') w"
    and "newConnection k cbs sockfd w = Inr w'"
  shows "ts_connections (w_server w) (connName (w_server w) (ts_nextConnId (w_server w))) = None \<and>
    (\<forall>cid co. w_heap w cid = Some co \<longrightarrow>
       co_name co \<noteq> connName (w_server w) (ts_nextConnId (w_server w))) \<and>
    ts_connections (w_server w') = (ts_connections (w_server w))
      (connName (w_server w) (ts_nextConnId (w_server w)) \<mapsto> w_alloc w)"
proof -
  let ?n = "connName (w_server w) (ts_nextConnId (w_server w))"
  have w: "world_inv w" using srv.reach_inv [OF assms(2)] by (simp add: server_inv_def)
  have new: "map_option co_name (w_heap w c) \<noteq> Some ?n" for c
    using connName_fresh [OF w, of c] by blast
  then have "ts_connections (w_server w) ?n = None"
    using w unfolding world_inv_def map_ok_def by (metis not_None_eq)
  moreover have "co_name co \<noteq> ?n" if "w_heap w cid = Some co" for cid co
    using new [of cid] that by auto
  moreover have "ts_connections (w_server w') = (ts_connections (w_server w))(?n \<mapsto> w_alloc w)"
    using assms(3)
    by (auto simp: newConnection_def Let_def run_connectEstablished_def on_conn_def store_env_def
        split: if_splits)
  ultimately show ?thesis by blast
qed

theorem newConnection_fresh_name_witness:
  "\<exists>w'. newConnection slow_kernel quiet_callbacks 6 demo_accepted = Inr w' \<and>
     ts_connections (w_server (demo_accepted :: unit world))
       (connName (w_server (demo_accepted :: unit world)) (ts_nextConnId (w_server (demo_accepted :: unit world)))) = None \<and>
     ts_connections (w_server w') = (ts_connections (w_server (demo_accepted :: unit world)))
      (connName (w_server (demo_accepted :: unit world)) (ts_nextConnId (w_server (demo_accepted :: unit world))) \<mapsto> 11)"
proof -
  have a: "w_alloc (demo_accepted :: unit world) = 11" by (simp add: demo_accepted_def)
  have "\<exists>w'. newConnection slow_kernel quiet_callbacks 6 demo_accepted = Inr w'"
    by (simp add: newConnection_def demo_accepted_def demo_world_def demo_server_def TcpServer_new_def
        getNextLoop_def EventLoopThreadPool_new_def Let_def)
  then obtain w' where "newConnection slow_kernel quiet_callbacks 6 demo_accepted = Inr w'" by blast
  with newConnection_fresh_name [OF quiet_callbacks_local demo_accepted_reachable this] a
  show ?thesis by auto
qed

text \<open>
  A closed connection is released. When the removal of a connection has come to the
  head of the base loop's queue, running it erases the connection from the map and hands
  the connection to its own loop; once that loop has run what was queued before, running
  the destruction there cannot fail and frees the object, whose name is then free too.
\<close>

theorem closed_connection_is_released:
  assumes "reach server_init (\<lambda>w w'. cbs_local cbs \<and> server_step k cbs mem w w') w"
    and "w_queues w (ts_loop (w_server w)) = RemoveConnectionInLoop cid # fs"
    and "w_heap w cid = Some co" and "co_loop co \<noteq> ts_loop (w_server w)"
    and "w_queues w (co_loop co) = []"
  shows "\<exists>w1 w2. run_functor k cbs mem (RemoveConnectionInLoop cid)
        (w\<lparr>w_queues := (w_queues w)(ts_loop (w_server w) := fs)\<rparr>) = Inr w1 \<and>
      w_queues w1 (co_loop co) = [ConnectDestroyed cid] \<and>
      run_functor k cbs mem (ConnectDestroyed cid)
        (w1\<lparr>w_queues := (w_queues w1)(co_loop co := [])\<rparr>) = Inr w2 \<and>
      w_heap w2 cid = None \<and> ts_connections (w_server w2) (co_name co) = None"
proof -
  let ?base = "ts_loop (w_server w)"
  let ?w0 = "w\<lparr>w_queues := (w_queues w)(?base := fs)\<rparr>"
  let ?w1 = "post (co_loop co) (ConnectDestroyed cid) (erase co ?w0)"
  have inv: "server_inv w" using srv.reach_inv [OF assms(1)] .
  have m: "mentions cid (RemoveConnectionInLoop cid)" by simp
  have "count_functor (RemoveConnectionInLoop cid) cid ?base w > 0"
    using assms(2) by (simp add: count_functor_def mine_def)
  moreover have "life cid co w" using inv assms(3) by (simp add: server_inv_def)
  ultimately have st: "co_state co = kDisconnected"
    by (auto simp: life_def life_ok_def split: if_splits)
  have rest: "filter (mentions cid) fs = []"
    using last_removal [OF inv assms(2,3,4)] by (simp add: list_all_iff filter_empty_conv)
  have "held cid co ?w1" by (simp add: held_def mine_post)
  then have r1: "run_functor k cbs mem (RemoveConnectionInLoop cid) ?w0 = Inr ?w1"
    using assms(3) by (simp add: removeConnectionInLoop_def erase_def [symmetric] release_def)
  have q1: "w_queues ?w1 (co_loop co) = [ConnectDestroyed cid]"
    using assms(4,5) by (simp add: post_def)
  let ?w1' = "?w1\<lparr>w_queues := (w_queues ?w1)(co_loop co := [])\<rparr>"
  have h1: "w_heap ?w1' cid = Some co" using assms(3) by simp
  obtain w2 co2 where w2: "on_conn (connectDestroyed k cbs) cid ?w1' = Inr w2"
    "w_queues w2 = w_queues ?w1'" "w_server w2 = w_server ?w1'" "w_heap w2 cid = Some co2"
    "co_name co2 = co_name co" "co_loop co2 = co_loop co"
    using on_conn_destroy [OF h1 st, of k cbs] by blast
  have "\<not> held cid co2 w2"
    using w2 rest assms(4)
    by (simp add: held_def in_map_def mine_def post_def erase_def set_server_def)
  then have "run_functor k cbs mem (ConnectDestroyed cid) ?w1' =
      Inr (w2\<lparr>w_heap := (w_heap w2)(cid := None)\<rparr>)"
    using w2 by (simp add: release_def)
  moreover have "ts_connections (w_server w2) (co_name co) = None"
    using w2(3) by (simp add: erase_def set_server_def)
  ultimately show ?thesis using r1 q1 by auto
qed

definition demo_up :: "unit world" where
  "demo_up = projr (run_functor slow_kernel quiet_callbacks (\<lambda>p n. []) (ConnectEstablished 10)
     (demo_accepted\<lparr>w_queues := (w_queues (demo_accepted :: unit world))(7 := [])\<rparr>))"

definition demo_closed :: "unit world" where
  "demo_closed = projr (peer_closed slow_kernel quiet_callbacks 10 demo_up)"

lemmas demo_eval = demo_accepted_def demo_world_def demo_object_def demo_server_def TcpServer_new_def
  EventLoopThreadPool_new_def run_connectEstablished_def on_conn_def conn_env_def store_env_def
  connectEstablished_def Let_def setState_def on_channel_def enableReading_def updateChannel_def
  epoll_update_def TcpConnection_new_def Channel_new_def tie_def EPollPoller_new_def slow_kernel_def
  ctl_legal_def interest_def quiet_callbacks_def release_def held_def in_map_def index_consts
  isNoneEvent_def kNoneEvent_def

lemma demo_up_eq: "run_functor slow_kernel quiet_callbacks (\<lambda>p n. []) (ConnectEstablished 10)
     (demo_accepted\<lparr>w_queues := (w_queues (demo_accepted :: unit world))(7 := [])\<rparr>) = Inr demo_up"
  by (simp add: demo_up_def demo_eval)

lemma demo_up_heap:
  "\<exists>co. w_heap demo_up 10 = Some co \<and> co_state co = kConnected \<and> co_loop co = 7"
  by (simp add: demo_up_def demo_eval co_state_def)

lemma demo_closed_eq: "peer_closed slow_kernel quiet_callbacks 10 demo_up = Inr demo_closed"
  by (simp add: demo_closed_def demo_up_def demo_eval peer_closed_def handleClose_def disableAll_def
      removeConnection_def)

lemma demo_closed_fields:
  "w_queues demo_closed 0 = [RemoveConnectionInLoop 10]" "w_queues demo_closed 7 = []"
  "ts_loop (w_server demo_closed) = 0"
  "\<exists>co. w_heap demo_closed 10 = Some co \<and> co_loop co = 7 \<and> co_name co = connName demo_server 1"
  by (simp_all add: demo_closed_def demo_up_def demo_eval peer_closed_def handleClose_def
      disableAll_def removeConnection_def post_def)

lemma demo_closed_reachable:
  "reach server_init (\<lambda>w w'. cbs_local quiet_callbacks \<and>
     server_step slow_kernel quiet_callbacks (\<lambda>p n. []) w w') demo_closed"
proof -
  have "w_queues (demo_accepted :: unit world) 7 = [ConnectEstablished 10]" by (simp add: demo_accepted_def)
  then have "server_step slow_kernel quiet_callbacks (\<lambda>p n. []) demo_accepted demo_up"
    using demo_up_eq step_functor by blast
  moreover have "server_step slow_kernel quiet_callbacks (\<lambda>p n. []) demo_up demo_closed"
    using demo_up_heap demo_closed_eq step_close by (metis conn_up_def)
  ultimately show ?thesis
    using quiet_callbacks_local
    by (intro reach_step [OF reach_step [OF demo_accepted_reachable, of demo_up]]) auto
qed

theorem closed_connection_is_released_witness:
  "\<exists>w1 w2. run_functor slow_kernel quiet_callbacks (\<lambda>p n. []) (RemoveConnectionInLoop 10)
        (demo_closed\<lparr>w_queues := (w_queues demo_closed)(0 := [])\<rparr>) = Inr w1 \<and>
      w_queues w1 7 = [ConnectDestroyed 10] \<and>
      run_functor slow_kernel quiet_callbacks (\<lambda>p n. []) (ConnectDestroyed 10)
        (w1\<lparr>w_queues := (w_queues w1)(7 := [])\<rparr>) = Inr w2 \<and>
      w_heap w2 10 = None \<and> ts_connections (w_server w2) (connName demo_server 1) = None"
proof -
  obtain co where co: "w_heap demo_closed 10 = Some co" "co_loop co = 7"
    "co_name co = connName demo_server 1"
    using demo_closed_fields(4) by blast
  with closed_connection_is_released [OF demo_closed_reachable, of 10 "[]" co] demo_closed_fields(1-3)
  show ?thesis by simp
qed

end
