(* ===== verification/Http_Server.thy ===== *)
theory Http_Server
  imports Http_Response Tcp_Server
begin

text \<open>
  The class \<open>HttpServer\<close> (\<open>src/include/HttpServer.h\<close>, \<open>src/src/http/HttpServer.cpp\<close>):
  it attaches a parser to every connection, answers a request with the response that the
  user's callback fills in, and closes the connection when the request asks for it.

  The handlers are those of a connection whose context is an \<open>http_context\<close>, run in the
  thread of its loop. \<open>onMessage\<close> calls \<open>parseRequest\<close>, so its result is \<open>None\<close> where the
  parser does not return.
\<close>

section \<open>Operations\<close>

type_synonym http_callback = "http_request \<Rightarrow> http_response \<Rightarrow> http_response"

type_synonym http_env = "http_context tcp_env"

record http_server =
  hs_server :: tcp_server
  hs_httpCallback :: http_callback

definition defaultHttpCallback :: http_callback where
  "defaultHttpCallback req resp =
     setCloseConnection True (setStatusMessage ''Not Found'' (setStatusCode k404NotFound resp))"

definition HttpServer_new :: "nat \<Rightarrow> nat \<Rightarrow> int \<Rightarrow> inet_address \<Rightarrow> string \<Rightarrow> http_server" where
  "HttpServer_new loop a sockfd listenAddr name =
     \<lparr>hs_server = TcpServer_new loop a sockfd listenAddr name False,
      hs_httpCallback = defaultHttpCallback\<rparr>"

definition setHttpCallback :: "http_callback \<Rightarrow> http_server \<Rightarrow> http_server" where
  "setHttpCallback cb h = h\<lparr>hs_httpCallback := cb\<rparr>"

definition hs_setThreadNum :: "int \<Rightarrow> http_server \<Rightarrow> http_server" where
  "hs_setThreadNum n h = h\<lparr>hs_server := setThreadNum n (hs_server h)\<rparr>"

definition onConnection :: "http_env \<Rightarrow> http_env res" where
  "onConnection e = (if connected (te_conn e) then Inr (setContext HttpContext_new e) else Inr e)"

definition onRequest :: "kernel \<Rightarrow> http_callback \<Rightarrow> http_request \<Rightarrow> http_env \<Rightarrow> http_env res" where
  "onRequest k httpCallback req e =
     (let connection = getHeader ''Connection'' req;
          close = (connection = ''close'' \<or>
                   (req_version req = kHttp10 \<and> connection \<noteq> ''Keep-Alive''));
          response = httpCallback req (HttpResponse_new close);
          buf = appendToBuffer response (Buffer_new 2024)
      in res_bind (retrieveAllAsString buf) (\<lambda>(msg, buf').
           res_bind (send k True 0 msg e) (\<lambda>e1.
             Inr (if resp_closeConnection response then shutdown True e1 else e1))))"

definition bad_request :: string where
  "bad_request = ''HTTP/1.1 400 Bad Request'' @ crlf @ crlf"

definition onMessage ::
    "kernel \<Rightarrow> http_callback \<Rightarrow> int \<Rightarrow> http_env \<Rightarrow> http_env res option" where
  "onMessage k httpCallback receiveTime e =
     (case tc_context (te_conn e) of
        None \<Rightarrow> Some (Inl BadPointer)
      | Some context \<Rightarrow>
          (case parseRequest receiveTime context (tc_input (te_conn e)) of
             None \<Rightarrow> None
           | Some (Inl err) \<Rightarrow> Some (Inl err)
           | Some (Inr (ok, context', buf)) \<Rightarrow>
               (let e1 = e\<lparr>te_conn := (te_conn e)\<lparr>tc_context := Some context', tc_input := buf\<rparr>\<rparr>
                in Some (res_bind
                     (if \<not> ok then res_bind (send k True 0 bad_request e1)
                                     (\<lambda>e2. Inr (shutdown True e2))
                      else Inr e1)
                     (\<lambda>e3. if gotAll context'
                           then res_bind (onRequest k httpCallback (ctx_request context') e3)
                                  (\<lambda>e4. Inr (setContext (reset context') e4))
                           else Inr e3)))))"

text \<open>The bytes of a segment arrive in the input buffer, and the handler is called.\<close>

definition receive ::
    "kernel \<Rightarrow> http_callback \<Rightarrow> int \<times> string \<Rightarrow> http_env \<Rightarrow> http_env res option" where
  "receive k cb seg e =
     onMessage k cb (fst seg)
       (e\<lparr>te_conn := (te_conn e)\<lparr>tc_input := append (snd seg) (tc_input (te_conn e))\<rparr>\<rparr>)"

fun receive_all ::
    "kernel \<Rightarrow> http_callback \<Rightarrow> (int \<times> string) list \<Rightarrow> http_env \<Rightarrow> http_env res option" where
  "receive_all k cb [] e = Some (Inr e)"
| "receive_all k cb (seg # segs) e =
     (case receive k cb seg e of
        None \<Rightarrow> None
      | Some (Inl err) \<Rightarrow> Some (Inl err)
      | Some (Inr e') \<Rightarrow> receive_all k cb segs e')"

section \<open>Specification\<close>

definition wants_close :: "http_request \<Rightarrow> bool" where
  "wants_close req \<longleftrightarrow> getHeader ''Connection'' req = ''close'' \<or>
     req_version req = kHttp10 \<and> getHeader ''Connection'' req \<noteq> ''Keep-Alive''"

definition response_of :: "http_callback \<Rightarrow> http_request \<Rightarrow> http_response" where
  "response_of cb req = cb req (HttpResponse_new (wants_close req))"

definition response_bytes :: "http_callback \<Rightarrow> http_request \<Rightarrow> string" where
  "response_bytes cb req = peek_range (appendToBuffer (response_of cb req) (Buffer_new 2024))"

text \<open>What the handler does to the connection, as events of its output path.\<close>

definition reply_events :: "http_callback \<Rightarrow> bool \<Rightarrow> http_context \<Rightarrow> conn_event list" where
  "reply_events cb ok c =
     (if \<not> ok then [EvSend bad_request, EvShutdown] else []) @
     (if gotAll c then EvSend (response_bytes cb (ctx_request c)) #
        (if resp_closeConnection (response_of cb (ctx_request c)) then [EvShutdown] else [])
      else [])"

text \<open>A connection that the server can answer on, and the bytes it has received and sent.\<close>

definition http_live :: "http_env \<Rightarrow> bool" where
  "http_live e \<longleftrightarrow> conn_live e \<and> (\<exists>c. tc_context (te_conn e) = Some c \<and> ctx_parsing c)"

definition inputBytes :: "http_env \<Rightarrow> string" where
  "inputBytes e = peek_range (tc_input (te_conn e))"

definition streamOut :: "http_env \<Rightarrow> string" where
  "streamOut e = te_sent e @ outputBytes e"

definition kernel_ok :: "kernel \<Rightarrow> bool" where
  "kernel_ok k \<longleftrightarrow> ctl_honest (kn_ctl k) \<and> write_fits k \<and> write_no_reset k"

section \<open>Lemmas\<close>

subsection \<open>The output path leaves the input path alone\<close>

definition same_input :: "'c tcp_env \<Rightarrow> 'c tcp_env \<Rightarrow> bool" where
  "same_input e e' \<longleftrightarrow> tc_input (te_conn e') = tc_input (te_conn e) \<and>
     tc_context (te_conn e') = tc_context (te_conn e)"

lemma on_channel_input: "on_channel f e = Inr e' \<Longrightarrow> same_input e e'"
  by (auto simp: on_channel_def same_input_def)

lemma buffer_rest_input: "buffer_rest k d e = Inr e' \<Longrightarrow> same_input e e'"
  by (auto simp: buffer_rest_def Let_def same_input_def env_defs split: if_splits
      dest!: on_channel_input)

lemma direct_write_input: "direct_write k d e = (n, b, e') \<Longrightarrow> same_input e e'"
  by (auto simp: direct_write_def Let_def same_input_def env_defs split: if_splits sum.splits)

lemma sendInLoop_input: "sendInLoop k d e = Inr e' \<Longrightarrow> same_input e e'"
  by (auto simp: sendInLoop_def Let_def split: if_splits prod.splits
      dest!: buffer_rest_input direct_write_input) (auto simp: same_input_def)

lemma handleWrite_input: "handleWrite k e = Inr e' \<Longrightarrow> same_input e e'"
  by (auto simp: handleWrite_def Let_def shutdownInLoop_def env_defs same_input_def
      split: if_splits sum.splits dest!: on_channel_input)

lemma conn_exec_input: "conn_exec k ev e = Inr e' \<Longrightarrow> same_input e e'"
proof (cases ev)
  case (EvSend d)
  then show "conn_exec k ev e = Inr e' \<Longrightarrow> same_input e e'"
    using sendInLoop_input by (auto simp: send_def same_input_def split: if_splits)
next
  case EvShutdown
  then show "conn_exec k ev e = Inr e' \<Longrightarrow> same_input e e'"
    by (auto simp: shutdown_def shutdownInLoop_def Let_def env_defs same_input_def split: if_splits)
qed (simp add: handleWrite_input)

lemma conn_run_input: "conn_run k evs e = Inr e' \<Longrightarrow> same_input e e'"
proof (induction evs arbitrary: e)
  case (Cons ev evs)
  then obtain e1 where "conn_exec k ev e = Inr e1" "conn_run k evs e1 = Inr e'" by auto
  with conn_exec_input Cons.IH show ?case unfolding same_input_def by metis
qed (simp add: same_input_def)

lemma conn_run_append:
  "conn_run k (xs @ ys) e = res_bind (conn_run k xs e) (conn_run k ys)"
proof (induction xs arbitrary: e)
  case (Cons x xs)
  then show ?case by (cases "conn_exec k x e") auto
qed simp

lemma conn_run_last [simp]:
  "conn_run k [EvShutdown] = (\<lambda>e. Inr (shutdown True e))" "conn_run k [] = Inr"
  by (rule ext, simp)+

subsection \<open>One message\<close>

lemma onRequest_events:
  "onRequest k cb req e = conn_run k (EvSend (response_bytes cb req) #
     (if resp_closeConnection (response_of cb req) then [EvShutdown] else [])) e"
  by (simp add: onRequest_def Let_def response_bytes_def response_of_def wants_close_def
      retrieveAllAsString_ok buf_inv_appendToBuffer)

text \<open>The handler is the parser followed by the reply.\<close>

lemma onMessage_events:
  assumes "tc_context (te_conn e) = Some c"
    and "parseRequest t c (tc_input (te_conn e)) = Some (Inr (ok, c', b))"
  shows "onMessage k cb t e =
    Some (res_bind (conn_run k (reply_events cb ok c')
        (e\<lparr>te_conn := (te_conn e)\<lparr>tc_context := Some c', tc_input := b\<rparr>\<rparr>))
      (\<lambda>e'. Inr (if gotAll c' then setContext (reset c') e' else e')))"
  using assms
  by (cases "send k True 0 bad_request
        (e\<lparr>te_conn := (te_conn e)\<lparr>tc_context := Some c', tc_input := b\<rparr>\<rparr>)")
     (simp_all add: onMessage_def Let_def reply_events_def onRequest_events conn_run_append)

text \<open>
  A message on a live connection: the parser's specification on the input bytes decides
  the reply, and the connection stays live.
\<close>

lemma conn_live_frame:
  assumes "conn_live e" and "buf_inv b"
  shows "conn_live (e\<lparr>te_conn := (te_conn e)\<lparr>tc_context := c, tc_input := b\<rparr>\<rparr>)"
  using assms by (simp add: conn_live_def conn_inv_def half_closed_def outputBytes_def)

lemma conn_live_input: "conn_live e \<Longrightarrow> buf_inv (tc_input (te_conn e))"
  by (simp add: conn_live_def conn_inv_def)

lemma conn_live_setContext: "conn_live (setContext c e) = conn_live e"
  by (simp add: conn_live_def conn_inv_def half_closed_def outputBytes_def setContext_def)

definition answered ::
    "http_callback \<Rightarrow> http_env \<Rightarrow> bool \<Rightarrow> http_context \<Rightarrow> string \<Rightarrow> http_env \<Rightarrow> bool" where
  "answered cb e ok c' rest e' \<longleftrightarrow> conn_live e' \<and>
     tc_context (te_conn e') = Some (if gotAll c' then reset c' else c') \<and> inputBytes e' = rest \<and>
     (tc_state (te_conn e') = kConnected \<longleftrightarrow>
        tc_state (te_conn e) = kConnected \<and> EvShutdown \<notin> set (reply_events cb ok c')) \<and>
     streamOut e' = streamOut e @
       (if tc_state (te_conn e) = kConnected then accepted (reply_events cb ok c') else [])"

lemma onMessage_ok:
  assumes live: "conn_live e" and ctx: "tc_context (te_conn e) = Some c" "ctx_parsing c"
    and k: "kernel_ok k" and spec: "spec_parse t c (inputBytes e) = (ok, c', rest)"
  shows "\<exists>e'. onMessage k cb t e = Some (Inr e') \<and> answered cb e ok c' rest e'"
proof -
  obtain b where p: "parseRequest t c (tc_input (te_conn e)) = Some (Inr (ok, c', b))"
    and b: "buf_inv b" "peek_range b = rest"
    using parse_loop_refines [OF conn_live_input [OF live] ctx(2), of t] spec
    by (auto simp: parseRequest_def inputBytes_def)
  let ?e1 = "e\<lparr>te_conn := (te_conn e)\<lparr>tc_context := Some c', tc_input := b\<rparr>\<rparr>"
  have live1: "conn_live ?e1" using conn_live_frame [OF live b(1)] .
  from conn_run_ok [OF live1, of k "reply_events cb ok c'"] k obtain e2 where
    e2: "conn_run k (reply_events cb ok c') ?e1 = Inr e2" "conn_live e2"
    "tc_state (te_conn e2) = kConnected \<longleftrightarrow>
       tc_state (te_conn e) = kConnected \<and> EvShutdown \<notin> set (reply_events cb ok c')"
    "te_sent e2 @ outputBytes e2 = te_sent e @ outputBytes ?e1 @
      (if tc_state (te_conn e) = kConnected then accepted (reply_events cb ok c') else [])"
    by (auto simp: kernel_ok_def)
  have in2: "tc_input (te_conn e2) = b" "tc_context (te_conn e2) = Some c'"
    using conn_run_input [OF e2(1)] by (auto simp: same_input_def)
  let ?e3 = "if gotAll c' then setContext (reset c') e2 else e2"
  have "onMessage k cb t e = Some (Inr ?e3)"
    using onMessage_events [OF ctx(1) p, of k cb] e2(1) by simp
  moreover have "conn_live ?e3" using e2(2) by (simp add: conn_live_setContext)
  moreover have "outputBytes ?e1 = outputBytes e" by (simp add: outputBytes_def)
  ultimately show ?thesis
    using e2(3,4) in2 b(2)
    by (auto simp: setContext_def inputBytes_def streamOut_def outputBytes_def answered_def)
qed

lemma http_live_onMessage:
  assumes "http_live e" and "kernel_ok k"
  shows "\<exists>e'. onMessage k cb t e = Some (Inr e') \<and> http_live e'"
proof -
  obtain c where c: "conn_live e" "tc_context (te_conn e) = Some c" "ctx_parsing c"
    using assms(1) by (auto simp: http_live_def)
  obtain ok c' rest where sp: "spec_parse t c (inputBytes e) = (ok, c', rest)"
    by (cases "spec_parse t c (inputBytes e)")
  have "ctx_parsing (if gotAll c' then reset c' else c')"
    using spec_parse_state [OF sp c(3)] by (auto simp: reset_def ctx_parsing_def)
  then show ?thesis
    using onMessage_ok [OF c assms(2) sp, of cb] by (auto simp: http_live_def answered_def)
qed

subsection \<open>A request in segments\<close>

text \<open>
  While a request is incomplete, the context and the input bytes are what the parser
  makes of the bytes received so far.
\<close>

definition pending_request :: "http_context \<Rightarrow> string \<Rightarrow> http_env \<Rightarrow> bool" where
  "pending_request c0 got e \<longleftrightarrow> (\<exists>t c. tc_context (te_conn e) = Some c \<and>
     spec_parse t c0 got = (True, c, inputBytes e) \<and> \<not> gotAll c)"

lemma spec_parse_extend:
  assumes "ctx_ready c0" and "spec_parse t0 c0 got = (True, c, rest)" and "\<not> gotAll c"
  shows "\<exists>t1. spec_parse t c (rest @ seg) = spec_parse t1 c0 (got @ seg)"
proof -
  have pars: "ctx_parsing c0" using assms(1) by (rule ctx_ready_parsing)
  have step: "spec_parse t0 c0 (got @ seg) = spec_parse t0 c (rest @ seg)"
    using spec_parse_append [OF assms(2) pars, of seg] assms(3) by simp
  have "ctx_parsing c" using spec_parse_state [OF assms(2) pars] assms(3) by blast
  then consider "ctx_state c = kExpectHeaders" | "ctx_state c = kExpectRequestLine"
    by (auto simp: ctx_parsing_def)
  then show ?thesis
  proof cases
    case 1
    then show ?thesis using step spec_parse_time [of c t "rest @ seg" t0] by metis
  next
    case 2
    then show ?thesis using spec_parse_no_line [OF assms(2) _ pars] by auto
  qed
qed

lemma receive_ok:
  assumes live: "conn_live e" and "ctx_ready c0" and pend: "pending_request c0 got e" and "kernel_ok k"
  shows "\<exists>t1 ok c' rest e'. spec_parse t1 c0 (got @ snd seg) = (ok, c', rest) \<and>
    receive k cb seg e = Some (Inr e') \<and> answered cb e ok c' rest e'"
proof -
  obtain t0 c where c: "tc_context (te_conn e) = Some c"
    "spec_parse t0 c0 got = (True, c, inputBytes e)" "\<not> gotAll c"
    using pend unfolding pending_request_def by blast
  have pars: "ctx_parsing c"
    using spec_parse_state [OF c(2) ctx_ready_parsing [OF assms(2)]] c(3) by blast
  let ?e1 = "e\<lparr>te_conn := (te_conn e)\<lparr>tc_input := append (snd seg) (tc_input (te_conn e))\<rparr>\<rparr>"
  have live1: "conn_live ?e1"
    using live conn_live_input [OF live]
    by (simp add: conn_live_def conn_inv_def half_closed_def outputBytes_def buf_inv_append)
  have in1: "inputBytes ?e1 = inputBytes e @ snd seg"
    using conn_live_input [OF live] by (simp add: inputBytes_def peek_range_append)
  obtain t1 where t1: "spec_parse (fst seg) c (inputBytes e @ snd seg) = spec_parse t1 c0 (got @ snd seg)"
    using spec_parse_extend [OF assms(2) c(2,3)] by blast
  obtain ok c' rest where r: "spec_parse t1 c0 (got @ snd seg) = (ok, c', rest)"
    by (cases "spec_parse t1 c0 (got @ snd seg)")
  have same: "streamOut ?e1 = streamOut e" "tc_context (te_conn ?e1) = Some c"
    "tc_state (te_conn ?e1) = tc_state (te_conn e)"
    using c(1) by (simp_all add: streamOut_def outputBytes_def)
  have "spec_parse (fst seg) c (inputBytes ?e1) = (ok, c', rest)" using in1 t1 r by simp
  from onMessage_ok [OF live1 same(2) pars assms(4) this, of cb] obtain e' where
    "receive k cb seg e = Some (Inr e')" "answered cb ?e1 ok c' rest e'"
    unfolding receive_def by blast
  moreover have "answered cb ?e1 ok c' rest e' = answered cb e ok c' rest e'"
    using same by (simp add: answered_def)
  ultimately show ?thesis using r by blast
qed

text \<open>A connection between two requests.\<close>

definition http_idle :: "http_env \<Rightarrow> bool" where
  "http_idle e \<longleftrightarrow> conn_live e \<and> inputBytes e = [] \<and>
     (\<exists>c. tc_context (te_conn e) = Some c \<and> ctx_ready c)"

lemma receive_all_append:
  "receive_all k cb (xs @ ys) e =
     (case receive_all k cb xs e of Some (Inr e') \<Rightarrow> receive_all k cb ys e' | r \<Rightarrow> r)"
  by (induction xs arbitrary: e) (auto split: option.splits sum.splits)

text \<open>A proper prefix of a request is not yet a request.\<close>

lemma prefix_incomplete:
  assumes "request_printable r" and "ctx_ready c0" and "print_request r = got @ rem" and "rem \<noteq> []"
    and "spec_parse t c0 got = (ok, c', rest)"
  shows "ok \<and> \<not> gotAll c'"
proof (rule ccontr)
  assume "\<not> (ok \<and> \<not> gotAll c')"
  then have "spec_parse t c0 (got @ rem) = (ok, c', rest @ rem)"
    using spec_parse_append [OF assms(5) ctx_ready_parsing [OF assms(2)], of rem]
    by (auto split: if_splits)
  then show False
    using spec_parse_printed [OF assms(1,2), of t "[]"] assms(3,4) by simp
qed

lemma receive_prefix:
  assumes r: "request_printable r" and c0: "ctx_ready c0" and k: "kernel_ok k"
    and "conn_live e" and "pending_request c0 got e"
    and "print_request r = got @ concat (map snd segs) @ rem" and "rem \<noteq> []"
  shows "\<exists>e'. receive_all k cb segs e = Some (Inr e') \<and> conn_live e' \<and>
    pending_request c0 (got @ concat (map snd segs)) e' \<and> streamOut e' = streamOut e \<and>
    (tc_state (te_conn e') = kConnected \<longleftrightarrow> tc_state (te_conn e) = kConnected)"
  using assms(4-6)
proof (induction segs arbitrary: e got)
  case Nil
  then show ?case by simp
next
  case (Cons seg segs)
  from receive_ok [OF Cons.prems(1) c0 Cons.prems(2) k, of seg cb] obtain t1 ok c' rest e1 where
    sp: "spec_parse t1 c0 (got @ snd seg) = (ok, c', rest)"
    and e1: "receive k cb seg e = Some (Inr e1)" "conn_live e1"
      "tc_context (te_conn e1) = Some (if gotAll c' then reset c' else c')" "inputBytes e1 = rest"
      "tc_state (te_conn e1) = kConnected \<longleftrightarrow>
         tc_state (te_conn e) = kConnected \<and> EvShutdown \<notin> set (reply_events cb ok c')"
      "streamOut e1 = streamOut e @
        (if tc_state (te_conn e) = kConnected then accepted (reply_events cb ok c') else [])"
    unfolding answered_def by blast
  have "ok \<and> \<not> gotAll c'"
    using prefix_incomplete [OF r c0 _ _ sp, of "concat (map snd segs) @ rem"] Cons.prems(3) assms(7)
    by simp
  then have none: "reply_events cb ok c' = []" and pend: "pending_request c0 (got @ snd seg) e1"
    using sp e1(3,4) by (auto simp: reply_events_def pending_request_def)
  from Cons.IH [OF e1(2) pend] Cons.prems(3) show ?case
    using e1(1,5,6) none by auto
qed

lemma idle_pending:
  assumes "http_idle e" and "tc_context (te_conn e) = Some c0"
  shows "pending_request c0 [] e"
proof -
  have "ctx_ready c0" using assms by (auto simp: http_idle_def)
  then have "\<not> gotAll c0"
    using ctx_ready_parsing [of c0] by (auto simp: ctx_parsing_def gotAll_def)
  moreover have "spec_parse t c0 [] = (True, c0, [])" for t
    by (subst spec_parse.simps) (simp add: kCRLF_def)
  ultimately show ?thesis
    using assms by (auto simp: pending_request_def http_idle_def)
qed

lemma exchange_ok:
  assumes r: "request_printable r" and k: "kernel_ok k" and idle: "http_idle e"
    and up: "tc_state (te_conn e) = kConnected"
    and req: "print_request r = concat (map snd segs) @ snd seg" and "snd seg \<noteq> []"
  shows "\<exists>e1 e2 t. receive_all k cb segs e = Some (Inr e1) \<and> streamOut e1 = streamOut e \<and>
    receive_all k cb (segs @ [seg]) e = Some (Inr e2) \<and> http_idle e2 \<and>
    streamOut e2 = streamOut e @ response_bytes cb (r\<lparr>req_receiveTime := t\<rparr>) \<and>
    tc_state (te_conn e2) = (if resp_closeConnection (response_of cb (r\<lparr>req_receiveTime := t\<rparr>))
      then kDisconnecting else kConnected)"
proof -
  obtain c0 where c0: "tc_context (te_conn e) = Some c0" "ctx_ready c0"
    using idle by (auto simp: http_idle_def)
  have pend: "pending_request c0 [] e" using idle_pending [OF idle c0(1)] .
  have live: "conn_live e" using idle by (simp add: http_idle_def)
  from receive_prefix [OF r c0(2) k live pend _ assms(6)] req obtain e1 where
    e1: "receive_all k cb segs e = Some (Inr e1)" "conn_live e1"
    "pending_request c0 (concat (map snd segs)) e1" "streamOut e1 = streamOut e"
    "tc_state (te_conn e1) = kConnected"
    using up by auto
  from receive_ok [OF e1(2) c0(2) e1(3) k, of seg cb] obtain t ok c' rest e2 where
    sp: "spec_parse t c0 (print_request r) = (ok, c', rest)"
    and r2: "receive k cb seg e1 = Some (Inr e2)" and a: "answered cb e1 ok c' rest e2"
    unfolding req by blast
  then have e2: "receive k cb seg e1 = Some (Inr e2)" "conn_live e2"
      "tc_context (te_conn e2) = Some (if gotAll c' then reset c' else c')" "inputBytes e2 = rest"
      "tc_state (te_conn e2) = kConnected \<longleftrightarrow> EvShutdown \<notin> set (reply_events cb ok c')"
      "streamOut e2 = streamOut e @ accepted (reply_events cb ok c')"
    using e1(4,5) by (auto simp: answered_def)
  have "ok" "c' = \<lparr>ctx_state = kGotAll, ctx_request = r\<lparr>req_receiveTime := t\<rparr>\<rparr>" "rest = []"
    using sp spec_parse_printed [OF r c0(2), of t "[]"] by auto
  then have g: "gotAll c'" and ev: "reply_events cb ok c' =
      EvSend (response_bytes cb (r\<lparr>req_receiveTime := t\<rparr>)) #
      (if resp_closeConnection (response_of cb (r\<lparr>req_receiveTime := t\<rparr>)) then [EvShutdown] else [])"
    and rest: "rest = []"
    by (simp_all add: gotAll_def reply_events_def)
  have "receive_all k cb (segs @ [seg]) e = Some (Inr e2)"
    using e1(1) e2(1) by (simp add: receive_all_append)
  moreover have "http_idle e2"
    using e2(2-4) g rest ctx_ready_reset by (auto simp: http_idle_def)
  moreover have "tc_state (te_conn e2) = kConnected \<or> tc_state (te_conn e2) = kDisconnecting"
    using e2(2) by (auto simp: conn_live_def half_closed_def)
  ultimately show ?thesis
    using e1(1,4) e2(5,6) ev by (auto split: if_splits)
qed

text \<open>The segments of one request: together its bytes, the last one not empty.\<close>

definition segments_of :: "http_request \<Rightarrow> (int \<times> string) list \<Rightarrow> bool" where
  "segments_of r segs \<longleftrightarrow> segs \<noteq> [] \<and> snd (last segs) \<noteq> [] \<and> concat (map snd segs) = print_request r"

lemma session_ok:
  assumes k: "kernel_ok k" and keep: "\<And>req. \<not> resp_closeConnection (response_of cb req)"
  shows "list_all request_printable rs \<Longrightarrow> list_all2 segments_of rs segss \<Longrightarrow> http_idle e \<Longrightarrow>
    tc_state (te_conn e) = kConnected \<Longrightarrow>
    \<exists>e' ts. receive_all k cb (concat segss) e = Some (Inr e') \<and> http_idle e' \<and>
      tc_state (te_conn e') = kConnected \<and> length ts = length rs \<and>
      streamOut e' = streamOut e @
        concat (map (\<lambda>(r, t). response_bytes cb (r\<lparr>req_receiveTime := t\<rparr>)) (zip rs ts))"
proof (induction rs arbitrary: segss e)
  case Nil
  then show ?case by simp
next
  case (Cons r rs)
  then obtain segs segss' where ss: "segss = segs # segss'" "segments_of r segs"
    "list_all2 segments_of rs segss'"
    by (auto simp: list_all2_Cons1)
  then obtain init l where l: "segs = init @ [l]" "snd l \<noteq> []"
    "print_request r = concat (map snd init) @ snd l"
    unfolding segments_of_def by (cases segs rule: rev_cases) auto
  have "request_printable r" using Cons.prems(1) by simp
  from exchange_ok [OF this k Cons.prems(3,4) l(3,2), of cb] keep obtain e1 t where
    e1: "receive_all k cb segs e = Some (Inr e1)" "http_idle e1"
    "streamOut e1 = streamOut e @ response_bytes cb (r\<lparr>req_receiveTime := t\<rparr>)"
    "tc_state (te_conn e1) = kConnected"
    unfolding l(1) by auto
  obtain e' ts where "receive_all k cb (concat segss') e1 = Some (Inr e')" "http_idle e'"
    "tc_state (te_conn e') = kConnected" "length ts = length rs"
    "streamOut e' = streamOut e1 @
        concat (map (\<lambda>(r, t). response_bytes cb (r\<lparr>req_receiveTime := t\<rparr>)) (zip rs ts))"
    using Cons.IH [OF _ ss(3) e1(2,4)] Cons.prems(1) by auto
  then show ?case
    using e1 ss(1) by (intro exI [of _ e'] exI [of _ "t # ts"]) (simp add: receive_all_append)
qed

text \<open>A message that holds a complete request, and more bytes after it.\<close>

lemma receive_parsed:
  assumes parsed: "\<And>t c. ctx_ready c \<Longrightarrow>
      spec_parse t c bytes = (True, \<lparr>ctx_state = kGotAll, ctx_request = R t\<rparr>, rest)"
    and k: "kernel_ok k" and idle: "http_idle e" and up: "tc_state (te_conn e) = kConnected"
  shows "\<exists>e' t1 c. receive k cb (t, bytes) e = Some (Inr e') \<and> conn_live e' \<and>
    tc_context (te_conn e') = Some c \<and> ctx_ready c \<and> inputBytes e' = rest \<and>
    streamOut e' = streamOut e @ response_bytes cb (R t1) \<and>
    (tc_state (te_conn e') = kConnected \<longleftrightarrow> \<not> resp_closeConnection (response_of cb (R t1)))"
proof -
  obtain c0 where c0: "tc_context (te_conn e) = Some c0" "ctx_ready c0"
    using idle by (auto simp: http_idle_def)
  have live: "conn_live e" using idle by (simp add: http_idle_def)
  from receive_ok [OF live c0(2) idle_pending [OF idle c0(1)] k, of "(t, bytes)" cb]
  obtain t1 ok c' rest' e' where sp: "spec_parse t1 c0 bytes = (ok, c', rest')"
    and e': "receive k cb (t, bytes) e = Some (Inr e')" "answered cb e ok c' rest' e'"
    by auto
  have "ok" "c' = \<lparr>ctx_state = kGotAll, ctx_request = R t1\<rparr>" "rest' = rest"
    using sp parsed [OF c0(2), of t1] by auto
  then show ?thesis
    using e' up ctx_ready_reset
    by (auto simp: answered_def gotAll_def reply_events_def split: if_splits)
qed

lemma receive_request:
  assumes "request_printable r" and "kernel_ok k" and "http_idle e" and "tc_state (te_conn e) = kConnected"
  shows "\<exists>e' t1 c. receive k cb (t, print_request r @ rest) e = Some (Inr e') \<and> conn_live e' \<and>
    tc_context (te_conn e') = Some c \<and> ctx_ready c \<and> inputBytes e' = rest \<and>
    streamOut e' = streamOut e @ response_bytes cb (r\<lparr>req_receiveTime := t1\<rparr>) \<and>
    (tc_state (te_conn e') = kConnected \<longleftrightarrow>
       \<not> resp_closeConnection (response_of cb (r\<lparr>req_receiveTime := t1\<rparr>)))"
  using receive_parsed [OF spec_parse_printed [OF assms(1)] assms(2-4)] .

text \<open>Bytes in front of a request line spoil its method.\<close>

lemma method_suffix:
  "m \<noteq> kInvalid \<Longrightarrow> m' \<noteq> kInvalid \<Longrightarrow> body \<noteq> [] \<Longrightarrow> body @ methodString m \<noteq> methodString m'"
  by (cases m; cases m') (auto simp: append_eq_Cons_conv append_eq_append_conv2)

lemma spec_parse_spoiled:
  assumes r: "request_printable r" and c: "ctx_ready c"
    and "body \<noteq> []" and "CHR '' '' \<notin> set body" and "CHR 0x0D \<notin> set body"
  shows "\<exists>c'. spec_parse t c (body @ print_request r) = (False, c', body @ print_request r)"
proof -
  let ?line = "body @ print_request_line r"
  let ?m = "body @ methodString (req_method r)"
  have cr: "CHR 0x0D \<notin> set ?line"
    using r assms(5) methodString_no_CR versionString_no_CR
    by (auto simp: print_request_line_def request_printable_def)
  have line: "?line = ?m @ CHR '' '' # (req_path r @ req_query r @ '' '' @ versionString (req_version r))"
    by (simp add: print_request_line_def)
  have f: "std_find (CHR '' '') ?line = length ?m"
    unfolding line using assms(4) methodString_no_space by (intro std_find_append) auto
  obtain okm r' where sm: "setMethod ?m (ctx_request c) = (okm, r')"
    by (cases "setMethod ?m (ctx_request c)")
  have "\<not> okm"
  proof
    assume okm
    then obtain m where "m \<noteq> kInvalid" "?m = methodString m"
      using setMethod_True [of ?m "ctx_request c" r'] sm by auto
    then show False
      using method_suffix [OF _ _ assms(3), of "req_method r" m] r
      by (simp add: request_printable_def)
  qed
  moreover have "take (length ?m) ?line = ?m" "length ?m \<noteq> length ?line" unfolding line by simp_all
  ultimately have "processRequestLine ?line (ctx_request c) = (False, r')"
    using sm unfolding processRequestLine_def Let_def f by simp
  moreover have "ctx_state c = kExpectRequestLine" using c by (auto simp: ctx_ready_def HttpContext_new_def)
  moreover have "body @ print_request r = ?line @ kCRLF @ print_headers (req_headers r) @ kCRLF"
    by (simp add: print_request_def crlf_kCRLF)
  ultimately show ?thesis
    using spec_parse_line [OF cr, of t c "print_headers (req_headers r) @ kCRLF"] by simp
qed

section \<open>Properties\<close>

text \<open>
  C4: one request, one response. A request with a printed form may reach an idle,
  connected connection in any segments, at any times: until the last segment nothing is
  sent; with the last one exactly the bytes of the response to this request follow what
  was sent before, the input is used up, the connection is ready for the next request,
  and it is half-closed exactly when the response says so.
\<close>

theorem http_exchange:
  assumes "request_printable r" and "kernel_ok k" and "http_idle e"
    and "tc_state (te_conn e) = kConnected"
    and "print_request r = concat (map snd segs) @ snd seg" and "snd seg \<noteq> []"
  shows "\<exists>e1 e2 t. receive_all k cb segs e = Some (Inr e1) \<and> streamOut e1 = streamOut e \<and>
    receive_all k cb (segs @ [seg]) e = Some (Inr e2) \<and> http_idle e2 \<and>
    streamOut e2 = streamOut e @ response_bytes cb (r\<lparr>req_receiveTime := t\<rparr>) \<and>
    tc_state (te_conn e2) = (if resp_closeConnection (response_of cb (r\<lparr>req_receiveTime := t\<rparr>))
      then kDisconnecting else kConnected)"
  using assms by (rule exchange_ok)

definition http_established :: http_env where
  "http_established = \<lparr>te_conn = (TcpConnection_new 5 9)\<lparr>tc_state := kConnected,
       tc_channel := (Channel_new 5 9)\<lparr>ch_events := kReadEvent, ch_index := kAdded\<rparr>,
       tc_context := Some HttpContext_new\<rparr>,
     te_poller = te_poller established_env, te_queued = [], te_sent = [], te_shutdown = False\<rparr>"

lemma http_established_ok:
  "http_idle http_established" "tc_state (te_conn http_established) = kConnected"
  "http_live http_established" "streamOut http_established = []"
proof -
  have l: "conn_live http_established"
    using established_env_ok(1)
    by (simp add: conn_live_def conn_inv_def established_env_def http_established_def
        TcpConnection_new_def outputBytes_def)
  then show "http_idle http_established"
    using ctx_ready_new by (simp add: http_idle_def http_established_def TcpConnection_new_def inputBytes_def)
  show "http_live http_established"
    using l ctx_ready_parsing [OF ctx_ready_new]
    by (simp add: http_live_def http_established_def)
qed (simp_all add: http_established_def streamOut_def outputBytes_def TcpConnection_new_def)

lemma slow_kernel_all: "kernel_ok slow_kernel"
  using slow_kernel_ok by (simp add: kernel_ok_def)

lemma sample_request_printable: "request_printable sample_request"
  by (simp add: sample_request_def request_printable_def header_printable_def isspace_def
      map_sorted_def less_list_code)

theorem http_exchange_witness:
  "\<exists>e1 e2 t. receive_all slow_kernel defaultHttpCallback [(1, ''GET /index.html?i'')]
       http_established = Some (Inr e1) \<and> streamOut e1 = [] \<and>
    receive_all slow_kernel defaultHttpCallback ([(1, ''GET /index.html?i'')] @
        [(2, drop 17 (print_request sample_request))]) http_established = Some (Inr e2) \<and>
    http_idle e2 \<and>
    streamOut e2 = response_bytes defaultHttpCallback (sample_request\<lparr>req_receiveTime := t\<rparr>) \<and>
    tc_state (te_conn e2) = kDisconnecting"
proof -
  have p: "print_request sample_request = concat (map snd [(1 :: int, ''GET /index.html?i'')]) @
      snd (2 :: int, drop 17 (print_request sample_request))"
    and ne: "snd (2 :: int, drop 17 (print_request sample_request)) \<noteq> []"
    by (simp_all add: sample_request_def print_request_def print_request_line_def crlf_def)
  from http_exchange [OF sample_request_printable slow_kernel_all http_established_ok(1,2) p ne,
      of defaultHttpCallback]
  show ?thesis
    by (auto simp: http_established_ok(4) response_of_def defaultHttpCallback_def setCloseConnection_def)
qed

text \<open>
  A kept-alive connection serves its requests in order. When the user's responses
  keep the connection open, any number of requests that follow one another, each in any
  segments of its own, get their responses in the order of the requests, with nothing
  in between, and the connection stays open.
\<close>

theorem http_session:
  assumes "kernel_ok k" and "\<forall>req. \<not> resp_closeConnection (response_of cb req)"
    and "list_all request_printable rs" and "list_all2 segments_of rs segss" and "http_idle e"
    and "tc_state (te_conn e) = kConnected"
  shows "\<exists>e' ts. receive_all k cb (concat segss) e = Some (Inr e') \<and> http_idle e' \<and>
    tc_state (te_conn e') = kConnected \<and> length ts = length rs \<and>
    streamOut e' = streamOut e @
      concat (map (\<lambda>(r, t). response_bytes cb (r\<lparr>req_receiveTime := t\<rparr>)) (zip rs ts))"
  using assms session_ok [of k cb rs segss e] by blast

definition keep_callback :: http_callback where
  "keep_callback req resp = setBody (req_path req) (setCloseConnection False resp)"

theorem http_session_witness:
  "\<exists>e' t1 t2. receive_all slow_kernel keep_callback
      [(1, take 9 (print_request sample_request)), (2, drop 9 (print_request sample_request)),
       (3, print_request sample_request)] http_established = Some (Inr e') \<and>
    tc_state (te_conn e') = kConnected \<and>
    streamOut e' = response_bytes keep_callback (sample_request\<lparr>req_receiveTime := t1\<rparr>) @
      response_bytes keep_callback (sample_request\<lparr>req_receiveTime := t2\<rparr>)"
proof -
  let ?s1 = "[(1 :: int, take 9 (print_request sample_request)), (2, drop 9 (print_request sample_request))]"
  let ?s2 = "[(3 :: int, print_request sample_request)]"
  have "print_request sample_request \<noteq> []" "drop 9 (print_request sample_request) \<noteq> []"
    by (simp_all add: sample_request_def print_request_def print_request_line_def crlf_def)
  then have "list_all2 segments_of [sample_request, sample_request] [?s1, ?s2]"
    by (simp add: segments_of_def)
  moreover have "\<forall>req. \<not> resp_closeConnection (response_of keep_callback req)"
    by (simp add: response_of_def keep_callback_def setBody_def setCloseConnection_def)
  ultimately have "\<exists>e' ts. receive_all slow_kernel keep_callback (concat [?s1, ?s2]) http_established =
        Some (Inr e') \<and> http_idle e' \<and> tc_state (te_conn e') = kConnected \<and>
      length ts = length [sample_request, sample_request] \<and>
      streamOut e' = streamOut http_established @
        concat (map (\<lambda>(r, t). response_bytes keep_callback (r\<lparr>req_receiveTime := t\<rparr>))
          (zip [sample_request, sample_request] ts))"
    using sample_request_printable
    by (intro http_session [OF slow_kernel_all _ _ _ http_established_ok(1,2)]) auto
  then obtain e' ts where
    e': "receive_all slow_kernel keep_callback (?s1 @ ?s2) http_established = Some (Inr e')"
    "tc_state (te_conn e') = kConnected" "length ts = Suc (Suc 0)"
    "streamOut e' = concat (map (\<lambda>(r, t). response_bytes keep_callback (r\<lparr>req_receiveTime := t\<rparr>))
        (zip [sample_request, sample_request] ts))"
    using http_established_ok(4) by (auto simp del: receive_all.simps)
  obtain t1 t2 where "ts = [t1, t2]"
    using e'(3) by (metis length_0_conv length_Suc_conv)
  with e' show ?thesis by auto
qed

text \<open>
  The message handler never hangs, and rejects what is not a request. On a
  connection that is up with its parser in a parsing state, as \<open>onConnection\<close> leaves it,
  any segment of bytes is handled: the call returns, no assertion fails, no pointer is
  bad, and the connection is again in such a state, so the endless loop of the parser is
  never entered. When the bytes are no request, the reply of a connected connection is
  exactly the 400 response, and the connection is half-closed.
\<close>

theorem onMessage_never_hangs:
  assumes "http_live e" and "kernel_ok k"
  shows "(\<exists>e'. onMessage k cb t e = Some (Inr e') \<and> http_live e') \<and>
    (\<forall>c c' rest. tc_context (te_conn e) = Some c \<longrightarrow> tc_state (te_conn e) = kConnected \<longrightarrow>
       spec_parse t c (inputBytes e) = (False, c', rest) \<longrightarrow>
       (\<exists>e'. onMessage k cb t e = Some (Inr e') \<and> streamOut e' = streamOut e @ bad_request \<and>
          tc_state (te_conn e') = kDisconnecting))"
proof (intro conjI allI impI)
  show "\<exists>e'. onMessage k cb t e = Some (Inr e') \<and> http_live e'"
    using assms by (rule http_live_onMessage)
next
  fix c c' rest
  assume c: "tc_context (te_conn e) = Some c" and up: "tc_state (te_conn e) = kConnected"
    and sp: "spec_parse t c (inputBytes e) = (False, c', rest)"
  have live: "conn_live e" and pars: "ctx_parsing c"
    using assms(1) c by (auto simp: http_live_def)
  have "\<not> gotAll c'" using spec_parse_error [OF sp] pars by (auto simp: gotAll_def ctx_parsing_def)
  then have "reply_events cb False c' = [EvSend bad_request, EvShutdown]"
    by (simp add: reply_events_def)
  with onMessage_ok [OF live c pars assms(2) sp, of cb] up obtain e' where
    "onMessage k cb t e = Some (Inr e')" "conn_live e'" "streamOut e' = streamOut e @ bad_request"
    "tc_state (te_conn e') \<noteq> kConnected"
    by (auto simp: answered_def)
  then show "\<exists>e'. onMessage k cb t e = Some (Inr e') \<and> streamOut e' = streamOut e @ bad_request \<and>
      tc_state (te_conn e') = kDisconnecting"
    by (auto simp: conn_live_def half_closed_def)
qed

theorem onMessage_never_hangs_witness:
  "(\<exists>e'. onMessage slow_kernel defaultHttpCallback 1 http_established = Some (Inr e') \<and> http_live e')"
  using onMessage_never_hangs [OF http_established_ok(3) slow_kernel_all] by blast

text \<open>
  A body breaks the next request. The parser has no state that consumes a body:
  after a complete request, a body without blanks and line ends is taken for the
  beginning of the next request line, so a well-formed next request is answered with
  the 400 response and the connection is half-closed.
\<close>

theorem body_breaks_next_request:
  assumes "request_printable r1" and "request_printable r2" and "kernel_ok k" and "http_idle e"
    and "tc_state (te_conn e) = kConnected"
    and "\<forall>t. \<not> resp_closeConnection (response_of cb (r1\<lparr>req_receiveTime := t\<rparr>))"
    and "body \<noteq> []" and "CHR '' '' \<notin> set body" and "CHR 0x0D \<notin> set body"
  shows "\<exists>e' t. receive_all k cb [(t1, print_request r1 @ body), (t2, print_request r2)] e = Some (Inr e') \<and>
    streamOut e' = streamOut e @ response_bytes cb (r1\<lparr>req_receiveTime := t\<rparr>) @ bad_request \<and>
    tc_state (te_conn e') = kDisconnecting"
proof -
  obtain e1 t c where e1: "receive k cb (t1, print_request r1 @ body) e = Some (Inr e1)"
    "conn_live e1" "tc_context (te_conn e1) = Some c" "ctx_ready c" "inputBytes e1 = body"
    "streamOut e1 = streamOut e @ response_bytes cb (r1\<lparr>req_receiveTime := t\<rparr>)"
    "tc_state (te_conn e1) = kConnected"
    using receive_request [OF assms(1,3,4,5), of cb t1 body] assms(6) by blast
  have "std_search kCRLF body = None"
    using assms(9) by (induction body) (auto simp: kCRLF_def)
  then have "spec_parse t1 c body = (True, c, body)" by (subst spec_parse.simps) simp
  moreover have "\<not> gotAll c" using ctx_ready_parsing [OF e1(4)] by (auto simp: ctx_parsing_def gotAll_def)
  ultimately have "pending_request c body e1"
    using e1(3,5) by (auto simp: pending_request_def)
  from receive_ok [OF e1(2,4) this assms(3), of "(t2, print_request r2)" cb]
  obtain t3 ok c' rest e2 where sp: "spec_parse t3 c (body @ print_request r2) = (ok, c', rest)"
    and e2: "receive k cb (t2, print_request r2) e1 = Some (Inr e2)" "answered cb e1 ok c' rest e2"
    by auto
  have "\<not> ok" using sp spec_parse_spoiled [OF assms(2) e1(4) assms(7-9), of t3] by auto
  moreover from this have "\<not> gotAll c'"
    using spec_parse_error [of t3 c] sp \<open>\<not> gotAll c\<close> by auto
  ultimately show ?thesis
    using e1(1,6,7) e2
    by (auto simp: answered_def reply_events_def conn_live_def half_closed_def)
qed

theorem body_breaks_next_request_witness:
  "\<exists>e' t. receive_all slow_kernel keep_callback [(1, print_request sample_request @ ''x=1''),
      (2, print_request sample_request)] http_established = Some (Inr e') \<and>
    streamOut e' = response_bytes keep_callback (sample_request\<lparr>req_receiveTime := t\<rparr>) @ bad_request \<and>
    tc_state (te_conn e') = kDisconnecting"
  using body_breaks_next_request [OF sample_request_printable sample_request_printable slow_kernel_all
      http_established_ok(1,2), of keep_callback "''x=1''" 1 2] http_established_ok(4)
  by (simp add: response_of_def keep_callback_def setBody_def setCloseConnection_def)

text \<open>
  A pipelined request waits. When two requests arrive in one segment, one call of
  the handler answers the first only: the bytes of the second stay in the input buffer,
  unanswered, until another segment arrives.
\<close>

theorem pipelined_request_waits:
  assumes "request_printable r1" and "kernel_ok k" and "http_idle e"
    and "tc_state (te_conn e) = kConnected"
  shows "\<exists>e' t1. receive_all k cb [(t, print_request r1 @ print_request r2)] e = Some (Inr e') \<and>
    streamOut e' = streamOut e @ response_bytes cb (r1\<lparr>req_receiveTime := t1\<rparr>) \<and>
    inputBytes e' = print_request r2"
  using receive_request [OF assms, of cb t "print_request r2"] by auto

theorem pipelined_request_waits_witness:
  "\<exists>e' t1. receive_all slow_kernel keep_callback
      [(1, print_request sample_request @ print_request sample_request)] http_established = Some (Inr e') \<and>
    streamOut e' = streamOut http_established @
      response_bytes keep_callback (sample_request\<lparr>req_receiveTime := t1\<rparr>) \<and>
    inputBytes e' = print_request sample_request"
  by (rule pipelined_request_waits)
     (rule sample_request_printable slow_kernel_all http_established_ok)+

end
