(* ===== verification/Net_Socket.thy ===== *)
theory Net_Socket
  imports Tcp_Server
begin

text \<open>
  The class \<open>Socket\<close> (\<open>src/include/Socket.h\<close>, \<open>src/src/Socket.cpp\<close>) and the \<open>Acceptor\<close> with
  the system calls that it makes through it. The open sockets of the process are a map
  from descriptors to what the calls have set; what a call returns is a parameter. The
  errors that the code treats as fatal are \<open>Abort\<close>.
\<close>

section \<open>Operations\<close>

datatype sock_opt = TCP_NODELAY | SO_REUSEADDR | SO_REUSEPORT | SO_KEEPALIVE

record sock =
  so_opts :: "sock_opt \<Rightarrow> int"
  so_addr :: "inet_address option"
  so_backlog :: "int option"
  so_writeDown :: bool

type_synonym sock_table = "int \<rightharpoonup> sock"

definition sock_new :: sock where
  "sock_new = \<lparr>so_opts = (\<lambda>_. 0), so_addr = None, so_backlog = None, so_writeDown = False\<rparr>"

definition on_sock :: "(sock \<Rightarrow> sock) \<Rightarrow> int \<Rightarrow> sock_table \<Rightarrow> sock_table" where
  "on_sock f sockfd tb = (case tb sockfd of None \<Rightarrow> tb | Some s \<Rightarrow> tb(sockfd \<mapsto> f s))"

definition Socket_dtor :: "int \<Rightarrow> sock_table \<Rightarrow> sock_table" where
  "Socket_dtor sockfd tb = tb(sockfd := None)"

definition bindAddress :: "int \<Rightarrow> inet_address \<Rightarrow> int \<Rightarrow> sock_table \<Rightarrow> sock_table res" where
  "bindAddress r localaddr sockfd tb =
     (if 0 \<noteq> r then Inl Abort else Inr (on_sock (\<lambda>s. s\<lparr>so_addr := Some localaddr\<rparr>) sockfd tb))"

definition Socket_listen :: "int \<Rightarrow> int \<Rightarrow> sock_table \<Rightarrow> sock_table res" where
  "Socket_listen r sockfd tb =
     (if 0 \<noteq> r then Inl Abort else Inr (on_sock (\<lambda>s. s\<lparr>so_backlog := Some 1024\<rparr>) sockfd tb))"

text \<open>\<open>accept4\<close> answers with a descriptor and an address; the address is taken over on success only.\<close>

definition Socket_accept ::
    "int \<times> inet_address \<Rightarrow> inet_address \<Rightarrow> sock_table \<Rightarrow> int \<times> inet_address \<times> sock_table" where
  "Socket_accept r peeraddr tb =
     (let (connfd, addr) = r
      in if connfd \<ge> 0 then (connfd, addr, tb(connfd \<mapsto> sock_new)) else (connfd, peeraddr, tb))"

definition shutdownWrite :: "int \<Rightarrow> int \<Rightarrow> sock_table \<Rightarrow> sock_table" where
  "shutdownWrite r sockfd tb = (if r < 0 then tb else on_sock (\<lambda>s. s\<lparr>so_writeDown := True\<rparr>) sockfd tb)"

text \<open>\<open>setsockopt\<close> changes the option when it returns 0; the code does not look at its result \<open>r\<close>.\<close>

definition setsockopt :: "int \<Rightarrow> sock_opt \<Rightarrow> bool \<Rightarrow> int \<Rightarrow> sock_table \<Rightarrow> sock_table" where
  "setsockopt r opt on sockfd tb =
     (if r = 0 then on_sock (\<lambda>s. s\<lparr>so_opts := (so_opts s)(opt := (if on then 1 else 0))\<rparr>) sockfd tb else tb)"

definition setTcpNoDelay :: "int \<Rightarrow> bool \<Rightarrow> int \<Rightarrow> sock_table \<Rightarrow> sock_table" where
  "setTcpNoDelay r on = setsockopt r TCP_NODELAY on"

definition setReuseAddr :: "int \<Rightarrow> bool \<Rightarrow> int \<Rightarrow> sock_table \<Rightarrow> sock_table" where
  "setReuseAddr r on = setsockopt r SO_REUSEADDR on"

definition setReusePort :: "int \<Rightarrow> bool \<Rightarrow> int \<Rightarrow> sock_table \<Rightarrow> sock_table" where
  "setReusePort r on = setsockopt r SO_REUSEPORT on"

definition setKeepAlive :: "int \<Rightarrow> bool \<Rightarrow> int \<Rightarrow> sock_table \<Rightarrow> sock_table" where
  "setKeepAlive r on = setsockopt r SO_KEEPALIVE on"

section \<open>The socket of the acceptor\<close>

definition createNonblocking :: "int \<Rightarrow> sock_table \<Rightarrow> (int \<times> sock_table) res" where
  "createNonblocking sockfd tb = (if sockfd < 0 then Inl Abort else Inr (sockfd, tb(sockfd \<mapsto> sock_new)))"

text \<open>
  The constructor, with what \<open>socket\<close>, the two calls of \<open>setsockopt\<close> and \<open>bind\<close> return; \<open>a\<close> is
  the address of the channel.
\<close>

definition Acceptor_ctor ::
    "int \<Rightarrow> int \<Rightarrow> int \<Rightarrow> int \<Rightarrow> nat \<Rightarrow> inet_address \<Rightarrow> bool \<Rightarrow> sock_table \<Rightarrow> (acceptor \<times> sock_table) res" where
  "Acceptor_ctor r_socket r_addr r_port r_bind a listenAddr reuseport tb =
     res_bind (createNonblocking r_socket tb) (\<lambda>(sockfd, tb1).
       res_bind (bindAddress r_bind listenAddr sockfd (setReusePort r_port True sockfd (setReuseAddr r_addr True sockfd tb1)))
         (\<lambda>tb2. Inr (Acceptor_new a sockfd reuseport, tb2)))"

definition Acceptor_listen_socket ::
    "ctl_fn \<Rightarrow> int \<Rightarrow> acceptor \<Rightarrow> poller \<Rightarrow> sock_table \<Rightarrow> (acceptor \<times> poller \<times> sock_table) res" where
  "Acceptor_listen_socket ctl r_listen ac p tb =
     res_bind (Socket_listen r_listen (ch_fd (ac_channel ac)) tb) (\<lambda>tb1.
       res_bind (Acceptor_listen ctl ac p) (\<lambda>(ac1, p1). Inr (ac1, p1, tb1)))"

text \<open>The destructor and that of the member \<open>acceptSocket_\<close>.\<close>

definition Acceptor_destroy ::
    "ctl_fn \<Rightarrow> acceptor \<Rightarrow> poller \<Rightarrow> sock_table \<Rightarrow> (poller \<times> sock_table) res" where
  "Acceptor_destroy ctl ac p tb =
     res_bind (Acceptor_dtor ctl ac p) (\<lambda>(ac1, p1). Inr (p1, Socket_dtor (ch_fd (ac_channel ac)) tb))"

section \<open>Lemmas\<close>

lemma on_sock_other [simp]: "fd \<noteq> sockfd \<Longrightarrow> on_sock f sockfd tb fd = tb fd"
  by (simp add: on_sock_def split: option.split)

lemma on_sock_same [simp]: "tb sockfd = Some s \<Longrightarrow> on_sock f sockfd tb sockfd = Some (f s)"
  by (simp add: on_sock_def)

lemma option_unset: "(\<lambda>_. 0)(opt := 0) = (\<lambda>_. 0 :: int)"
  by auto

definition listen_socket :: "int \<Rightarrow> int \<Rightarrow> inet_address \<Rightarrow> sock" where
  "listen_socket r_addr r_port addr = sock_new\<lparr>so_opts := (\<lambda>_. 0)(SO_REUSEADDR := (if r_addr = 0 then 1 else 0),
     SO_REUSEPORT := (if r_port = 0 then 1 else 0)), so_addr := Some addr\<rparr>"

lemma Acceptor_ctor_cases:
  "Acceptor_ctor fd r_addr r_port r_bind a addr reuseport tb =
     (if fd < 0 \<or> r_bind \<noteq> 0 then Inl Abort
      else Inr (Acceptor_new a fd reuseport, tb(fd \<mapsto> listen_socket r_addr r_port addr)))"
  by (auto simp: Acceptor_ctor_def createNonblocking_def bindAddress_def setReusePort_def setReuseAddr_def
      setsockopt_def on_sock_def sock_new_def listen_socket_def fun_eq_iff)

text \<open>The constructor does not look at \<open>reuseport\<close>: it asks for the reuse of the port also without it.\<close>

lemma acceptor_ignores_reuseport:
  "\<exists>ac s. Acceptor_ctor 3 0 0 0 a addr False Map.empty = Inr (ac, [3 \<mapsto> s]) \<and> so_opts s SO_REUSEPORT = 1"
  by (rule exI, rule exI [of _ "listen_socket 0 0 addr"]) (simp add: Acceptor_ctor_cases listen_socket_def)

text \<open>The channel of a new acceptor becomes registered for reading, and is unregistered again.\<close>

lemma Acceptor_listen_ok:
  assumes "ctl_honest ctl" and "po_channels p fd = None" and "interest (po_calls p) fd = None"
  shows "\<exists>ac p1. Acceptor_listen ctl (Acceptor_new a fd b) p = Inr (ac, p1) \<and> ac_listenning ac \<and>
    ch_fd (ac_channel ac) = fd \<and> chan_inv (ac_channel ac) p1 \<and> ch_index (ac_channel ac) = kAdded \<and>
    interest (po_calls p1) fd = Some (kReadEvent, a)"
  using assms
  by (simp add: Acceptor_listen_def Acceptor_new_def enableReading_def updateChannel_def Channel_new_def
      epoll_update_def Let_def chan_inv_def index_consts ctl_honest_def ctl_legal_def interest_snoc)

lemma Acceptor_dtor_ok:
  assumes "ctl_honest ctl" and "chan_inv (ac_channel ac) p" and "ch_index (ac_channel ac) = kAdded"
  shows "\<exists>ac1 p1. Acceptor_dtor ctl ac p = Inr (ac1, p1) \<and> po_channels p1 (ch_fd (ac_channel ac)) = None \<and>
    interest (po_calls p1) (ch_fd (ac_channel ac)) = None"
  using assms
  by (auto simp: Acceptor_dtor_def disableAll_def updateChannel_def removeChannel_def epoll_update_def Let_def
      chan_inv_def index_consts isNoneEvent_def ctl_honest_def ctl_legal_def interest_snoc)

section \<open>Properties\<close>

text \<open>
  C39: the listening socket. The constructor of the acceptor and \<open>listen\<close> abort exactly when
  \<open>socket\<close>, \<open>bind\<close> or \<open>listen\<close> fail; a failure of \<open>setsockopt\<close> is passed over. Otherwise the
  socket is bound to the given address and listens with a backlog of 1024, with
  \<open>SO_REUSEADDR\<close> set unless that call failed and, when the acceptor was asked to reuse the
  port, \<open>SO_REUSEPORT\<close> set unless that call failed; its channel is registered for reading,
  and no other descriptor is touched. The destructor removes the channel from poller and
  kernel and closes exactly this socket.
\<close>

theorem acceptor_socket_life:
  assumes "ctl_honest ctl" and "tb fd = None" and "po_channels p fd = None" and "interest (po_calls p) fd = None"
  shows "case Acceptor_ctor fd r_addr r_port r_bind a addr reuseport tb of
      Inl e \<Rightarrow> e = Abort \<and> (fd < 0 \<or> r_bind \<noteq> 0)
    | Inr (ac, tb1) \<Rightarrow> 0 \<le> fd \<and> r_bind = 0 \<and>
        (\<exists>s. tb1 = tb(fd \<mapsto> s) \<and> so_addr s = Some addr \<and> so_backlog s = None \<and> \<not> so_writeDown s \<and>
           so_opts s SO_REUSEADDR = (if r_addr = 0 then 1 else 0) \<and>
           (reuseport \<longrightarrow> so_opts s SO_REUSEPORT = (if r_port = 0 then 1 else 0)) \<and>
           (case Acceptor_listen_socket ctl r_listen ac p tb1 of
              Inl e \<Rightarrow> e = Abort \<and> r_listen \<noteq> 0
            | Inr (ac2, p2, tb2) \<Rightarrow> r_listen = 0 \<and> ac_listenning ac2 \<and>
                tb2 = tb(fd \<mapsto> s\<lparr>so_backlog := Some 1024\<rparr>) \<and>
                interest (po_calls p2) fd = Some (kReadEvent, a) \<and>
                (\<exists>p3. Acceptor_destroy ctl ac2 p2 tb2 = Inr (p3, tb) \<and> po_channels p3 fd = None \<and>
                   interest (po_calls p3) fd = None)))"
proof (cases "fd < 0 \<or> r_bind \<noteq> 0")
  case True
  then show ?thesis by (auto simp: Acceptor_ctor_cases)
next
  case False
  let ?s = "listen_socket r_addr r_port addr" and ?ac = "Acceptor_new a fd reuseport"
  have s: "so_addr ?s = Some addr" "so_backlog ?s = None" "\<not> so_writeDown ?s"
    "so_opts ?s SO_REUSEADDR = (if r_addr = 0 then 1 else 0)" "so_opts ?s SO_REUSEPORT = (if r_port = 0 then 1 else 0)"
    by (simp_all add: listen_socket_def sock_new_def)
  obtain ac p1 where ac: "Acceptor_listen ctl ?ac p = Inr (ac, p1)" "ac_listenning ac"
    "ch_fd (ac_channel ac) = fd" "chan_inv (ac_channel ac) p1" "ch_index (ac_channel ac) = kAdded"
    "interest (po_calls p1) fd = Some (kReadEvent, a)"
    using Acceptor_listen_ok [OF assms(1,3,4)] by blast
  obtain ac1 p3 where dtor: "Acceptor_dtor ctl ac p1 = Inr (ac1, p3)" "po_channels p3 fd = None"
    "interest (po_calls p3) fd = None"
    using Acceptor_dtor_ok [OF assms(1) ac(4,5)] ac(3) by auto
  have tb: "tb(fd := None) = tb" "ch_fd (ac_channel ?ac) = fd"
    using assms(2) by (auto simp: Acceptor_new_def Channel_new_def)
  have "case Acceptor_listen_socket ctl r_listen ?ac p (tb(fd \<mapsto> ?s)) of
      Inl e \<Rightarrow> e = Abort \<and> r_listen \<noteq> 0
    | Inr (ac2, p2, tb2) \<Rightarrow> r_listen = 0 \<and> ac_listenning ac2 \<and> tb2 = tb(fd \<mapsto> ?s\<lparr>so_backlog := Some 1024\<rparr>) \<and>
        interest (po_calls p2) fd = Some (kReadEvent, a) \<and>
        (\<exists>p3. Acceptor_destroy ctl ac2 p2 tb2 = Inr (p3, tb) \<and> po_channels p3 fd = None \<and>
           interest (po_calls p3) fd = None)"
    using ac dtor tb
    by (simp add: Acceptor_listen_socket_def Socket_listen_def Acceptor_destroy_def Socket_dtor_def on_sock_def)
  then show ?thesis using False s by (auto simp: Acceptor_ctor_cases intro!: exI [of _ ?s])
qed

theorem acceptor_socket_life_witness:
  "(\<exists>ac s. Acceptor_ctor 3 0 0 0 9 \<lparr>sin_port = (31, 144), sin_addr = (127, 0, 0, 1)\<rparr> True Map.empty = Inr (ac, [3 \<mapsto> s]) \<and>
     so_opts s SO_REUSEADDR = 1 \<and> so_opts s SO_REUSEPORT = 1) \<and>
   Acceptor_ctor 3 0 0 (- 1) 9 \<lparr>sin_port = (31, 144), sin_addr = (127, 0, 0, 1)\<rparr> True Map.empty = Inl Abort"
  using acceptor_socket_life [where ctl = "\<lambda>_ _. True" and tb = Map.empty and fd = 3 and p = EPollPoller_new
      and r_addr = 0 and r_port = 0 and r_bind = 0 and a = 9
      and addr = "\<lparr>sin_port = (31, 144), sin_addr = (127, 0, 0, 1)\<rparr>" and reuseport = True and r_listen = 0]
  by (auto simp: ctl_honest_def EPollPoller_new_def interest_def Acceptor_ctor_cases)

end
