(* ===== verification/Server_Descriptors.thy ===== *)
theory Server_Descriptors
  imports Tcp_Server Net_Socket
begin

text \<open>
  The descriptors of a running server: what \<open>accept4\<close> opens (\<open>src/src/Socket.cpp\<close>), who owns
  it, which poller watches it, and when it is closed (\<open>TcpConnection\<close> owns its \<open>Socket\<close> and
  its \<open>Channel\<close>, \<open>src/src/TcpConnection.cpp\<close>). The steps are those of \<open>Tcp_Server\<close>, with the
  table of open sockets beside the world; \<open>own\<close> is the set of the descriptors of the program
  itself (the listening socket and the eventfds of the loops).
\<close>

section \<open>Steps\<close>

definition conn_fd :: "'c conn_obj \<Rightarrow> int" where
  "conn_fd co = ch_fd (tc_channel (co_conn co))"

text \<open>The object that a functor may release last.\<close>

fun subject :: "server_functor \<Rightarrow> nat option" where
  "subject (ConnectEstablished cid) = Some cid"
| "subject (ConnectDestroyed cid) = Some cid"
| "subject (RemoveConnectionInLoop cid) = Some cid"
| "subject AcceptorListen = None"
| "subject (ConnFunctor cid f) = Some cid"

text \<open>The destructor of a connection destroys its socket.\<close>

definition close_freed :: "server_functor \<Rightarrow> 'c world \<Rightarrow> 'c world \<Rightarrow> sock_table \<Rightarrow> sock_table" where
  "close_freed f w w' tb =
     (case subject f of
        None \<Rightarrow> tb
      | Some cid \<Rightarrow>
          (case w_heap w cid of
             None \<Rightarrow> tb
           | Some co \<Rightarrow> if w_heap w' cid = None then Socket_dtor (conn_fd co) tb else tb))"

text \<open>
  An accepted descriptor is one that was not open; the constructor of the connection sets
  its keep-alive option, whatever \<open>setsockopt\<close> returns (\<open>r\<close>).
\<close>

inductive desc_step ::
    "kernel \<Rightarrow> 'c conn_callbacks \<Rightarrow> (nat \<Rightarrow> nat \<Rightarrow> string) \<Rightarrow> 'c world \<times> sock_table \<Rightarrow> 'c world \<times> sock_table \<Rightarrow> bool"
  for k :: kernel and cbs :: "'c conn_callbacks" and mem :: "nat \<Rightarrow> nat \<Rightarrow> string" where
  desc_accept:
    "tb connfd = None \<Longrightarrow> 0 \<le> connfd \<Longrightarrow> Socket_accept (connfd, addr) peer tb = (connfd, addr, tb1) \<Longrightarrow>
     Acceptor_handleRead k cbs (Inr connfd) w = Inr w' \<Longrightarrow>
     desc_step k cbs mem (w, tb) (w', setKeepAlive r True connfd tb1)"
| desc_refused:
    "Acceptor_handleRead k cbs (Inl err) w = Inr w' \<Longrightarrow> desc_step k cbs mem (w, tb) (w', tb)"
| desc_functor:
    "w_queues w l = f # fs \<Longrightarrow>
     run_functor k cbs mem f (w\<lparr>w_queues := (w_queues w)(l := fs)\<rparr>) = Inr w' \<Longrightarrow>
     desc_step k cbs mem (w, tb) (w', close_freed f w w' tb)"
| desc_output:
    "w_heap w cid = Some co \<Longrightarrow> conn_up (co_state co) \<Longrightarrow>
     on_conn (conn_run k evs) cid w = Inr w' \<Longrightarrow> desc_step k cbs mem (w, tb) (w', tb)"
| desc_close:
    "w_heap w cid = Some co \<Longrightarrow> conn_up (co_state co) \<Longrightarrow>
     peer_closed k cbs cid w = Inr w' \<Longrightarrow> desc_step k cbs mem (w, tb) (w', tb)"
| desc_read:
    "w_heap w cid = Some co \<Longrightarrow> conn_up (co_state co) \<Longrightarrow>
     conn_read k cbs readv t cid w = Inr w' \<Longrightarrow> desc_step k cbs mem (w, tb) (w', tb)"

section \<open>Handlers and their channel\<close>

text \<open>
  What a handler does to the registration: as long as that of its channel is consistent, it
  stays so for the same descriptor and address, and no other descriptor is touched.
\<close>

definition chan_frame :: "'c tcp_env \<Rightarrow> 'c tcp_env \<Rightarrow> bool" where
  "chan_frame e e' \<longleftrightarrow> (chan_inv (tc_channel (te_conn e)) (te_poller e) \<longrightarrow>
     op_ok (tc_channel (te_conn e)) (te_poller e) (Inr (tc_channel (te_conn e'), te_poller e')))"

lemma op_ok_refl: "chan_inv ch p \<Longrightarrow> op_ok ch p (Inr (ch, p))"
  by (simp add: op_ok_def)

lemma op_ok_trans: "op_ok ch p (Inr (ch1, p1)) \<Longrightarrow> op_ok ch1 p1 (Inr (ch2, p2)) \<Longrightarrow> op_ok ch p (Inr (ch2, p2))"
  by (auto simp: op_ok_def)

lemma op_ok_inv: "op_ok ch p (Inr (ch1, p1)) \<Longrightarrow> chan_inv ch1 p1"
  by (auto simp: op_ok_def)

lemma chan_frame_same:
  "tc_channel (te_conn e') = tc_channel (te_conn e) \<Longrightarrow> te_poller e' = te_poller e \<Longrightarrow> chan_frame e e'"
  by (simp add: chan_frame_def op_ok_refl)

lemma chan_frame_trans: "chan_frame e e1 \<Longrightarrow> chan_frame e1 e' \<Longrightarrow> chan_frame e e'"
  unfolding chan_frame_def using op_ok_trans op_ok_inv by blast

lemma on_channel_frame:
  assumes "on_channel f e = Inr e'" and "\<And>ch p. chan_inv ch p \<Longrightarrow> op_ok ch p (f ch p)"
  shows "chan_frame e e'"
  using assms by (force simp: on_channel_def chan_frame_def)

lemma chan_ops_ok:
  assumes "ctl_honest ctl" and "chan_inv ch p"
  shows "op_ok ch p (enableReading ctl ch p)" "op_ok ch p (enableWriting ctl ch p)"
    "op_ok ch p (disableWriting ctl ch p)" "op_ok ch p (disableAll ctl ch p)" "op_ok ch p (removeChannel ctl ch p)"
  using updateChannel_ok [OF assms] removeChannel_ok [OF assms] by (simp_all add: chan_ops)

text \<open>The operations of the connection's channel, on its environment.\<close>

lemma on_channel_ops_frame:
  assumes "ctl_honest ctl"
  shows "on_channel (enableReading ctl) e = Inr e' \<Longrightarrow> chan_frame e e'"
    "on_channel (enableWriting ctl) e = Inr e' \<Longrightarrow> chan_frame e e'"
    "on_channel (disableWriting ctl) e = Inr e' \<Longrightarrow> chan_frame e e'"
    "on_channel (disableAll ctl) e = Inr e' \<Longrightarrow> chan_frame e e'"
    "on_channel (removeChannel ctl) e = Inr e' \<Longrightarrow> chan_frame e e'"
  using chan_ops_ok [OF assms] by (auto elim!: on_channel_frame)

lemma direct_write_frame: "direct_write k d e = (n, b, e') \<Longrightarrow> chan_frame e e'"
  by (rule chan_frame_same)
     (auto simp: direct_write_def Let_def env_defs split: if_splits sum.splits)

lemma buffer_rest_frame:
  assumes "ctl_honest (kn_ctl k)" and "buffer_rest k d e = Inr e'"
  shows "chan_frame e e'"
  using assms(2)
  by (auto simp: buffer_rest_def Let_def env_defs chan_frame_def op_ok_refl split: if_splits
      dest!: on_channel_ops_frame(2) [OF assms(1)])

lemma sendInLoop_frame:
  assumes "ctl_honest (kn_ctl k)" and "sendInLoop k d e = Inr e'"
  shows "chan_frame e e'"
  using assms(2)
  by (auto simp: sendInLoop_def Let_def chan_frame_same split: if_splits prod.splits
      dest!: buffer_rest_frame [OF assms(1)] direct_write_frame intro: chan_frame_trans)

lemma shutdownInLoop_frame: "chan_frame e (shutdownInLoop e)"
  by (rule chan_frame_same) (simp_all add: shutdownInLoop_def)

lemma handleWrite_frame:
  assumes "ctl_honest (kn_ctl k)" and "handleWrite k e = Inr e'"
  shows "chan_frame e e'"
  using assms(2)
  by (auto simp: handleWrite_def Let_def shutdownInLoop_def env_defs chan_frame_def op_ok_refl
      split: if_splits sum.splits dest!: on_channel_ops_frame(3) [OF assms(1)])

lemma conn_exec_frame:
  assumes "ctl_honest (kn_ctl k)" and "conn_exec k ev e = Inr e'"
  shows "chan_frame e e'"
  using assms(2)
  by (cases ev) (auto simp: send_def shutdown_def shutdownInLoop_def Let_def env_defs
      chan_frame_same split: if_splits dest!: sendInLoop_frame [OF assms(1)] handleWrite_frame [OF assms(1)])

lemma conn_run_frame:
  assumes "ctl_honest (kn_ctl k)"
  shows "conn_run k evs e = Inr e' \<Longrightarrow> chan_frame e e'"
proof (induction evs arbitrary: e)
  case (Cons ev evs)
  then obtain e1 where "conn_exec k ev e = Inr e1" "conn_run k evs e1 = Inr e'" by auto
  then show ?case using conn_exec_frame [OF assms] Cons.IH chan_frame_trans by blast
qed (simp add: chan_frame_same)

text \<open>What the user's callbacks may do to the registration.\<close>

definition cb_frame :: "('c tcp_env \<Rightarrow> 'c tcp_env res) \<Rightarrow> bool" where
  "cb_frame cb \<longleftrightarrow> (\<forall>e e'. cb e = Inr e' \<longrightarrow> chan_frame e e')"

lemma connectEstablished_frame:
  assumes "ctl_honest (kn_ctl k)" and "cb_frame (connectionCallback cbs)" and "connectEstablished k cbs e = Inr e'"
  shows "chan_frame e e'"
proof -
  let ?e = "(setState kConnected e)\<lparr>te_conn := (te_conn (setState kConnected e))\<lparr>tc_channel := tie (tc_channel (te_conn e))\<rparr>\<rparr>"
  obtain e1 where e1: "on_channel (enableReading (kn_ctl k)) ?e = Inr e1" "connectionCallback cbs e1 = Inr e'"
    using assms(3) by (auto simp: connectEstablished_def Let_def setState_def)
  have "chan_frame e ?e" by (simp add: chan_frame_def op_ok_def tie_def chan_inv_def setState_def)
  moreover have "chan_frame ?e e1" by (rule on_channel_ops_frame(1) [OF assms(1) e1(1)])
  moreover have "chan_frame e1 e'" using assms(2) e1(2) by (simp add: cb_frame_def)
  ultimately show ?thesis by (blast intro: chan_frame_trans)
qed

lemma handleClose_frame:
  assumes "ctl_honest (kn_ctl k)" and "cb_frame (connectionCallback cbs)"
    and "handleClose k (cbs\<lparr>connCloseCallback := Inr\<rparr>) e = Inr e'"
  shows "chan_frame e e'"
proof -
  obtain e1 where e1: "on_channel (disableAll (kn_ctl k)) (setState kDisconnected e) = Inr e1"
    "connectionCallback cbs e1 = Inr e'"
    using assms(3) by (auto simp: handleClose_def)
  have "chan_frame e (setState kDisconnected e)" by (rule chan_frame_same) (simp_all add: setState_def)
  moreover have "chan_frame (setState kDisconnected e) e1" by (rule on_channel_ops_frame(4) [OF assms(1) e1(1)])
  moreover have "chan_frame e1 e'" using assms(2) e1(2) by (simp add: cb_frame_def)
  ultimately show ?thesis by (blast intro: chan_frame_trans)
qed

definition cbs_frame :: "'c conn_callbacks \<Rightarrow> bool" where
  "cbs_frame cbs \<longleftrightarrow> cb_frame (connectionCallback cbs) \<and> (\<forall>t. cb_frame (messageCallback cbs t))"

lemma handleRead_frame:
  assumes "ctl_honest (kn_ctl k)" and cb: "cbs_frame cbs"
    and r: "handleRead k (cbs\<lparr>connCloseCallback := Inr\<rparr>) readv t e = Inr e'"
  shows "chan_frame e e'"
proof -
  obtain n b where b: "readFd readv (tc_input (te_conn e)) = (n, b)" by fastforce
  let ?e1 = "e\<lparr>te_conn := (te_conn e)\<lparr>tc_input := b\<rparr>\<rparr>"
  have c: "cb_frame (connectionCallback cbs)" "cb_frame (messageCallback cbs t)"
    using cb by (auto simp: cbs_frame_def)
  have "chan_frame e ?e1" by (rule chan_frame_same) simp_all
  moreover have "chan_frame ?e1 e'"
    using r b handleClose_frame [OF assms(1) c(1), of ?e1 e'] c(2)
    by (auto simp: handleRead_def handleError_def cb_frame_def chan_frame_same Let_def
        split: sum.splits if_splits)
  ultimately show ?thesis by (rule chan_frame_trans)
qed

lemma connectDestroyed_frame:
  assumes "ctl_honest (kn_ctl k)" and "tc_state (te_conn e) = kDisconnected" and "connectDestroyed k cbs e = Inr e'"
  shows "chan_frame e e' \<and> ch_index (tc_channel (te_conn e')) = kNew"
proof -
  have "on_channel (removeChannel (kn_ctl k)) e = Inr e'" using assms(2,3) by (simp add: connectDestroyed_def)
  moreover from this have "ch_index (tc_channel (te_conn e')) = kNew"
    by (auto simp: on_channel_def removeChannel_def Let_def split: if_splits)
  ultimately show ?thesis using on_channel_ops_frame(5) [OF assms(1)] by blast
qed

section \<open>Invariant\<close>

text \<open>
  The pollers and the table of descriptors against the connection objects: every connection
  has an open descriptor of its own with the keep-alive option, and a consistent
  registration under its own address in the poller of its loop; what is open or registered
  belongs to a connection or to the program itself.
\<close>

definition watched :: "poller \<Rightarrow> int \<Rightarrow> bool" where
  "watched p fd \<longleftrightarrow> po_channels p fd \<noteq> None \<or> interest (po_calls p) fd \<noteq> None"

definition conn_desc :: "int set \<Rightarrow> sock_table \<Rightarrow> (nat \<Rightarrow> poller) \<Rightarrow> nat \<Rightarrow> 'c conn_obj \<Rightarrow> bool" where
  "conn_desc own tb ps cid co \<longleftrightarrow> conn_fd co \<notin> own \<and> ch_addr (tc_channel (co_conn co)) = cid \<and>
     chan_inv (tc_channel (co_conn co)) (ps (co_loop co)) \<and>
     tb (conn_fd co) \<noteq> None"

definition acceptor_desc :: "int set \<Rightarrow> 'c world \<Rightarrow> bool" where
  "acceptor_desc own w \<longleftrightarrow> ch_fd (ac_channel (ts_acceptor (w_server w))) \<in> own \<and>
     chan_inv (ac_channel (ts_acceptor (w_server w))) (w_pollers w (ts_loop (w_server w)))"

definition desc_ok :: "int set \<Rightarrow> 'c world \<Rightarrow> sock_table \<Rightarrow> bool" where
  "desc_ok own w tb \<longleftrightarrow> own \<subseteq> dom tb \<and> acceptor_desc own w \<and>
     (\<forall>cid co. w_heap w cid = Some co \<longrightarrow> conn_desc own tb (w_pollers w) cid co) \<and>
     (\<forall>c d co co'. w_heap w c = Some co \<longrightarrow> w_heap w d = Some co' \<longrightarrow> conn_fd co = conn_fd co' \<longrightarrow> c = d) \<and>
     (\<forall>fd. tb fd \<noteq> None \<longrightarrow> fd \<in> own \<or> (\<exists>cid co. w_heap w cid = Some co \<and> conn_fd co = fd)) \<and>
     (\<forall>l fd. watched (w_pollers w l) fd \<longrightarrow> fd \<in> own \<or>
        (\<exists>cid co. w_heap w cid = Some co \<and> co_loop co = l \<and> conn_fd co = fd))"

text \<open>
  A connection that has left the map and waits for no \<open>connectDestroyed\<close> is out of its
  poller.
\<close>

definition unlinked :: "nat \<Rightarrow> 'c conn_obj \<Rightarrow> 'c world \<Rightarrow> bool" where
  "unlinked cid co w \<longleftrightarrow> \<not> in_map cid co w \<and> ConnectDestroyed cid \<notin> set (w_queues w (co_loop co))"

definition parted_but :: "nat \<Rightarrow> 'c world \<Rightarrow> bool" where
  "parted_but c w \<longleftrightarrow> (\<forall>cid co. cid \<noteq> c \<longrightarrow> w_heap w cid = Some co \<longrightarrow> unlinked cid co w \<longrightarrow>
     ch_index (tc_channel (co_conn co)) = kNew)"

definition parted :: "'c world \<Rightarrow> bool" where
  "parted w \<longleftrightarrow> (\<forall>cid co. w_heap w cid = Some co \<longrightarrow> unlinked cid co w \<longrightarrow>
     ch_index (tc_channel (co_conn co)) = kNew)"

definition desc_inv :: "int set \<Rightarrow> 'c world \<times> sock_table \<Rightarrow> bool" where
  "desc_inv own s \<longleftrightarrow> server_inv (fst s) \<and> desc_ok own (fst s) (snd s) \<and> parted (fst s)"

section \<open>Preservation\<close>

lemma desc_cong:
  "w_heap w' = w_heap w \<Longrightarrow> w_pollers w' = w_pollers w \<Longrightarrow>
   ts_acceptor (w_server w') = ts_acceptor (w_server w) \<Longrightarrow> ts_loop (w_server w') = ts_loop (w_server w) \<Longrightarrow>
   desc_ok own w' tb = desc_ok own w tb"
  by (simp add: desc_ok_def acceptor_desc_def)

lemma not_watched: "\<not> watched p fd \<longleftrightarrow> po_channels p fd = None \<and> interest (po_calls p) fd = None"
  by (simp add: watched_def del: not_None_eq not_Some_eq)

lemma watched_op:
  assumes "op_ok ch p (Inr (ch', p'))" and "fd \<noteq> ch_fd ch"
  shows "watched p' fd = watched p fd" and "po_channels p' fd = po_channels p fd"
    and "interest (po_calls p') fd = interest (po_calls p) fd"
  using assms by (auto simp: op_ok_def watched_def)

lemma watched_other:
  assumes "op_ok ch p (Inr (ch', p'))" and "chan_inv c p" and "ch_fd c \<noteq> ch_fd ch"
  shows "chan_inv c p'"
  by (rule chan_inv_other [OF assms(2)]) (use watched_op [OF assms(1,3)] in simp_all)

text \<open>A handler of one connection.\<close>

lemma acceptor_desc_other:
  assumes a: "acceptor_desc own w" and cd: "conn_desc own tb (w_pollers w) cid co"
    and op: "op_ok (tc_channel (co_conn co)) (w_pollers w (co_loop co)) (Inr (ch', p'))"
    and w': "w_pollers w' = (w_pollers w)(co_loop co := p')" "w_server w' = w_server w"
  shows "acceptor_desc own w'"
proof -
  have "ch_fd (ac_channel (ts_acceptor (w_server w))) \<noteq> ch_fd (tc_channel (co_conn co))"
    using a cd unfolding acceptor_desc_def conn_desc_def conn_fd_def by metis
  then have "chan_inv (ac_channel (ts_acceptor (w_server w))) p'" if "ts_loop (w_server w) = co_loop co"
    using a that watched_other [OF op] by (auto simp: acceptor_desc_def)
  with a show ?thesis by (simp add: acceptor_desc_def w')
qed

lemma on_conn_desc:
  assumes ok: "desc_ok own w tb" and r: "on_conn f cid w = Inr w'"
    and f: "\<And>e e'. f e = Inr e' \<Longrightarrow> e = conn_env (the (w_heap w cid)) w \<Longrightarrow> chan_frame e e'"
  shows "desc_ok own w' tb"
proof -
  obtain co e where co: "w_heap w cid = Some co" and e: "f (conn_env co w) = Inr e" and w': "w' = store_env cid co e w"
    using r by (auto simp: on_conn_def split: option.splits)
  let ?co = "co\<lparr>co_conn := te_conn e, co_sent := te_sent e, co_shutdown := te_shutdown e\<rparr>"
  let ?p = "w_pollers w (co_loop co)" and ?ch = "tc_channel (co_conn co)" and ?ch' = "tc_channel (te_conn e)"
  have cd: "conn_desc own tb (w_pollers w) cid co" using ok co by (simp add: desc_ok_def)
  then have op: "op_ok ?ch ?p (Inr (?ch', te_poller e))"
    using f [OF e] co by (simp add: chan_frame_def conn_env_def conn_desc_def)
  then have ch: "ch_fd ?ch' = ch_fd ?ch" "ch_addr ?ch' = ch_addr ?ch" "chan_inv ?ch' (te_poller e)"
    by (auto simp: op_ok_def)
  then have fd: "conn_fd ?co = conn_fd co" by (simp add: conn_fd_def)
  have ps: "w_pollers w' = (w_pollers w)(co_loop co := te_poller e)" "w_heap w' = (w_heap w)(cid \<mapsto> ?co)"
    "w_server w' = w_server w"
    by (simp_all add: w' store_env_def)
  have uniq: "conn_fd d \<noteq> conn_fd co" if "w_heap w c = Some d" "c \<noteq> cid" for c d
    using ok co that unfolding desc_ok_def by metis
  have "conn_desc own tb (w_pollers w') c d" if "w_heap w' c = Some d" for c d
  proof (cases "c = cid")
    case True
    then show ?thesis using that cd ch fd by (auto simp: ps conn_desc_def)
  next
    case False
    then have d: "w_heap w c = Some d" "conn_desc own tb (w_pollers w) c d"
      using that ok by (auto simp: ps desc_ok_def)
    then show ?thesis
      using watched_other [OF op] uniq [OF d(1) False] by (auto simp: conn_desc_def ps conn_fd_def)
  qed
  moreover have "acceptor_desc own w'"
    using acceptor_desc_other [OF _ cd op ps(1,3)] ok by (simp add: desc_ok_def)
  moreover have "c = d" if "w_heap w' c = Some x" "w_heap w' d = Some y" "conn_fd x = conn_fd y" for c d x y
    using that uniq fd ok unfolding ps desc_ok_def by (metis fun_upd_apply option.inject)
  moreover have "\<exists>c x. w_heap w' c = Some x \<and> co_loop x = co_loop y \<and> conn_fd x = conn_fd y"
    if "w_heap w d = Some y" for d y
    using that co fd by (cases "d = cid") (auto simp: ps)
  note lift = this
  moreover have "fd' \<in> own \<or> (\<exists>c x. w_heap w' c = Some x \<and> conn_fd x = fd')" if "tb fd' \<noteq> None" for fd'
    using ok that lift unfolding desc_ok_def by metis
  moreover have "fd' \<in> own \<or> (\<exists>c x. w_heap w' c = Some x \<and> co_loop x = l \<and> conn_fd x = fd')"
    if "watched (w_pollers w' l) fd'" for l fd'
  proof (cases "l = co_loop co \<and> fd' = conn_fd co")
    case True
    then show ?thesis using lift [OF co] by auto
  next
    case False
    then have "watched (w_pollers w l) fd'"
      using that watched_op(1) [OF op, of fd'] by (auto simp: ps conn_fd_def split: if_splits)
    then show ?thesis using ok lift unfolding desc_ok_def by metis
  qed
  ultimately show ?thesis using ok unfolding desc_ok_def by (intro conjI) blast+
qed

text \<open>A new connection on a descriptor that was not open.\<close>

definition accepted_sock :: "int \<Rightarrow> sock" where
  "accepted_sock r = sock_new\<lparr>so_opts := (\<lambda>_. 0)(SO_KEEPALIVE := (if r = 0 then 1 else 0))\<rparr>"

lemma accepted_table:
  "Socket_accept (connfd, addr) peer tb = (connfd, addr, tb1) \<Longrightarrow> 0 \<le> connfd \<Longrightarrow>
     setKeepAlive r True connfd tb1 = tb(connfd \<mapsto> accepted_sock r)"
  by (auto simp: Socket_accept_def setKeepAlive_def setsockopt_def on_sock_def accepted_sock_def sock_new_def option_unset)

lemma unused_descriptor:
  assumes ok: "desc_ok own w tb" and fresh: "tb fd = None"
  shows "fd \<notin> own" and "w_heap w c = Some d \<Longrightarrow> conn_fd d \<noteq> fd"
    and "chan_inv (Channel_new a fd) (w_pollers w l)"
proof -
  show own: "fd \<notin> own" using ok fresh by (auto simp: desc_ok_def)
  have other: "conn_fd d \<noteq> fd" if "w_heap w c = Some d" for c d
    using ok fresh that by (force simp: desc_ok_def conn_desc_def)
  then show "w_heap w c = Some d \<Longrightarrow> conn_fd d \<noteq> fd" .
  have "\<not> watched (w_pollers w l) fd" using ok own other unfolding desc_ok_def by metis
  then show "chan_inv (Channel_new a fd) (w_pollers w l)"
    by (simp add: chan_inv_def not_watched Channel_new_def kNew_def)
qed

lemma add_conn_desc:
  assumes ok: "desc_ok own w tb" and fresh: "tb fd = None" "w_heap w cid = None"
    and co: "tc_channel (co_conn co) = Channel_new cid fd"
    and w': "w_heap w' = (w_heap w)(cid \<mapsto> co)" "w_pollers w' = w_pollers w"
      "ts_acceptor (w_server w') = ts_acceptor (w_server w)" "ts_loop (w_server w') = ts_loop (w_server w)"
  shows "desc_ok own w' (tb(fd \<mapsto> so))"
proof -
  let ?tb = "tb(fd \<mapsto> so)"
  have fd: "conn_fd co = fd" using co by (simp add: conn_fd_def Channel_new_def)
  note own = unused_descriptor(1) [OF ok fresh(1)]
  have other: "conn_fd d \<noteq> fd" if "w_heap w c = Some d" for c d
    using unused_descriptor(2) [OF ok fresh(1) that] .
  have "chan_inv (Channel_new cid fd) (w_pollers w (co_loop co))"
    by (rule unused_descriptor(3) [OF ok fresh(1)])
  then have "conn_desc own ?tb (w_pollers w) cid co"
    using co fd own by (simp add: conn_desc_def Channel_new_def)
  moreover have "conn_desc own ?tb (w_pollers w) c d" if "w_heap w c = Some d" for c d
    using ok that other [OF that] by (simp add: desc_ok_def conn_desc_def)
  ultimately have "conn_desc own ?tb (w_pollers w') c d" if "w_heap w' c = Some d" for c d
    using that by (auto simp: w' split: if_splits)
  moreover have "c = d" if "w_heap w' c = Some x" "w_heap w' d = Some y" "conn_fd x = conn_fd y" for c d x y
    using that other fd ok unfolding w' desc_ok_def by (metis fun_upd_apply option.inject)
  moreover have "w_heap w c = Some d \<Longrightarrow> w_heap w' c = Some d" for c d
    using fresh(2) by (auto simp: w')
  note lift = this
  moreover have "fd' \<in> own \<or> (\<exists>c x. w_heap w' c = Some x \<and> conn_fd x = fd')" if "?tb fd' \<noteq> None" for fd'
    using ok that lift fd unfolding w' desc_ok_def by (metis fun_upd_apply)
  moreover have "fd' \<in> own \<or> (\<exists>c x. w_heap w' c = Some x \<and> co_loop x = l \<and> conn_fd x = fd')"
    if "watched (w_pollers w' l) fd'" for l fd'
    using ok that lift unfolding w'(2) desc_ok_def by metis
  moreover have "own \<subseteq> dom ?tb" "acceptor_desc own w'"
    using ok by (auto simp: desc_ok_def acceptor_desc_def w')
  ultimately show ?thesis unfolding desc_ok_def by blast
qed

text \<open>An object that is out of its poller may go, and its descriptor with it.\<close>

lemma free_conn_desc:
  assumes ok: "desc_ok own w tb" and co: "w_heap w cid = Some co" "ch_index (tc_channel (co_conn co)) = kNew"
  shows "desc_ok own (w\<lparr>w_heap := (w_heap w)(cid := None)\<rparr>) (Socket_dtor (conn_fd co) tb)"
proof -
  let ?w = "w\<lparr>w_heap := (w_heap w)(cid := None)\<rparr>" and ?tb = "Socket_dtor (conn_fd co) tb"
  have cd: "conn_desc own tb (w_pollers w) cid co" using ok co(1) by (simp add: desc_ok_def)
  then have unwatched: "\<not> watched (w_pollers w (co_loop co)) (conn_fd co)"
    using co(2) by (auto simp: conn_desc_def chan_inv_def watched_def conn_fd_def index_consts)
  have other: "conn_fd d \<noteq> conn_fd co" if "w_heap w c = Some d" "c \<noteq> cid" for c d
    using ok co(1) that unfolding desc_ok_def by metis
  have "conn_desc own ?tb (w_pollers ?w) c d" if "w_heap ?w c = Some d" for c d
    using ok that other [of c d] by (auto simp: desc_ok_def conn_desc_def Socket_dtor_def split: if_splits)
  moreover have "own \<subseteq> dom ?tb" "acceptor_desc own ?w"
    using ok cd by (auto simp: desc_ok_def acceptor_desc_def conn_desc_def Socket_dtor_def)
  moreover have "c = d" if "w_heap ?w c = Some x" "w_heap ?w d = Some y" "conn_fd x = conn_fd y" for c d x y
    using ok that unfolding desc_ok_def by (auto split: if_splits)
  moreover have "fd' \<in> own \<or> (\<exists>c x. w_heap ?w c = Some x \<and> conn_fd x = fd')" if "?tb fd' \<noteq> None" for fd'
  proof -
    from that have "tb fd' \<noteq> None" "fd' \<noteq> conn_fd co" by (auto simp: Socket_dtor_def split: if_splits)
    with ok have "fd' \<in> own \<or> (\<exists>c x. w_heap w c = Some x \<and> conn_fd x = fd' \<and> c \<noteq> cid)"
      using co(1) unfolding desc_ok_def by (metis option.inject)
    then show ?thesis by auto
  qed
  moreover have "fd' \<in> own \<or> (\<exists>c x. w_heap ?w c = Some x \<and> co_loop x = l \<and> conn_fd x = fd')"
    if "watched (w_pollers ?w l) fd'" for l fd'
  proof -
    from that have "watched (w_pollers w l) fd'" by simp
    with ok unwatched co(1) have "fd' \<in> own \<or> (\<exists>c x. w_heap w c = Some x \<and> co_loop x = l \<and> conn_fd x = fd' \<and> c \<noteq> cid)"
      unfolding desc_ok_def by (metis option.inject)
    then show ?thesis by auto
  qed
  ultimately show ?thesis unfolding desc_ok_def by blast
qed

text \<open>The acceptor starts to listen.\<close>

lemma run_listen_desc:
  assumes ok: "desc_ok own w tb" and "ctl_honest (kn_ctl k)" and r: "run_listen k w = Inr w'"
  shows "desc_ok own w' tb"
proof -
  let ?s = "w_server w" and ?p = "w_pollers w (ts_loop (w_server w))"
  let ?ch = "ac_channel (ts_acceptor (w_server w))"
  have a: "acceptor_desc own w" using ok by (simp add: desc_ok_def)
  obtain ch p where e: "enableReading (kn_ctl k) ?ch ?p = Inr (ch, p)"
    and w': "w' = w\<lparr>w_server := ?s\<lparr>ts_acceptor := (ts_acceptor ?s)\<lparr>ac_listenning := True, ac_channel := ch\<rparr>\<rparr>,
      w_pollers := (w_pollers w)(ts_loop ?s := p)\<rparr>"
    using r by (auto simp: run_listen_def Let_def Acceptor_listen_def)
  have op: "op_ok ?ch ?p (Inr (ch, p))"
    using chan_ops_ok(1) [OF assms(2), of ?ch ?p] a e by (simp add: acceptor_desc_def)
  have own: "ch_fd ?ch \<in> own" using a by (simp add: acceptor_desc_def)
  have "acceptor_desc own w'" using own op by (auto simp: acceptor_desc_def w' op_ok_def)
  moreover have "conn_desc own tb (w_pollers w') c d" if "w_heap w' c = Some d" for c d
  proof -
    have d: "conn_desc own tb (w_pollers w) c d" using that ok by (simp add: w' desc_ok_def)
    then have "ch_fd (tc_channel (co_conn d)) \<noteq> ch_fd ?ch"
      using own unfolding conn_desc_def conn_fd_def by metis
    then have "chan_inv (tc_channel (co_conn d)) p" if "co_loop d = ts_loop ?s"
      using d that watched_other [OF op] by (simp add: conn_desc_def)
    with d show ?thesis by (simp add: conn_desc_def w')
  qed
  moreover have h: "w_heap w' = w_heap w" by (simp add: w')
  moreover have "watched (w_pollers w l) fd \<or> fd \<in> own" if "watched (w_pollers w' l) fd" for l fd
    using that watched_op(1) [OF op, of fd] own by (auto simp: w' split: if_splits)
  then have "\<forall>l fd. watched (w_pollers w' l) fd \<longrightarrow> fd \<in> own \<or>
      (\<exists>cid co. w_heap w' cid = Some co \<and> co_loop co = l \<and> conn_fd co = fd)"
    using ok unfolding desc_ok_def h by metis
  ultimately show ?thesis using ok unfolding desc_ok_def by simp
qed

text \<open>What links a connection: the map and the queues.\<close>

lemma parted_all: "parted w \<Longrightarrow> parted_but c w"
  by (simp add: parted_def parted_but_def)

lemma store_env_links [simp]:
  "unlinked c d (store_env cid co e w) = unlinked c d w" "w_server (store_env cid co e w) = w_server w"
  by (auto simp: unlinked_def in_map_def store_env_def)

lemma unlinked_same:
  "co_name co' = co_name co \<Longrightarrow> co_loop co' = co_loop co \<Longrightarrow> unlinked c co' w = unlinked c co w"
  by (simp add: unlinked_def in_map_def)

lemma on_conn_parted:
  assumes "parted_but cid w" and "on_conn f cid w = Inr w'" and "w_heap w cid = Some co"
    and "\<And>e. unlinked cid co w \<Longrightarrow> f (conn_env co w) = Inr e \<Longrightarrow> ch_index (tc_channel (te_conn e)) = kNew"
  shows "parted w'"
proof -
  obtain e where e: "f (conn_env co w) = Inr e" "w' = store_env cid co e w"
    using assms(2,3) by (auto simp: on_conn_def)
  let ?co = "co\<lparr>co_conn := te_conn e, co_sent := te_sent e, co_shutdown := te_shutdown e\<rparr>"
  have "unlinked cid ?co w = unlinked cid co w" by (rule unlinked_same) simp_all
  moreover have "w_heap w' = (w_heap w)(cid \<mapsto> ?co)" by (simp add: e(2) store_env_def)
  moreover have "unlinked c d w' = unlinked c d w" for c d by (simp add: e(2))
  ultimately show ?thesis
    using assms(1) assms(4) [OF _ e(1)] by (auto simp: parted_def parted_but_def split: if_splits)
qed

lemma pop_links:
  assumes "w_queues w l = f # fs" and "unlinked c d (w\<lparr>w_queues := (w_queues w)(l := fs)\<rparr>)"
    and "f \<noteq> ConnectDestroyed c"
  shows "unlinked c d w"
  using assms by (auto simp: unlinked_def in_map_def split: if_splits)

lemma pop_parted_but:
  assumes "parted w" and "w_queues w l = f # fs" and "\<And>c. f = ConnectDestroyed c \<Longrightarrow> c = cid"
  shows "parted_but cid (w\<lparr>w_queues := (w_queues w)(l := fs)\<rparr>)"
proof -
  have "unlinked c d w" if "unlinked c d (w\<lparr>w_queues := (w_queues w)(l := fs)\<rparr>)" "c \<noteq> cid" for c d
    using pop_links [OF assms(2) that(1)] assms(3) that(2) by blast
  with assms(1) show ?thesis by (simp add: parted_def parted_but_def)
qed

lemma pop_parted:
  assumes "parted w" and "w_queues w l = f # fs" and "\<And>c. f \<noteq> ConnectDestroyed c"
  shows "parted (w\<lparr>w_queues := (w_queues w)(l := fs)\<rparr>)"
  using assms pop_links [OF assms(2)] by (auto simp: parted_def)

lemma post_links: "unlinked c d (post l f w) \<Longrightarrow> unlinked c d w"
  by (auto simp: unlinked_def in_map_def post_def split: if_splits)

lemma post_parted: "parted w \<Longrightarrow> parted (post l f w)"
  unfolding parted_def using post_links by (metis post_fields(1))

lemma post_pollers [simp]: "w_pollers (post l f w) = w_pollers w"
  by (simp add: post_def)

text \<open>The removal from the map comes with a \<open>connectDestroyed\<close>.\<close>

lemma removal_parted:
  assumes "parted w" and "w_heap w cid = Some co"
    and "\<And>c d. w_heap w c = Some d \<Longrightarrow> c \<noteq> cid \<Longrightarrow> co_name d \<noteq> co_name co"
    and r: "removeConnectionInLoop cid w = Inr w'"
  shows "parted w'"
proof -
  have w': "w' = post (co_loop co) (ConnectDestroyed cid) (erase co w)"
    using r assms(2) by (simp add: removeConnectionInLoop_def erase_def)
  have "\<not> unlinked cid co w'" by (simp add: unlinked_def w' post_def)
  moreover have "unlinked c d w" if "unlinked c d w'" "w_heap w c = Some d" "c \<noteq> cid" for c d
    using post_links [of c d _ _ "erase co w"] that assms(3) [OF that(2,3)]
    by (auto simp: w' unlinked_def in_map_def erase_def set_server_def)
  moreover have "w_heap w' = w_heap w" by (simp add: w')
  ultimately show ?thesis using assms(1,2) unfolding parted_def by (metis option.inject)
qed

lemma removeConnectionInLoop_desc:
  "removeConnectionInLoop cid w = Inr w' \<Longrightarrow> desc_ok own w' tb = desc_ok own w tb"
  by (rule desc_cong) (auto simp: removeConnectionInLoop_def set_server_def split: option.splits)

lemma release_parted: "parted w \<Longrightarrow> parted (release cid w)"
  by (auto simp: parted_def release_def unlinked_def in_map_def split: option.splits if_splits)

text \<open>The end of a functor: an object that nothing holds any more is unlinked, so out of its poller.\<close>

lemma release_desc:
  assumes "desc_ok own w1 tb" and "parted w1" and "w_heap w cid = Some co" and "subject f = Some cid"
    and "w_heap w1 cid = Some co1" "conn_fd co1 = conn_fd co"
  shows "desc_ok own (release cid w1) (close_freed f w (release cid w1) tb)"
proof (cases "held cid co1 w1")
  case True
  then show ?thesis using assms by (simp add: release_def close_freed_def)
next
  case False
  have "held cid co1 w1" if "ConnectDestroyed cid \<in> set (w_queues w1 (co_loop co1))"
    unfolding held_def list_ex_iff using that by (intro disjI2 bexI [of _ "ConnectDestroyed cid"]) (simp_all add: mine_def)
  with False have "unlinked cid co1 w1" by (auto simp: held_def unlinked_def)
  then have "ch_index (tc_channel (co_conn co1)) = kNew" using assms(2,5) by (simp add: parted_def)
  from free_conn_desc [OF assms(1,5) this] False assms(3-6) show ?thesis
    by (simp add: release_def close_freed_def)
qed

lemma on_conn_fd:
  assumes ok: "desc_ok own w tb" and "on_conn f cid w = Inr w'" and "w_heap w cid = Some co"
    and f: "\<And>e'. f (conn_env co w) = Inr e' \<Longrightarrow> chan_frame (conn_env co w) e'"
  shows "\<exists>co'. w_heap w' cid = Some co' \<and> conn_fd co' = conn_fd co"
proof -
  obtain e where e: "f (conn_env co w) = Inr e" "w' = store_env cid co e w"
    using assms(2,3) by (auto simp: on_conn_def)
  have "conn_desc own tb (w_pollers w) cid co" using ok assms(3) by (simp add: desc_ok_def)
  with f [OF e(1)] show ?thesis
    by (auto simp: chan_frame_def conn_env_def conn_desc_def op_ok_def e(2) store_env_def conn_fd_def)
qed

text \<open>A handler that runs as a functor, and the release of its object.\<close>

lemma handler_functor_desc:
  assumes ok: "desc_ok own w tb" and p: "parted_but cid w" and r: "on_conn h cid w = Inr w1"
    and co: "w_heap w cid = Some co" and f: "subject f = Some cid" "w_heap v cid = w_heap w cid"
    and h: "\<And>e. h (conn_env co w) = Inr e \<Longrightarrow> chan_frame (conn_env co w) e \<and>
      (unlinked cid co w \<longrightarrow> ch_index (tc_channel (te_conn e)) = kNew)"
  shows "desc_ok own (release cid w1) (close_freed f v (release cid w1) tb) \<and> parted (release cid w1)"
proof -
  have "desc_ok own w1 tb" by (rule on_conn_desc [OF ok r]) (use h co in auto)
  moreover have "parted w1" by (rule on_conn_parted [OF p r co]) (use h in blast)
  moreover obtain co1 where "w_heap w1 cid = Some co1" "conn_fd co1 = conn_fd co"
    using on_conn_fd [OF ok r co] h by blast
  ultimately show ?thesis
    using release_desc [of own w1 tb v cid co f] release_parted f co by simp
qed

lemma pop_desc [simp]: "desc_ok own (w\<lparr>w_queues := qs\<rparr>) tb = desc_ok own w tb"
  by (rule desc_cong) simp_all

lemma pop_unlinked: "in_map cid co w \<Longrightarrow> \<not> unlinked cid co (w\<lparr>w_queues := qs\<rparr>)"
  by (simp add: unlinked_def in_map_def)

lemma names_distinct:
  "server_inv w \<Longrightarrow> w_heap w c = Some d \<Longrightarrow> w_heap w cid = Some co \<Longrightarrow> c \<noteq> cid \<Longrightarrow> co_name d \<noteq> co_name co"
  unfolding server_inv_def world_inv_def names_ok_def by fastforce

lemma established_desc:
  assumes inv: "server_inv w" "desc_ok own w tb" "parted w" and q: "w_queues w l = ConnectEstablished cid # fs"
    and r: "run_functor k cbs mem (ConnectEstablished cid) (w\<lparr>w_queues := (w_queues w)(l := fs)\<rparr>) = Inr w'"
    and env: "ctl_honest (kn_ctl k)" "cb_frame (connectionCallback cbs)"
  shows "desc_ok own w' (close_freed (ConnectEstablished cid) w w' tb) \<and> parted w'"
proof -
  let ?w0 = "w\<lparr>w_queues := (w_queues w)(l := fs)\<rparr>"
  obtain co where co: "w_heap w cid = Some co" "in_map cid co w" using head_established [OF inv(1) q] by blast
  obtain w1 where w1: "on_conn (connectEstablished k cbs) cid ?w0 = Inr w1" "w' = release cid w1"
    using r by (auto simp: run_connectEstablished_def)
  have "parted_but cid ?w0" by (rule pop_parted_but [OF inv(3) q]) simp
  then show ?thesis
    unfolding w1(2)
    by (intro handler_functor_desc [OF _ _ w1(1), of own tb co])
       (use inv(2) co pop_unlinked [OF co(2)] connectEstablished_frame [OF env] in auto)
qed

lemma destroyed_desc:
  assumes inv: "server_inv w" "desc_ok own w tb" "parted w" and q: "w_queues w l = ConnectDestroyed cid # fs"
    and r: "run_functor k cbs mem (ConnectDestroyed cid) (w\<lparr>w_queues := (w_queues w)(l := fs)\<rparr>) = Inr w'"
    and env: "ctl_honest (kn_ctl k)"
  shows "desc_ok own w' (close_freed (ConnectDestroyed cid) w w' tb) \<and> parted w'"
proof -
  let ?w0 = "w\<lparr>w_queues := (w_queues w)(l := fs)\<rparr>"
  obtain co where co: "w_heap w cid = Some co" "co_state co = kDisconnected" using head_destroyed [OF inv(1) q] by blast
  obtain w1 where w1: "on_conn (connectDestroyed k cbs) cid ?w0 = Inr w1" "w' = release cid w1" using r by auto
  have "tc_state (te_conn (conn_env co ?w0)) = kDisconnected" using co(2) by (simp add: conn_env_def co_state_def)
  note h = connectDestroyed_frame [OF env this]
  have "parted_but cid ?w0" by (rule pop_parted_but [OF inv(3) q]) simp
  then show ?thesis
    unfolding w1(2)
    by (intro handler_functor_desc [OF _ _ w1(1), of own tb co]) (use inv(2) co h in auto)
qed

lemma own_desc:
  assumes inv: "server_inv w" "desc_ok own w tb" "parted w" and q: "w_queues w l = ConnFunctor cid g # fs"
    and r: "run_functor k cbs mem (ConnFunctor cid g) (w\<lparr>w_queues := (w_queues w)(l := fs)\<rparr>) = Inr w'"
  shows "desc_ok own w' (close_freed (ConnFunctor cid g) w w' tb) \<and> parted w'"
proof -
  let ?w0 = "w\<lparr>w_queues := (w_queues w)(l := fs)\<rparr>"
  obtain co where co: "w_heap w cid = Some co" "owns g" using pop_inv [OF inv(1) q _ refl, of cid] by auto
  obtain w1 where w1: "on_conn (run_conn_functor k mem g) cid ?w0 = Inr w1" "w' = release cid w1" using r by auto
  have p: "parted ?w0" by (rule pop_parted [OF inv(3) q]) simp
  then have "chan_frame (conn_env co ?w0) e \<and>
      (unlinked cid co ?w0 \<longrightarrow> ch_index (tc_channel (te_conn e)) = kNew)"
    if "run_conn_functor k mem g (conn_env co ?w0) = Inr e" for e
    using that co owned_functor_idle [OF co(2), of k mem "conn_env co ?w0"]
    by (auto simp: chan_frame_same parted_def conn_env_def)
  with parted_all [OF p] show ?thesis
    unfolding w1(2)
    by (intro handler_functor_desc [OF _ _ w1(1), of own tb co]) (use inv(2) co in auto)
qed

lemma removal_desc:
  assumes inv: "server_inv w" "desc_ok own w tb" "parted w" and q: "w_queues w l = RemoveConnectionInLoop cid # fs"
    and r: "run_functor k cbs mem (RemoveConnectionInLoop cid) (w\<lparr>w_queues := (w_queues w)(l := fs)\<rparr>) = Inr w'"
  shows "desc_ok own w' (close_freed (RemoveConnectionInLoop cid) w w' tb) \<and> parted w'"
proof -
  let ?w0 = "w\<lparr>w_queues := (w_queues w)(l := fs)\<rparr>"
  obtain co where co: "w_heap w cid = Some co" using head_removal [OF inv(1) q] by blast
  obtain w1 where w1: "removeConnectionInLoop cid ?w0 = Inr w1" "w' = release cid w1" using r by auto
  have "parted ?w0" by (rule pop_parted [OF inv(3) q]) simp
  then have "parted w1"
    by (rule removal_parted [OF _ _ _ w1(1)]) (use co names_distinct [OF inv(1)] in auto)
  moreover have "desc_ok own w1 tb" using removeConnectionInLoop_desc [OF w1(1)] inv(2) by simp
  moreover have "w_heap w1 cid = Some co" using w1(1) co by (auto simp: removeConnectionInLoop_def set_server_def)
  ultimately show ?thesis
    using release_desc [of own w1 tb w cid co "RemoveConnectionInLoop cid" co] release_parted co by (simp add: w1(2))
qed

lemma listen_desc:
  assumes inv: "desc_ok own w tb" "parted w" and q: "w_queues w l = AcceptorListen # fs"
    and r: "run_listen k (w\<lparr>w_queues := (w_queues w)(l := fs)\<rparr>) = Inr w'" and env: "ctl_honest (kn_ctl k)"
  shows "desc_ok own w' (close_freed AcceptorListen w w' tb) \<and> parted w'"
proof -
  let ?w0 = "w\<lparr>w_queues := (w_queues w)(l := fs)\<rparr>"
  have "parted ?w0" by (rule pop_parted [OF inv(2) q]) simp
  then have "parted w'" using r by (auto simp: run_listen_def Let_def parted_def unlinked_def in_map_def)
  moreover have "desc_ok own w' tb" by (rule run_listen_desc [OF _ env r]) (use inv(1) in simp)
  ultimately show ?thesis by (simp add: close_freed_def)
qed

lemma functor_desc:
  assumes "server_inv w" "desc_ok own w tb" "parted w" and "w_queues w l = f # fs"
    and "run_functor k cbs mem f (w\<lparr>w_queues := (w_queues w)(l := fs)\<rparr>) = Inr w'"
    and "ctl_honest (kn_ctl k)" "cb_frame (connectionCallback cbs)"
  shows "desc_ok own w' (close_freed f w w' tb) \<and> parted w'"
proof (cases f)
  case (ConnectEstablished cid)
  with assms show ?thesis using established_desc by blast
next
  case (ConnectDestroyed cid)
  with assms show ?thesis using destroyed_desc by blast
next
  case (RemoveConnectionInLoop cid)
  with assms show ?thesis using removal_desc by blast
next
  case AcceptorListen
  with assms(4,5) show ?thesis using listen_desc [OF assms(2,3) _ _ assms(6), of l fs w'] by simp
next
  case (ConnFunctor cid g)
  with assms show ?thesis using own_desc by blast
qed

text \<open>The other steps.\<close>

lemma accept_desc:
  assumes inv: "server_inv w" "desc_ok own w tb" "parted w" and r: "newConnection k cbs connfd w = Inr w'"
    and fresh: "tb connfd = None" and env: "ctl_honest (kn_ctl k)" "cb_frame (connectionCallback cbs)"
  shows "desc_ok own w' (tb(connfd \<mapsto> so)) \<and> parted w'"
proof -
  obtain ioLoop pool where "getNextLoop (ts_pool (w_server w)) = Inr (ioLoop, pool)"
    and "ts_nextConnId (w_server w) < 2 ^ 31 - 1"
    and base: "ioLoop = ts_loop (w_server w) \<longrightarrow>
      run_connectEstablished k cbs (w_alloc w) (with_connection ioLoop pool connfd w) = Inr w'"
    and other: "ioLoop \<noteq> ts_loop (w_server w) \<longrightarrow>
      w' = post ioLoop (ConnectEstablished (w_alloc w)) (with_connection ioLoop pool connfd w)"
    using r by (rule newConnection_split)
  define w1 where "w1 = with_connection ioLoop pool connfd w"
  let ?co = "accepted_object ioLoop connfd w" and ?cid = "w_alloc w"
  have h: "w_heap w ?cid = None"
    using inv(1) unfolding server_inv_def world_inv_def names_ok_def by (cases "w_heap w ?cid") fastforce+
  have ok: "desc_ok own w1 (tb(connfd \<mapsto> so))"
    by (rule add_conn_desc [OF inv(2) fresh h, of ?co])
       (simp_all add: w1_def with_connection_def accepted_object_def TcpConnection_new_def)
  have "unlinked c d w" if "unlinked c d w1" "w_heap w c = Some d" for c d
    using that connName_fresh [of w c "co_name d"] inv(1)
    by (auto simp: unlinked_def in_map_def w1_def with_connection_def server_inv_def)
  moreover have linked: "\<not> unlinked ?cid ?co w1"
    by (simp add: unlinked_def in_map_def w1_def with_connection_def accepted_object_def)
  ultimately have p: "parted w1" using inv(3) by (auto simp: parted_def w1_def with_connection_object)
  show ?thesis
  proof (cases "ioLoop = ts_loop (w_server w)")
    case True
    then have on: "on_conn (connectEstablished k cbs) ?cid w1 = Inr w'"
      using base by (simp add: w1_def run_connectEstablished_def)
    have "desc_ok own w' (tb(connfd \<mapsto> so))"
      by (rule on_conn_desc [OF ok on]) (use connectEstablished_frame [OF env] in blast)
    moreover have "parted w'"
      by (rule on_conn_parted [OF parted_all [OF p] on, of ?co])
         (use linked in \<open>auto simp: w1_def with_connection_object\<close>)
    ultimately show ?thesis by blast
  next
    case False
    then have "w' = post ioLoop (ConnectEstablished ?cid) w1" using other by (simp add: w1_def)
    moreover have "desc_ok own (post ioLoop (ConnectEstablished ?cid) w1) (tb(connfd \<mapsto> so))"
      using ok by (subst desc_cong) simp_all
    ultimately show ?thesis using post_parted [OF p] by simp
  qed
qed

lemma up_linked: "server_inv w \<Longrightarrow> w_heap w cid = Some co \<Longrightarrow> conn_up (co_state co) \<Longrightarrow> in_map cid co w"
  unfolding server_inv_def by (auto simp: life_def [of cid co] life_ok_def conn_up_def split: if_splits dest!: spec [of _ cid])

lemma handler_desc:
  assumes inv: "server_inv w" "desc_ok own w tb" "parted w" and co: "w_heap w cid = Some co" "conn_up (co_state co)"
    and r: "on_conn f cid w = Inr w'" and f: "\<And>e e'. f e = Inr e' \<Longrightarrow> chan_frame e e'"
  shows "desc_ok own w' tb \<and> parted w'"
proof
  show "desc_ok own w' tb" by (rule on_conn_desc [OF inv(2) r]) (rule f)
  show "parted w'"
    by (rule on_conn_parted [OF parted_all [OF inv(3)] r co(1)])
       (use up_linked [OF inv(1) co] in \<open>simp add: unlinked_def\<close>)
qed

lemma output_desc:
  assumes "server_inv w" "desc_ok own w tb" "parted w" and "w_heap w cid = Some co" "conn_up (co_state co)"
    and "on_conn (conn_run k evs) cid w = Inr w'" and "ctl_honest (kn_ctl k)"
  shows "desc_ok own w' tb \<and> parted w'"
  by (rule handler_desc [OF assms(1-6)]) (rule conn_run_frame [OF assms(7)])

text \<open>The close callback of the server, after a handler of the connection.\<close>

lemma removal_request_desc:
  assumes inv: "server_inv w" "desc_ok own w1 tb" "parted w1" and co: "w_heap w cid = Some co"
    and f: "on_conn f cid w = Inr w1" and r: "removeConnection (co_loop co) cid w1 = Inr w'"
  shows "desc_ok own w' tb \<and> parted w'"
proof -
  obtain co1 where h: "w_heap w1 = (w_heap w)(cid \<mapsto> co1)" "co_name co1 = co_name co"
    using f co by (auto simp: on_conn_def store_env_def)
  show ?thesis
  proof (cases "co_loop co = ts_loop (w_server w1)")
    case True
    then have rm: "removeConnectionInLoop cid w1 = Inr w'" using r by (simp add: removeConnection_def)
    moreover have "parted w'"
      by (rule removal_parted [OF inv(3) _ _ rm, of co1])
         (use h co names_distinct [OF inv(1)] in \<open>auto split: if_splits\<close>)
    ultimately show ?thesis using removeConnectionInLoop_desc inv(2) by blast
  next
    case False
    then have "w' = post (ts_loop (w_server w1)) (RemoveConnectionInLoop cid) w1"
      using r by (simp add: removeConnection_def)
    then show ?thesis using post_parted [OF inv(3)] inv(2) desc_cong [of w' w1 own tb] by simp
  qed
qed

lemma close_desc:
  assumes inv: "server_inv w" "desc_ok own w tb" "parted w" and co: "w_heap w cid = Some co" "conn_up (co_state co)"
    and r: "peer_closed k cbs cid w = Inr w'" and env: "ctl_honest (kn_ctl k)" "cb_frame (connectionCallback cbs)"
  shows "desc_ok own w' tb \<and> parted w'"
proof -
  obtain w1 where w1: "on_conn (handleClose k (cbs\<lparr>connCloseCallback := Inr\<rparr>)) cid w = Inr w1"
    "removeConnection (co_loop co) cid w1 = Inr w'"
    using r co(1) by (auto simp: peer_closed_def)
  have "desc_ok own w1 tb \<and> parted w1"
    by (rule handler_desc [OF inv co w1(1)]) (rule handleClose_frame [OF env])
  with removal_request_desc [OF inv(1) _ _ co(1) w1] show ?thesis by blast
qed

lemma read_desc:
  assumes inv: "server_inv w" "desc_ok own w tb" "parted w" and co: "w_heap w cid = Some co" "conn_up (co_state co)"
    and r: "conn_read k cbs readv t cid w = Inr w'" and env: "ctl_honest (kn_ctl k)" "cbs_frame cbs"
  shows "desc_ok own w' tb \<and> parted w'"
proof -
  obtain w1 where w1: "on_conn (handleRead k (cbs\<lparr>connCloseCallback := Inr\<rparr>) readv t) cid w = Inr w1"
    "removeConnection (co_loop co) cid w1 = Inr w' \<or> w1 = w'"
    using r co(1) by (auto simp: conn_read_def split: if_splits)
  have "desc_ok own w1 tb \<and> parted w1"
    by (rule handler_desc [OF inv co w1(1)]) (rule handleRead_frame [OF env])
  with removal_request_desc [OF inv(1) _ _ co(1) w1(1)] w1(2) show ?thesis by blast
qed

text \<open>A started server without connections; \<open>own\<close> is what is open and may be watched.\<close>

definition desc_init :: "int set \<Rightarrow> 'c world \<times> sock_table \<Rightarrow> bool" where
  "desc_init own s \<longleftrightarrow> server_init (fst s) \<and> dom (snd s) = own \<and> acceptor_desc own (fst s) \<and>
     (\<forall>l fd. watched (w_pollers (fst s) l) fd \<longrightarrow> fd \<in> own)"

definition desc_env :: "kernel \<Rightarrow> 'c conn_callbacks \<Rightarrow> bool" where
  "desc_env k cbs \<longleftrightarrow> ctl_honest (kn_ctl k) \<and> cbs_local cbs \<and> cbs_frame cbs"

lemma desc_server_step: "desc_step k cbs mem s t \<Longrightarrow> server_step k cbs mem (fst s) (fst t)"
  by (induction rule: desc_step.induct) (auto intro: server_step.intros)

lemma desc_inv_step:
  assumes inv: "desc_inv own s" and st: "desc_step k cbs mem s t" and "desc_env k cbs"
  shows "desc_inv own t"
proof -
  have env: "ctl_honest (kn_ctl k)" "cbs_local cbs" "cbs_frame cbs" "cb_frame (connectionCallback cbs)"
    using assms(3) by (auto simp: desc_env_def cbs_frame_def)
  have i: "server_inv (fst s)" "desc_ok own (fst s) (snd s)" "parted (fst s)" using inv by (auto simp: desc_inv_def)
  have "server_inv (fst t)" using srv.step_inv [OF i(1)] desc_server_step [OF st] env(2) by blast
  moreover have "desc_ok own (fst t) (snd t) \<and> parted (fst t)"
    using st
  proof cases
    case (desc_accept tb connfd addr peer tb1 w w' r)
    then show ?thesis
      using accept_desc [of w own tb k cbs connfd w'] i env accepted_table by (simp add: Acceptor_handleRead_def)
  next
    case (desc_refused err w w' tb)
    then show ?thesis using i by (simp add: Acceptor_handleRead_def)
  next
    case (desc_functor w l f fs w' tb)
    then show ?thesis using functor_desc [of w own tb] i env by simp
  next
    case (desc_output w cid co evs w' tb)
    then show ?thesis using output_desc [of w own tb] i env by simp
  next
    case (desc_close w cid co w' tb)
    then show ?thesis using close_desc [of w own tb] i env by simp
  next
    case (desc_read w cid co readv now w' tb)
    then show ?thesis using read_desc [of w own tb] i env by simp
  qed
  ultimately show ?thesis by (simp add: desc_inv_def)
qed

lemma desc_inv_init: "desc_init own s \<Longrightarrow> desc_inv own s"
  using srv.init_inv [of "fst s"] by (auto simp: desc_init_def desc_inv_def desc_ok_def parted_def server_init_def)

interpretation desc: inductive_invariant "desc_init own" "\<lambda>s t. desc_env k cbs \<and> desc_step k cbs mem s t" "desc_inv own"
  for own k mem and cbs :: "'c conn_callbacks"
  by unfold_locales (auto intro: desc_inv_init desc_inv_step)

lemma watched_owner:
  assumes ok: "desc_ok own w tb" and "fd \<notin> own"
    and "po_channels (w_pollers w l) fd = Some a \<or> interest (po_calls (w_pollers w l)) fd = Some (ev, a)"
  shows "\<exists>co. w_heap w a = Some co \<and> co_loop co = l \<and> conn_fd co = fd"
proof -
  have "watched (w_pollers w l) fd" using assms(3) by (auto simp: watched_def)
  then obtain cid co where co: "w_heap w cid = Some co" "co_loop co = l" "conn_fd co = fd"
    using ok assms(2) unfolding desc_ok_def by metis
  then have "conn_desc own tb (w_pollers w) cid co" using ok by (simp add: desc_ok_def)
  then have "a = cid" using assms(3) co(2,3) by (auto simp: conn_desc_def chan_inv_def conn_fd_def)
  with co show ?thesis by blast
qed

section \<open>Properties\<close>

text \<open>
  C6: no descriptor is lost and no poller points to a dead object. Over every run of the
  server, with connections accepted on descriptors that are not open, in every interleaving
  of the loops: every channel that a poller knows and every registration that the kernel
  holds, other than the program's own, carries the address of a live connection object of
  the poller's loop with this very descriptor; the open descriptors are exactly the
  program's own and those of the live connections, each of one connection only. So a
  descriptor is closed when its connection object is destroyed, not before, and it is then
  out of the poller and of the kernel's set.
\<close>

theorem server_descriptors_safe:
  assumes "desc_env k cbs" and "reach (desc_init own) (desc_step k cbs mem) (w, tb)"
  shows "(\<forall>l fd a. fd \<notin> own \<and> po_channels (w_pollers w l) fd = Some a \<longrightarrow>
      (\<exists>co. w_heap w a = Some co \<and> co_loop co = l \<and> conn_fd co = fd)) \<and>
    (\<forall>l fd ev a. fd \<notin> own \<and> interest (po_calls (w_pollers w l)) fd = Some (ev, a) \<longrightarrow>
      (\<exists>co. w_heap w a = Some co \<and> co_loop co = l \<and> conn_fd co = fd)) \<and>
    dom tb = own \<union> conn_fd ` ran (w_heap w) \<and>
    (\<forall>c d x y. w_heap w c = Some x \<and> w_heap w d = Some y \<and> conn_fd x = conn_fd y \<longrightarrow> c = d)"
proof -
  have "reach (desc_init own) (\<lambda>s t. desc_env k cbs \<and> desc_step k cbs mem s t) (w, tb)"
    using assms by simp
  from desc.reach_inv [OF this] have ok: "desc_ok own w tb" by (simp add: desc_inv_def)
  have "dom tb = own \<union> conn_fd ` ran (w_heap w)"
  proof
    show "dom tb \<subseteq> own \<union> conn_fd ` ran (w_heap w)"
      using ok unfolding desc_ok_def by (fastforce simp: ran_def)
    show "own \<union> conn_fd ` ran (w_heap w) \<subseteq> dom tb"
      using ok unfolding desc_ok_def conn_desc_def by (fastforce simp: ran_def)
  qed
  moreover have "\<forall>c d x y. w_heap w c = Some x \<and> w_heap w d = Some y \<and> conn_fd x = conn_fd y \<longrightarrow> c = d"
    using ok unfolding desc_ok_def by blast
  moreover have "\<exists>co. w_heap w a = Some co \<and> co_loop co = l \<and> conn_fd co = fd"
    if "fd \<notin> own" "po_channels (w_pollers w l) fd = Some a" for l fd a
    using watched_owner [OF ok that(1), of l a] that(2) by blast
  moreover have "\<exists>co. w_heap w a = Some co \<and> co_loop co = l \<and> conn_fd co = fd"
    if "fd \<notin> own" "interest (po_calls (w_pollers w l)) fd = Some (ev, a)" for l fd ev a
    using watched_owner [OF ok that(1), of l a] that(2) by blast
  ultimately show ?thesis by simp
qed

text \<open>The server accepts a connection on descriptor 5, and the loop of the connection establishes it.\<close>

lemma demo_desc_reachable:
  "reach (desc_init {3}) (desc_step slow_kernel quiet_callbacks (\<lambda>p n. []))
     (demo_up, [3 \<mapsto> sock_new, 5 \<mapsto> accepted_sock 0])"
proof -
  let ?step = "desc_step slow_kernel quiet_callbacks (\<lambda>p n. [])" and ?tb = "[3 \<mapsto> sock_new, 5 \<mapsto> accepted_sock 0]"
  have i: "desc_init {3} (demo_world, [3 \<mapsto> sock_new])"
    using demo_world_init
    by (auto simp: desc_init_def acceptor_desc_def watched_def demo_world_def demo_server_def TcpServer_new_def
        Acceptor_new_def Channel_new_def EPollPoller_new_def chan_inv_def interest_def kNew_def)
  have a: "?step (demo_world, [3 \<mapsto> sock_new]) (demo_accepted, ?tb)"
    using desc_accept [of "[3 \<mapsto> sock_new]" 5 undefined undefined "[3 \<mapsto> sock_new, 5 \<mapsto> sock_new]"
        slow_kernel quiet_callbacks demo_world demo_accepted "\<lambda>p n. []" 0]
      accepted_table [of 5 undefined undefined "[3 \<mapsto> sock_new]" "[3 \<mapsto> sock_new, 5 \<mapsto> sock_new]" 0]
    by (simp add: Acceptor_handleRead_def demo_accepts Socket_accept_def)
  have "w_queues (demo_accepted :: unit world) 7 = [ConnectEstablished 10]" by (simp add: demo_accepted_def)
  from desc_functor [OF this demo_up_eq, of ?tb]
  have "?step (demo_accepted, ?tb) (demo_up, close_freed (ConnectEstablished 10) demo_accepted demo_up ?tb)" .
  moreover have "close_freed (ConnectEstablished 10) demo_accepted demo_up ?tb = ?tb"
    using demo_up_heap by (auto simp: close_freed_def split: option.splits)
  ultimately have "?step (demo_accepted, ?tb) (demo_up, ?tb)" by simp
  then show ?thesis
    by (rule reach_step [of _ ?step, OF reach_step [of _ ?step, OF reach_init [of "desc_init {3}", OF i] a]])
qed

theorem server_descriptors_safe_witness:
  "dom [3 \<mapsto> sock_new, 5 \<mapsto> accepted_sock 0] = {3} \<union> conn_fd ` ran (w_heap demo_up) \<and>
   (\<exists>co. w_heap demo_up 10 = Some co \<and> co_loop co = 7 \<and> conn_fd co = 5)"
proof -
  have "desc_env slow_kernel quiet_callbacks"
    using quiet_callbacks_local
    by (simp add: desc_env_def slow_kernel_def ctl_honest_def cbs_frame_def cb_frame_def quiet_callbacks_def
        chan_frame_same)
  note safe = server_descriptors_safe [OF this demo_desc_reachable]
  moreover have "po_channels (w_pollers demo_up 7) 5 = Some 10"
    by (simp add: demo_up_def demo_eval)
  ultimately show ?thesis by simp
qed

end
