(* ===== verification/Http_World.thy ===== *)
theory Http_World
  imports Http_Server Server_Descriptors
begin

text \<open>
  The HTTP server as a whole: the callbacks that \<open>HttpServer\<close> installs in its \<open>TcpServer\<close>
  (\<open>src/src/http/HttpServer.cpp\<close>), over the runs of the server with all its loops,
  connections and descriptors (\<open>Tcp_Server\<close>, \<open>Server_Descriptors\<close>). The steps are those of
  a server whose only user is \<open>HttpServer\<close>, with a kernel that may behave differently at
  every step. A log beside the world holds, for every connection, the segments that were
  read from it; the specification says what a connection does with its own segments alone.
\<close>

section \<open>The callbacks\<close>

text \<open>
  What the constructor installs. A message callback that does not return has no next
  world; it counts as an error here.
\<close>

definition http_callbacks :: "kernel \<Rightarrow> http_callback \<Rightarrow> http_context conn_callbacks" where
  "http_callbacks k cb = \<lparr>connectionCallback = onConnection,
     messageCallback = (\<lambda>receiveTime e.
       case onMessage k cb receiveTime e of None \<Rightarrow> Inl Abort | Some r \<Rightarrow> r),
     connCloseCallback = Inr\<rparr>"

lemma http_callbacks_sel [simp]:
  "connectionCallback (http_callbacks k cb) = onConnection"
  "messageCallback (http_callbacks k cb) t e =
     (case onMessage k cb t e of None \<Rightarrow> Inl Abort | Some r \<Rightarrow> r)"
  by (simp_all add: http_callbacks_def)

section \<open>Specification of a session\<close>

text \<open>
  A session is fed with the segments of its connection: the parser runs on the bytes left
  over and the new ones, and the reply goes out while the session is open.
\<close>

type_synonym session = "http_context \<times> string \<times> string \<times> bool"

definition serve_segment :: "http_callback \<Rightarrow> session \<Rightarrow> int \<times> string \<Rightarrow> session" where
  "serve_segment cb s seg =
     (let (c, inp, out, up) = s; (ok, c', rest) = spec_parse (fst seg) c (inp @ snd seg);
          evs = reply_events cb ok c'
      in (if gotAll c' then reset c' else c', rest, out @ (if up then accepted evs else []),
          up \<and> EvShutdown \<notin> set evs))"

definition session_of :: "http_callback \<Rightarrow> (int \<times> string) list \<Rightarrow> session" where
  "session_of cb segs = foldl (serve_segment cb) (HttpContext_new, [], [], True) segs"

definition session_out :: "session \<Rightarrow> string" where
  "session_out s = fst (snd (snd s))"

text \<open>The segment that a read event brings: nothing after an error or at the end of the input.\<close>

definition read_segment :: "readv_fn \<Rightarrow> int \<Rightarrow> buffer \<Rightarrow> (int \<times> string) list" where
  "read_segment readv t b =
     (case readv (if writableBytes b < extrabuf_size then writableBytes b + extrabuf_size
                  else writableBytes b) of
        Inl err \<Rightarrow> [] | Inr bs \<Rightarrow> if bs = [] then [] else [(t, bs)])"

text \<open>What the state of a connection says of the segments read from it.\<close>

definition tells :: "http_callback \<Rightarrow> http_env \<Rightarrow> (int \<times> string) list \<Rightarrow> bool" where
  "tells cb e segs \<longleftrightarrow>
     (case tc_state (te_conn e) of
        kconnecting \<Rightarrow> conn_inv e \<and> inputBytes e = [] \<and> streamOut e = [] \<and> segs = []
      | kDisconnected \<Rightarrow> streamOut e = session_out (session_of cb segs)
      | _ \<Rightarrow> conn_live e \<and> (\<exists>c. tc_context (te_conn e) = Some c \<and> ctx_parsing c \<and>
          (c, inputBytes e, streamOut e, tc_state (te_conn e) = kConnected) = session_of cb segs))"

section \<open>The steps\<close>

type_synonym web = "(http_context world \<times> sock_table) \<times> (nat \<Rightarrow> (int \<times> string) list)"

definition log_read :: "readv_fn \<Rightarrow> int \<Rightarrow> nat \<Rightarrow> http_context conn_obj \<Rightarrow>
    (nat \<Rightarrow> (int \<times> string) list) \<Rightarrow> nat \<Rightarrow> (int \<times> string) list" where
  "log_read readv t cid co lg = lg(cid := lg cid @ read_segment readv t (tc_input (co_conn co)))"

inductive web_step :: "http_callback \<Rightarrow> web \<Rightarrow> web \<Rightarrow> bool" for cb :: http_callback where
  web_accept:
    "kernel_ok k \<Longrightarrow> tb connfd = None \<Longrightarrow> 0 \<le> connfd \<Longrightarrow>
     Socket_accept (connfd, addr) peer tb = (connfd, addr, tb1) \<Longrightarrow>
     Acceptor_handleRead k (http_callbacks k cb) (Inr connfd) w = Inr w' \<Longrightarrow>
     web_step cb ((w, tb), lg) ((w', setKeepAlive r True connfd tb1), lg)"
| web_refused:
    "kernel_ok k \<Longrightarrow> Acceptor_handleRead k (http_callbacks k cb) (Inl err) w = Inr w' \<Longrightarrow>
     web_step cb ((w, tb), lg) ((w', tb), lg)"
| web_functor:
    "kernel_ok k \<Longrightarrow> w_queues w l = f # fs \<Longrightarrow>
     run_functor k (http_callbacks k cb) mem f (w\<lparr>w_queues := (w_queues w)(l := fs)\<rparr>) = Inr w' \<Longrightarrow>
     web_step cb ((w, tb), lg) ((w', close_freed f w w' tb), lg)"
| web_writable:
    "kernel_ok k \<Longrightarrow> w_heap w cid = Some co \<Longrightarrow> conn_up (co_state co) \<Longrightarrow>
     on_conn (handleWrite k) cid w = Inr w' \<Longrightarrow> web_step cb ((w, tb), lg) ((w', tb), lg)"
| web_close:
    "kernel_ok k \<Longrightarrow> w_heap w cid = Some co \<Longrightarrow> conn_up (co_state co) \<Longrightarrow>
     peer_closed k (http_callbacks k cb) cid w = Inr w' \<Longrightarrow>
     web_step cb ((w, tb), lg) ((w', tb), lg)"
| web_read:
    "kernel_ok k \<Longrightarrow> w_heap w cid = Some co \<Longrightarrow> conn_up (co_state co) \<Longrightarrow>
     conn_read k (http_callbacks k cb) readv t cid w = Inr w' \<Longrightarrow>
     web_step cb ((w, tb), lg) ((w', tb), log_read readv t cid co lg)"

definition web_init :: "int set \<Rightarrow> web \<Rightarrow> bool" where
  "web_init own s \<longleftrightarrow> desc_init own (fst s) \<and> snd s = (\<lambda>cid. [])"

definition web_ok :: "http_callback \<Rightarrow> http_context world \<Rightarrow> (nat \<Rightarrow> (int \<times> string) list) \<Rightarrow> bool" where
  "web_ok cb w lg \<longleftrightarrow> (\<forall>cid co. w_heap w cid = Some co \<longrightarrow> tells cb (conn_env co w) (lg cid)) \<and>
     (\<forall>cid \<ge> w_alloc w. lg cid = [])"

definition web_inv :: "int set \<Rightarrow> http_callback \<Rightarrow> web \<Rightarrow> bool" where
  "web_inv own cb s \<longleftrightarrow> desc_inv own (fst s) \<and> web_ok cb (fst (fst s)) (snd s)"

section \<open>The callbacks are well behaved\<close>

text \<open>Any events of the output path leave a closed connection closed and queue only what owns it.\<close>

lemma conn_exec_any:
  "conn_exec k ev e = Inr e' \<Longrightarrow>
     (tc_state (te_conn e) = kDisconnected \<longrightarrow> tc_state (te_conn e') = kDisconnected) \<and> queued_own e e'"
  by (cases ev) (auto simp: send_def shutdown_def shutdownInLoop_def Let_def env_defs
      queued_own_def [of _ "_\<lparr>te_shutdown := _\<rparr>"] queued_own_def [of _ "_\<lparr>te_conn := _\<rparr>"]
      split: if_splits dest!: sendInLoop_local handleWrite_local)

lemma conn_run_any:
  "conn_run k evs e = Inr e' \<Longrightarrow>
     (tc_state (te_conn e) = kDisconnected \<longrightarrow> tc_state (te_conn e') = kDisconnected) \<and> queued_own e e'"
proof (induction evs arbitrary: e)
  case (Cons ev evs)
  then obtain e1 where "conn_exec k ev e = Inr e1" "conn_run k evs e1 = Inr e'" by auto
  with conn_exec_any Cons.IH show ?case by (blast intro: queued_own_trans)
qed simp

lemma onMessage_cases:
  assumes "onMessage k cb t e = Some (Inr e')"
  obtains c ok c' b e2 where "tc_context (te_conn e) = Some c"
    and "conn_run k (reply_events cb ok c')
      (e\<lparr>te_conn := (te_conn e)\<lparr>tc_context := Some c', tc_input := b\<rparr>\<rparr>) = Inr e2"
    and "e' = (if gotAll c' then setContext (reset c') e2 else e2)"
proof -
  obtain c where c: "tc_context (te_conn e) = Some c" using assms by (cases "tc_context (te_conn e)") (auto simp: onMessage_def)
  obtain ok c' b where p: "parseRequest t c (tc_input (te_conn e)) = Some (Inr (ok, c', b))"
    using assms c by (auto simp: onMessage_def split: option.splits sum.splits)
  show thesis
    using assms that [OF c] unfolding onMessage_events [OF c p] by auto
qed

lemma onConnection_local: "cb_local onConnection" and onConnection_frame: "cb_frame onConnection"
  by (auto simp: cb_local_def cb_frame_def onConnection_def setContext_def chan_frame_same split: if_splits)

lemma message_local: "cb_local (messageCallback (http_callbacks k cb) t)"
  unfolding cb_local_def
proof (intro allI impI)
  fix e e'
  assume "messageCallback (http_callbacks k cb) t e = Inr e'"
  then have "onMessage k cb t e = Some (Inr e')" by (simp split: option.splits)
  then obtain c ok c' b e2 where "tc_context (te_conn e) = Some c"
    and run: "conn_run k (reply_events cb ok c')
      (e\<lparr>te_conn := (te_conn e)\<lparr>tc_context := Some c', tc_input := b\<rparr>\<rparr>) = Inr e2"
    and e': "e' = (if gotAll c' then setContext (reset c') e2 else e2)"
    by (rule onMessage_cases)
  have "tc_state (te_conn e') = tc_state (te_conn e2)" "te_queued e' = te_queued e2"
    by (simp_all add: e' setContext_def)
  with conn_run_local [OF run] conn_run_any [OF run]
  show "(conn_up (tc_state (te_conn e)) \<longrightarrow> conn_up (tc_state (te_conn e'))) \<and>
     (tc_state (te_conn e) = kDisconnected \<longrightarrow> tc_state (te_conn e') = kDisconnected) \<and>
     (\<forall>f \<in> set (te_queued e'). f \<in> set (te_queued e) \<or> owns f)"
    by (simp add: queued_own_def)
qed

lemma message_frame:
  assumes "ctl_honest (kn_ctl k)"
  shows "cb_frame (messageCallback (http_callbacks k cb) t)"
  unfolding cb_frame_def
proof (intro allI impI)
  fix e e'
  assume "messageCallback (http_callbacks k cb) t e = Inr e'"
  then have "onMessage k cb t e = Some (Inr e')" by (simp split: option.splits)
  then obtain c ok c' b e2 where "tc_context (te_conn e) = Some c"
    and run: "conn_run k (reply_events cb ok c')
      (e\<lparr>te_conn := (te_conn e)\<lparr>tc_context := Some c', tc_input := b\<rparr>\<rparr>) = Inr e2"
    and e': "e' = (if gotAll c' then setContext (reset c') e2 else e2)"
    by (rule onMessage_cases)
  from conn_run_frame [OF assms run] show "chan_frame e e'"
    by (simp add: chan_frame_def e' setContext_def)
qed

lemma http_desc_env: "kernel_ok k \<Longrightarrow> desc_env k (http_callbacks k cb)"
  using message_local message_frame onConnection_local onConnection_frame
  by (simp add: kernel_ok_def desc_env_def cbs_local_def cbs_frame_def del: http_callbacks_sel(2))

lemma conn_run_writable: "conn_run k [EvWritable] = handleWrite k"
proof (rule ext)
  fix e
  show "conn_run k [EvWritable] e = handleWrite k e" by (cases "handleWrite k e") simp_all
qed

lemma web_desc_step:
  assumes "web_step cb s t"
  shows "\<exists>k mem. desc_env k (http_callbacks k cb) \<and> desc_step k (http_callbacks k cb) mem (fst s) (fst t)"
  using assms
proof cases
  case (web_writable k w cid co w' tb lg)
  with http_desc_env desc_output show ?thesis by (metis fst_conv conn_run_writable)
qed (auto intro: desc_step.intros http_desc_env)

section \<open>The handlers of one connection\<close>

lemma session_of_Nil: "session_of cb [] = (HttpContext_new, [], [], True)"
  by (simp add: session_of_def)

lemma session_of_snoc: "session_of cb (segs @ [seg]) = serve_segment cb (session_of cb segs) seg"
  by (simp add: session_of_def)

lemma tells_up:
  "conn_up (tc_state (te_conn e)) \<Longrightarrow> tells cb e segs \<longleftrightarrow> conn_live e \<and>
     (\<exists>c. tc_context (te_conn e) = Some c \<and> ctx_parsing c \<and>
        (c, inputBytes e, streamOut e, tc_state (te_conn e) = kConnected) = session_of cb segs)"
  by (auto simp: tells_def conn_up_def)

lemma tells_poller:
  assumes "tells cb e segs" and "chan_inv (tc_channel (te_conn e)) p"
  shows "tells cb (e\<lparr>te_poller := p, te_queued := q\<rparr>) segs"
  using assms
  by (simp add: tells_def conn_live_def conn_inv_def half_closed_def streamOut_def inputBytes_def
      outputBytes_def split: conn_state.splits)

lemma established_tells:
  assumes t: "tells cb e segs" and st: "tc_state (te_conn e) = kconnecting" and k: "kernel_ok k"
  shows "\<exists>e'. connectEstablished k (http_callbacks k cb) e = Inr e' \<and> tells cb e' segs"
proof -
  let ?ch = "tie (tc_channel (te_conn e))"
  have e: "conn_inv e" "inputBytes e = []" "streamOut e = []" "segs = []"
    using t st by (simp_all add: tells_def)
  have "chan_inv ?ch (te_poller e)" "isWriting ?ch = isWriting (tc_channel (te_conn e))"
    using e(1) by (simp_all add: conn_inv_def tie_def chan_inv_def isWriting_def)
  moreover have "ctl_honest (kn_ctl k)" using k by (simp add: kernel_ok_def)
  ultimately obtain ch p where ch: "enableReading (kn_ctl k) ?ch (te_poller e) = Inr (ch, p)" "chan_inv ch p"
    "isWriting ch = isWriting (tc_channel (te_conn e))"
    using chan_ops_ok(1) [of "kn_ctl k" ?ch "te_poller e"] isWriting_enableReading
    by (fastforce simp: op_ok_def)
  let ?e1 = "e\<lparr>te_conn := (te_conn e)\<lparr>tc_state := kConnected, tc_channel := ch\<rparr>, te_poller := p\<rparr>"
  have "connectEstablished k (http_callbacks k cb) e = Inr (setContext HttpContext_new ?e1)"
    using ch(1) by (simp add: connectEstablished_def Let_def setState_def on_channel_def onConnection_def connected_def)
  moreover have "conn_live ?e1"
    using e(1) st ch by (auto simp: conn_live_def conn_inv_def outputBytes_def)
  then have "tells cb (setContext HttpContext_new ?e1) segs"
    using e ctx_ready_parsing [OF ctx_ready_new] conn_live_setContext [of HttpContext_new ?e1]
    by (simp add: tells_def session_of_Nil setContext_def inputBytes_def streamOut_def outputBytes_def)
  ultimately show ?thesis by blast
qed

lemma tells_stream:
  "conn_up (tc_state (te_conn e)) \<Longrightarrow> tells cb e segs \<Longrightarrow> streamOut e = session_out (session_of cb segs)"
  by (auto simp: tells_up session_out_def dest: sym)

lemma close_tells:
  assumes t: "tells cb e segs" and up: "conn_up (tc_state (te_conn e))" and k: "kernel_ok k"
  shows "\<exists>e'. handleClose k ((http_callbacks k cb)\<lparr>connCloseCallback := Inr\<rparr>) e = Inr e' \<and> tells cb e' segs"
proof -
  have live: "conn_live e" using t up by (simp add: tells_up)
  then have "chan_inv (tc_channel (te_conn e)) (te_poller e)" by (simp add: conn_live_def conn_inv_def)
  moreover have "ctl_honest (kn_ctl k)" using k by (simp add: kernel_ok_def)
  ultimately obtain ch p where ch: "disableAll (kn_ctl k) (tc_channel (te_conn e)) (te_poller e) = Inr (ch, p)"
    using chan_ops_ok(4) by (fastforce simp: op_ok_def)
  let ?e1 = "e\<lparr>te_conn := (te_conn e)\<lparr>tc_state := kDisconnected, tc_channel := ch\<rparr>, te_poller := p\<rparr>"
  have "handleClose k ((http_callbacks k cb)\<lparr>connCloseCallback := Inr\<rparr>) e = Inr ?e1"
    using ch by (simp add: handleClose_def setState_def on_channel_def onConnection_def connected_def)
  moreover have "tells cb ?e1 segs"
    using tells_stream [OF up t] by (simp add: tells_def streamOut_def outputBytes_def)
  ultimately show ?thesis by blast
qed

lemma destroyed_tells:
  assumes t: "tells cb e segs" and st: "tc_state (te_conn e) = kDisconnected" and k: "kernel_ok k"
    and ch: "chan_inv (tc_channel (te_conn e)) (te_poller e)"
  shows "\<exists>e'. connectDestroyed k cbs e = Inr e' \<and> tells cb e' segs"
proof -
  have "ctl_honest (kn_ctl k)" using k by (simp add: kernel_ok_def)
  then obtain ch' p where "removeChannel (kn_ctl k) (tc_channel (te_conn e)) (te_poller e) = Inr (ch', p)"
    using chan_ops_ok(5) [OF _ ch] by (fastforce simp: op_ok_def)
  then show ?thesis
    using t st by (simp add: connectDestroyed_def on_channel_def tells_def streamOut_def outputBytes_def)
qed

lemma write_tells:
  assumes t: "tells cb e segs" and up: "conn_up (tc_state (te_conn e))" and k: "kernel_ok k"
  shows "\<exists>e'. handleWrite k e = Inr e' \<and> tells cb e' segs"
proof -
  have live: "conn_live e" using t up by (simp add: tells_up)
  obtain e' where e': "conn_run k [EvWritable] e = Inr e'" "conn_live e'"
    "tc_state (te_conn e') = kConnected \<longleftrightarrow> tc_state (te_conn e) = kConnected" "streamOut e' = streamOut e"
    using conn_run_ok [OF live, of k "[EvWritable]"] k by (auto simp: kernel_ok_def streamOut_def)
  then have "handleWrite k e = Inr e'" by (simp only: conn_run_writable)
  moreover have "same_input e e'" using conn_run_input [OF e'(1)] .
  moreover have "conn_up (tc_state (te_conn e'))" using conn_run_local [OF e'(1) up] by simp
  ultimately show ?thesis
    using t up e' by (auto simp: tells_up same_input_def inputBytes_def)
qed

text \<open>A message is one step of the session.\<close>

lemma message_tells:
  assumes live: "conn_live e" and c: "tc_context (te_conn e) = Some c" "ctx_parsing c" and k: "kernel_ok k"
    and s: "session_of cb segs = (c, inp, streamOut e, tc_state (te_conn e) = kConnected)"
    and i: "inputBytes e = inp @ data"
  shows "\<exists>e'. onMessage k cb t e = Some (Inr e') \<and> tells cb e' (segs @ [(t, data)]) \<and> conn_live e'"
proof -
  obtain ok c' rest where sp: "spec_parse t c (inp @ data) = (ok, c', rest)"
    by (cases "spec_parse t c (inp @ data)")
  then have "spec_parse t c (inputBytes e) = (ok, c', rest)" by (simp add: i)
  from onMessage_ok [OF live c k this, of cb] obtain e' where
    e': "onMessage k cb t e = Some (Inr e')" and a: "answered cb e ok c' rest e'" by blast
  have live': "conn_live e'" using a by (simp add: answered_def)
  then have "conn_up (tc_state (te_conn e'))" by (auto simp: conn_live_def half_closed_def conn_up_def)
  moreover have "ctx_parsing (if gotAll c' then reset c' else c')"
    using spec_parse_state [OF sp c(2)] by (auto simp: reset_def ctx_parsing_def)
  moreover have "session_of cb (segs @ [(t, data)]) =
      (if gotAll c' then reset c' else c', rest, streamOut e', tc_state (te_conn e') = kConnected)"
    using a by (simp add: session_of_snoc s serve_segment_def Let_def sp answered_def)
  ultimately show ?thesis
    using e' a live' by (simp add: tells_up answered_def)
qed

lemma readFd_segment:
  assumes "buf_inv b" and "readFd readv b = (Inr m, b')"
  shows "\<exists>bs. length bs = m \<and> buf_inv b' \<and> peek_range b' = peek_range b @ bs \<and>
    read_segment readv now b = (if bs = [] then [] else [(now, bs)])"
proof -
  from assms obtain bs where bs: "length bs = m" "buf_inv b'" "peek_range b' = peek_range b @ bs"
    and "readv (if writableBytes b < extrabuf_size then writableBytes b + extrabuf_size
      else writableBytes b) = Inr bs"
    by (rule readFd_Inr)
  then have "read_segment readv now b = (if bs = [] then [] else [(now, bs)])"
    unfolding read_segment_def by simp
  with bs show ?thesis by blast
qed

lemma read_tells:
  assumes t: "tells cb e segs" and up: "conn_up (tc_state (te_conn e))" and k: "kernel_ok k"
  shows "\<exists>e'. handleRead k ((http_callbacks k cb)\<lparr>connCloseCallback := Inr\<rparr>) readv now e = Inr e' \<and>
    tells cb e' (segs @ read_segment readv now (tc_input (te_conn e)))"
proof -
  let ?cbs = "(http_callbacks k cb)\<lparr>connCloseCallback := Inr\<rparr>" and ?b = "tc_input (te_conn e)"
  have live: "conn_live e" using t up by (simp add: tells_up)
  obtain n b where r: "readFd readv ?b = (n, b)" by fastforce
  let ?e1 = "e\<lparr>te_conn := (te_conn e)\<lparr>tc_input := b\<rparr>\<rparr>"
  show ?thesis
  proof (cases n)
    case (Inl err)
    then have "b = ?b" "read_segment readv now ?b = []"
      using r by (auto simp: readFd_def Let_def read_segment_def split: sum.splits if_splits)
    then show ?thesis using r t Inl by (simp add: handleRead_def handleError_def)
  next
    case (Inr m)
    with r have "readFd readv ?b = (Inr m, b)" by simp
    from readFd_segment [OF conn_live_input [OF live] this, of now] obtain bs where
      bs: "length bs = m" "buf_inv b" "peek_range b = peek_range ?b @ bs"
      and seg: "read_segment readv now ?b = (if bs = [] then [] else [(now, bs)])" by blast
    have same: "conn_live ?e1" "streamOut ?e1 = streamOut e" "tc_state (te_conn ?e1) = tc_state (te_conn e)"
      using live bs(2)
      by (simp_all add: conn_live_def conn_inv_def half_closed_def outputBytes_def streamOut_def)
    obtain c where c: "tc_context (te_conn e) = Some c" "ctx_parsing c"
      "session_of cb segs = (c, inputBytes e, streamOut e, tc_state (te_conn e) = kConnected)"
      using t up by (auto simp: tells_up)
    show ?thesis
    proof (cases "m = 0")
      case True
      then have "inputBytes ?e1 = inputBytes e" using bs by (simp add: inputBytes_def)
      then have "tells cb ?e1 segs" using c same up by (simp add: tells_up)
      with close_tells [of cb ?e1 segs k] up k r Inr True bs seg show ?thesis by (simp add: handleRead_def)
    next
      case False
      have "inputBytes ?e1 = inputBytes e @ bs" using bs(3) by (simp add: inputBytes_def)
      with message_tells [of ?e1 c k cb segs "inputBytes e" bs now] c same k
      obtain e' where "onMessage k cb now ?e1 = Some (Inr e')" "tells cb e' (segs @ [(now, bs)])" by auto
      then show ?thesis using r Inr False bs seg by (auto simp: handleRead_def)
    qed
  qed
qed

section \<open>The handlers in the world\<close>

lemma desc_chan:
  "desc_ok own w tb \<Longrightarrow> w_heap w cid = Some co \<Longrightarrow> chan_inv (tc_channel (co_conn co)) (w_pollers w (co_loop co))"
  by (simp add: desc_ok_def conn_desc_def)

lemma conn_env_poller:
  "conn_env co w' = (conn_env co w)\<lparr>te_poller := w_pollers w' (co_loop co), te_queued := []\<rparr>"
  by (simp add: conn_env_def)

text \<open>
  A world whose objects are those of another one, up to the pollers: the objects keep
  telling what they told, as long as their registration is consistent.
\<close>

lemma web_ok_keep:
  assumes ok: "web_ok cb w lg" and "desc_ok own w' tb" and "w_alloc w' = w_alloc w"
    and "\<And>cid co. w_heap w' cid = Some co \<Longrightarrow> w_heap w cid = Some co"
  shows "web_ok cb w' lg"
proof -
  have "tells cb (conn_env co w') (lg cid)" if co: "w_heap w' cid = Some co" for cid co
    using tells_poller [of cb "conn_env co w" "lg cid" "w_pollers w' (co_loop co)"] ok assms(4) [OF co]
      desc_chan [OF assms(2) co] conn_env_poller [of co w' w]
    by (simp add: web_ok_def conn_env_def)
  then show ?thesis using ok assms(3) by (simp add: web_ok_def)
qed

lemma web_ok_handler:
  assumes ok: "web_ok cb w lg" and r: "on_conn f cid w = Inr w1" and co: "w_heap w cid = Some co"
    and f: "\<And>e. f (conn_env co w) = Inr e \<Longrightarrow> tells cb e segs"
    and w': "desc_ok own w' tb" "w_alloc w' = w_alloc w" "w_pollers w' = w_pollers w1"
      "\<And>c d. w_heap w' c = Some d \<Longrightarrow> w_heap w1 c = Some d"
    and alloc: "cid < w_alloc w"
  shows "web_ok cb w' (lg(cid := segs))"
proof -
  obtain e where e: "f (conn_env co w) = Inr e" "w1 = store_env cid co e w"
    using r co by (auto simp: on_conn_def)
  let ?co = "co\<lparr>co_conn := te_conn e, co_sent := te_sent e, co_shutdown := te_shutdown e\<rparr>"
  have h1: "w_heap w1 = (w_heap w)(cid \<mapsto> ?co)" by (simp add: e(2) store_env_def)
  have "tells cb (conn_env d w') ((lg(cid := segs)) c)" if d: "w_heap w' c = Some d" for c d
  proof (cases "c = cid")
    case True
    then have dd: "d = ?co" using w'(4) [OF d] h1 by simp
    have "w_pollers w' (co_loop co) = te_poller e" by (simp add: w'(3) e(2) store_env_def)
    then have "conn_env d w' = e\<lparr>te_queued := []\<rparr>" by (simp add: dd conn_env_def)
    moreover have "chan_inv (tc_channel (te_conn e)) (te_poller e)"
      using desc_chan [OF w'(1) d] \<open>w_pollers w' (co_loop co) = te_poller e\<close> by (simp add: dd)
    ultimately show ?thesis using tells_poller [OF f [OF e(1)], of "te_poller e" "[]"] True by simp
  next
    case False
    then have "w_heap w c = Some d" using w'(4) [OF d] h1 by simp
    then show ?thesis
      using tells_poller [of cb "conn_env d w" "lg c" "w_pollers w' (co_loop d)"] ok False
        desc_chan [OF w'(1) d] conn_env_poller [of d w' w]
      by (simp add: web_ok_def conn_env_def)
  qed
  then show ?thesis using ok w'(2) alloc by (simp add: web_ok_def)
qed

text \<open>What the server does to the world around its handlers.\<close>

lemma web_ok_queues [simp]:
  "web_ok cb (w\<lparr>w_queues := qs\<rparr>) lg = web_ok cb w lg" "web_ok cb (post l f w) lg = web_ok cb w lg"
  by (simp_all add: web_ok_def conn_env_def)

lemma release_heap: "w_heap (release cid w) c = Some d \<Longrightarrow> w_heap w c = Some d"
  by (auto simp: release_def split: option.splits if_splits)

lemma release_same [simp]: "w_alloc (release cid w) = w_alloc w" "w_pollers (release cid w) = w_pollers w"
  by (auto simp: release_def split: option.splits)

lemma on_conn_alloc: "on_conn f cid w = Inr w' \<Longrightarrow> w_alloc w' = w_alloc w"
  by (auto simp: on_conn_def store_env_def split: option.splits)

lemma removal_parts:
  "removeConnectionInLoop cid w = Inr w' \<Longrightarrow>
     w_heap w' = w_heap w \<and> w_pollers w' = w_pollers w \<and> w_alloc w' = w_alloc w"
  by (auto simp: removeConnectionInLoop_def set_server_def split: option.splits)

lemma removeConnection_parts:
  "removeConnection cur cid w = Inr w' \<Longrightarrow>
     w_heap w' = w_heap w \<and> w_pollers w' = w_pollers w \<and> w_alloc w' = w_alloc w"
  using removal_parts by (auto simp: removeConnection_def split: if_splits)

lemma heap_alloc: "server_inv w \<Longrightarrow> w_heap w cid = Some co \<Longrightarrow> cid < w_alloc w"
  unfolding server_inv_def world_inv_def names_ok_def by fastforce

lemma web_tells: "web_ok cb w lg \<Longrightarrow> w_heap w cid = Some co \<Longrightarrow> tells cb (conn_env co w) (lg cid)"
  by (simp add: web_ok_def)

lemma conn_env_pop [simp]: "conn_env co (w\<lparr>w_queues := qs\<rparr>) = conn_env co w"
  by (simp add: conn_env_def)

section \<open>Preservation\<close>

lemma handler_functor_web:
  assumes ok: "web_ok cb w lg" and inv: "server_inv w" and co: "w_heap w cid = Some co"
    and r: "res_bind (on_conn h cid (w\<lparr>w_queues := qs\<rparr>)) (\<lambda>w'. Inr (release cid w')) = Inr w'"
    and h: "\<exists>e. h (conn_env co w) = Inr e \<and> tells cb e (lg cid)" and d: "desc_ok own w' tb"
  shows "web_ok cb w' lg"
proof -
  obtain w1 where w1: "on_conn h cid (w\<lparr>w_queues := qs\<rparr>) = Inr w1" "w' = release cid w1" using r by auto
  have "web_ok cb w' (lg(cid := lg cid))"
    by (rule web_ok_handler [OF _ w1(1) _ _ d])
       (use ok co h heap_alloc [OF inv co] on_conn_alloc [OF w1(1)] in \<open>auto simp: w1(2) dest: release_heap\<close>)
  then show ?thesis by simp
qed

lemma functor_web:
  assumes ok: "web_ok cb w lg" and inv: "server_inv w" "desc_ok own w tb" and q: "w_queues w l = f # fs"
    and r: "run_functor k (http_callbacks k cb) mem f (w\<lparr>w_queues := (w_queues w)(l := fs)\<rparr>) = Inr w'"
    and k: "kernel_ok k" and d: "desc_ok own w' tb'"
  shows "web_ok cb w' lg"
proof (cases f)
  case (ConnectEstablished cid)
  then obtain co where co: "w_heap w cid = Some co" "co_state co = kconnecting"
    using head_established [OF inv(1)] q by blast
  have "\<exists>e. connectEstablished k (http_callbacks k cb) (conn_env co w) = Inr e \<and> tells cb e (lg cid)"
    by (rule established_tells [OF web_tells [OF ok co(1)] _ k]) (simp add: co(2))
  from handler_functor_web [where h = "connectEstablished k (http_callbacks k cb)", OF ok inv(1) co(1) _ this d] r show ?thesis
    by (simp add: ConnectEstablished run_connectEstablished_def)
next
  case (ConnectDestroyed cid)
  then obtain co where co: "w_heap w cid = Some co" "co_state co = kDisconnected"
    using head_destroyed [OF inv(1)] q by blast
  have "chan_inv (tc_channel (te_conn (conn_env co w))) (te_poller (conn_env co w))"
    using desc_chan [OF inv(2) co(1)] by (simp add: conn_env_def)
  from destroyed_tells [OF web_tells [OF ok co(1)] _ k this] co(2)
  have "\<exists>e. connectDestroyed k (http_callbacks k cb) (conn_env co w) = Inr e \<and> tells cb e (lg cid)" by simp
  from handler_functor_web [where h = "connectDestroyed k (http_callbacks k cb)", OF ok inv(1) co(1) _ this d] r show ?thesis by (simp add: ConnectDestroyed)
next
  case (RemoveConnectionInLoop cid)
  then obtain w1 where w1: "removeConnectionInLoop cid (w\<lparr>w_queues := (w_queues w)(l := fs)\<rparr>) = Inr w1"
    "w' = release cid w1"
    using r by auto
  show ?thesis
    by (rule web_ok_keep [OF ok d]) (use removal_parts [OF w1(1)] in \<open>auto simp: w1(2) dest: release_heap\<close>)
next
  case AcceptorListen
  then have "w_heap w' = w_heap w" "w_alloc w' = w_alloc w" using r by (auto simp: run_listen_def Let_def)
  then show ?thesis by (intro web_ok_keep [OF ok d]) simp_all
next
  case (ConnFunctor cid g)
  then obtain co where co: "w_heap w cid = Some co" "owns g"
    using pop_inv [OF inv(1) q _ refl, of cid] by auto
  have "\<exists>e. run_conn_functor k mem g (conn_env co w) = Inr e \<and> tells cb e (lg cid)"
    using owned_functor_idle [OF co(2), of k mem "conn_env co w"] web_tells [OF ok co(1)] by simp
  from handler_functor_web [where h = "run_conn_functor k mem g", OF ok inv(1) co(1) _ this d] r show ?thesis by (simp add: ConnFunctor)
qed

text \<open>A handler in the thread of its connection, with the close callback of the server or not.\<close>

lemma handler_web:
  assumes ok: "web_ok cb w lg" and inv: "server_inv w" and co: "w_heap w cid = Some co"
    and r: "on_conn h cid w = Inr w1" "removeConnection (co_loop co) cid w1 = Inr w' \<or> w1 = w'"
    and h: "\<exists>e. h (conn_env co w) = Inr e \<and> tells cb e segs" and d: "desc_ok own w' tb"
  shows "web_ok cb w' (lg(cid := segs))"
proof -
  have parts: "w_heap w' = w_heap w1" "w_pollers w' = w_pollers w1" "w_alloc w' = w_alloc w1"
    using r(2) removeConnection_parts by blast+
  show ?thesis
    by (rule web_ok_handler [OF ok r(1) co _ d])
       (use h parts on_conn_alloc [OF r(1)] heap_alloc [OF inv co] in auto)
qed

lemma object_tells:
  assumes "desc_ok own w tb" and "tb connfd = None"
  shows "tells cb (conn_env (accepted_object ioLoop connfd w) (with_connection ioLoop pool connfd w)) []"
  using unused_descriptor(3) [OF assms, of "w_alloc w" ioLoop]
  by (simp add: tells_def conn_env_def with_connection_object accepted_object_def TcpConnection_new_def
      conn_inv_def outputBytes_def inputBytes_def streamOut_def isWriting_def Channel_new_def kNoneEvent_def)

lemma accept_web:
  assumes ok: "web_ok cb w lg" and inv: "server_inv w" "desc_ok own w tb" and fresh: "tb connfd = None"
    and r: "newConnection k (http_callbacks k cb) connfd w = Inr w'"
    and k: "kernel_ok k" and d: "desc_ok own w' tb'"
  shows "web_ok cb w' lg"
proof -
  obtain ioLoop pool where "getNextLoop (ts_pool (w_server w)) = Inr (ioLoop, pool)"
    and "ts_nextConnId (w_server w) < 2 ^ 31 - 1"
    and base: "ioLoop = ts_loop (w_server w) \<longrightarrow>
      run_connectEstablished k (http_callbacks k cb) (w_alloc w) (with_connection ioLoop pool connfd w) = Inr w'"
    and other: "ioLoop \<noteq> ts_loop (w_server w) \<longrightarrow>
      w' = post ioLoop (ConnectEstablished (w_alloc w)) (with_connection ioLoop pool connfd w)"
    using r by (rule newConnection_split)
  let ?w1 = "with_connection ioLoop pool connfd w" and ?co = "accepted_object ioLoop connfd w"
  have alloc: "w_alloc ?w1 = w_alloc w + 1" by (simp add: with_connection_def)
  have new: "lg (w_alloc w) = []" using ok by (simp add: web_ok_def)
  have "conn_env co ?w1 = conn_env co w" for co by (simp add: conn_env_def with_connection_object)
  then have ok1: "web_ok cb ?w1 lg"
    using ok object_tells [OF inv(2) fresh, of cb ioLoop pool] new
    by (auto simp: web_ok_def with_connection_object alloc)
  show ?thesis
  proof (cases "ioLoop = ts_loop (w_server w)")
    case True
    then have on: "on_conn (connectEstablished k (http_callbacks k cb)) (w_alloc w) ?w1 = Inr w'"
      using base by (simp add: run_connectEstablished_def)
    have "\<exists>e. connectEstablished k (http_callbacks k cb) (conn_env ?co ?w1) = Inr e \<and> tells cb e []"
      by (rule established_tells [OF object_tells [OF inv(2) fresh] _ k]) (simp add: with_connection_object)
    then have "web_ok cb w' (lg(w_alloc w := []))"
      by (intro web_ok_handler [OF ok1 on _ _ d]) (auto simp: with_connection_object alloc on_conn_alloc [OF on])
    with new show ?thesis by (metis fun_upd_triv)
  next
    case False
    then show ?thesis using other ok1 by simp
  qed
qed

text \<open>The events of a connection.\<close>

lemma writable_web:
  assumes ok: "web_ok cb w lg" and inv: "server_inv w" and co: "w_heap w cid = Some co" "conn_up (co_state co)"
    and k: "kernel_ok k" and r: "on_conn (handleWrite k) cid w = Inr w'" and d: "desc_ok own w' tb"
  shows "web_ok cb w' lg"
proof -
  have "\<exists>e. handleWrite k (conn_env co w) = Inr e \<and> tells cb e (lg cid)"
    by (rule write_tells [OF web_tells [OF ok co(1)] _ k]) (simp add: co(2))
  then show ?thesis
    using handler_web [where h = "handleWrite k", of cb w lg cid co w' w' "lg cid" own tb] ok inv co(1) r d by simp
qed

lemma close_web:
  assumes ok: "web_ok cb w lg" and inv: "server_inv w" and co: "w_heap w cid = Some co" "conn_up (co_state co)"
    and k: "kernel_ok k" and r: "peer_closed k (http_callbacks k cb) cid w = Inr w'" and d: "desc_ok own w' tb"
  shows "web_ok cb w' lg"
proof -
  let ?h = "handleClose k ((http_callbacks k cb)\<lparr>connCloseCallback := Inr\<rparr>)"
  have "\<exists>e. ?h (conn_env co w) = Inr e \<and> tells cb e (lg cid)"
    by (rule close_tells [OF web_tells [OF ok co(1)] _ k]) (simp add: co(2))
  moreover obtain w1 where "on_conn ?h cid w = Inr w1" "removeConnection (co_loop co) cid w1 = Inr w'"
    using r co(1) by (auto simp: peer_closed_def)
  ultimately show ?thesis
    using handler_web [where h = ?h, of cb w lg cid co w1 w' "lg cid" own tb] ok inv co(1) d by simp
qed

lemma read_web:
  assumes ok: "web_ok cb w lg" and inv: "server_inv w" and co: "w_heap w cid = Some co" "conn_up (co_state co)"
    and k: "kernel_ok k" and r: "conn_read k (http_callbacks k cb) readv t cid w = Inr w'" and d: "desc_ok own w' tb"
  shows "web_ok cb w' (log_read readv t cid co lg)"
proof -
  let ?h = "handleRead k ((http_callbacks k cb)\<lparr>connCloseCallback := Inr\<rparr>) readv t"
  have "\<exists>e. ?h (conn_env co w) = Inr e \<and> tells cb e (lg cid @ read_segment readv t (tc_input (co_conn co)))"
    using read_tells [OF web_tells [OF ok co(1)] _ k, of readv t] co(2) by (simp add: conn_env_def co_state_def)
  moreover obtain w1 where "on_conn ?h cid w = Inr w1" "removeConnection (co_loop co) cid w1 = Inr w' \<or> w1 = w'"
    using r co(1) by (auto simp: conn_read_def split: if_splits)
  ultimately show ?thesis
    using handler_web [where h = ?h, of cb w lg cid co w1 w' _ own tb] ok inv co(1) d by (simp add: log_read_def)
qed

lemma web_inv_step:
  assumes inv: "web_inv own cb s" and st: "web_step cb s t"
  shows "web_inv own cb t"
proof -
  obtain k mem where "desc_env k (http_callbacks k cb)"
    "desc_step k (http_callbacks k cb) mem (fst s) (fst t)"
    using web_desc_step [OF st] by blast
  moreover have "desc_inv own (fst s)" using inv by (simp add: web_inv_def)
  ultimately have dt: "desc_inv own (fst t)" using desc_inv_step by blast
  then have d: "desc_ok own (fst (fst t)) (snd (fst t))" by (simp add: desc_inv_def)
  have i: "server_inv (fst (fst s))" "desc_ok own (fst (fst s)) (snd (fst s))" "web_ok cb (fst (fst s)) (snd s)"
    using inv by (auto simp: web_inv_def desc_inv_def)
  from st have "web_ok cb (fst (fst t)) (snd t)"
  proof cases
    case (web_accept k tb connfd addr peer tb1 w w' lg r)
    then show ?thesis using accept_web [of cb w lg own tb connfd k w'] i d by (simp add: Acceptor_handleRead_def)
  next
    case (web_refused k err w w' tb lg)
    then show ?thesis using i by (simp add: Acceptor_handleRead_def)
  next
    case (web_functor k w l f fs mem w' tb lg)
    then show ?thesis using functor_web [of cb w lg own] i d by auto
  next
    case (web_writable k w cid co w' tb lg)
    then show ?thesis using writable_web [of cb w lg cid co k w' own tb] i d by simp
  next
    case (web_close k w cid co w' tb lg)
    then show ?thesis using close_web [of cb w lg cid co k w' own tb] i d by simp
  next
    case (web_read k w cid co readv t' w' tb lg)
    then show ?thesis using read_web [of cb w lg cid co k readv t' w' own tb] i d by simp
  qed
  with dt show ?thesis by (simp add: web_inv_def)
qed

lemma web_inv_init: "web_init own s \<Longrightarrow> web_inv own cb s"
  using desc_inv_init [of own "fst s"]
  by (auto simp: web_init_def web_inv_def web_ok_def desc_init_def server_init_def)

interpretation web: inductive_invariant "web_init own" "web_step cb" "web_inv own cb" for own cb
  by unfold_locales (auto intro: web_inv_init web_inv_step)

end
