(* ===== verification/Http_Sessions.thy ===== *)
theory Http_Sessions
  imports Http_World
begin

text \<open>
  What the clients of the HTTP server see, over the runs of \<open>Http_World\<close>: every handler of a
  reachable state succeeds, what waits in an output buffer can always be written, and the
  bytes of a connection are the responses to its requests.
\<close>

section \<open>Progress\<close>

lemma on_conn_at:
  "w_heap w cid = Some co \<Longrightarrow>
     on_conn f cid w = res_bind (f (conn_env co w)) (\<lambda>e. Inr (store_env cid co e w))"
  by (simp add: on_conn_def)

lemma store_env_heap: "\<exists>co'. w_heap (store_env cid co e w) cid = Some co'"
  by (simp add: store_env_def)

lemma removeConnection_runs: "w_heap w cid = Some co \<Longrightarrow> \<exists>w'. removeConnection cur cid w = Inr w'"
  by (simp add: removeConnection_def removeConnectionInLoop_def)

lemma functor_handler_runs:
  "w_heap w cid = Some co \<Longrightarrow> \<exists>e. h (conn_env co w) = Inr e \<Longrightarrow>
     \<exists>w'. res_bind (on_conn h cid (w\<lparr>w_queues := qs\<rparr>)) (\<lambda>w'. Inr (release cid w')) = Inr w'"
  using on_conn_at [of "w\<lparr>w_queues := qs\<rparr>" cid co h] by auto

lemma functor_runs:
  assumes inv: "web_inv own cb ((w, tb), lg)" and k: "kernel_ok k" and q: "w_queues w l = f # fs"
  shows "\<exists>w'. run_functor k (http_callbacks k cb) mem f (w\<lparr>w_queues := (w_queues w)(l := fs)\<rparr>) = Inr w'"
proof -
  have i: "server_inv w" "desc_ok own w tb" "web_ok cb w lg" using inv by (simp_all add: web_inv_def desc_inv_def)
  show ?thesis
  proof (cases f)
    case (ConnectEstablished cid)
    then obtain co where co: "w_heap w cid = Some co" "co_state co = kconnecting"
      using head_established [OF i(1)] q by blast
    from established_tells [OF web_tells [OF i(3) co(1)] _ k] co(2)
    have "\<exists>e. connectEstablished k (http_callbacks k cb) (conn_env co w) = Inr e" by auto
    from functor_handler_runs [where h = "connectEstablished k (http_callbacks k cb)", OF co(1) this] show ?thesis by (simp add: ConnectEstablished run_connectEstablished_def)
  next
    case (ConnectDestroyed cid)
    then obtain co where co: "w_heap w cid = Some co" "co_state co = kDisconnected"
      using head_destroyed [OF i(1)] q by blast
    have "chan_inv (tc_channel (te_conn (conn_env co w))) (te_poller (conn_env co w))"
      using desc_chan [OF i(2) co(1)] by (simp add: conn_env_def)
    from destroyed_tells [OF web_tells [OF i(3) co(1)] _ k this] co(2)
    have "\<exists>e. connectDestroyed k (http_callbacks k cb) (conn_env co w) = Inr e" by auto
    from functor_handler_runs [where h = "connectDestroyed k (http_callbacks k cb)", OF co(1) this] show ?thesis by (simp add: ConnectDestroyed)
  next
    case (RemoveConnectionInLoop cid)
    then obtain co where "w_heap w cid = Some co" using head_removal [OF i(1)] q by blast
    then show ?thesis by (simp add: RemoveConnectionInLoop removeConnectionInLoop_def)
  next
    case AcceptorListen
    have "acceptor_desc own w" using i(2) by (simp add: desc_ok_def)
    then show ?thesis
      using chan_ops_ok(1) [of "kn_ctl k" "ac_channel (ts_acceptor (w_server w))" "w_pollers w (ts_loop (w_server w))"] k
      by (auto simp: AcceptorListen run_listen_def Acceptor_listen_def acceptor_desc_def op_ok_def kernel_ok_def Let_def)
  next
    case (ConnFunctor cid g)
    then obtain co where co: "w_heap w cid = Some co" "owns g"
      using pop_inv [OF i(1) q _ refl, of cid] by auto
    have "\<exists>e. run_conn_functor k mem g (conn_env co w) = Inr e"
      using owned_functor_idle [OF co(2), of k mem "conn_env co w"] by simp
    from functor_handler_runs [where h = "run_conn_functor k mem g", OF co(1) this] show ?thesis by (simp add: ConnFunctor)
  qed
qed

lemma events_run:
  assumes inv: "web_inv own cb ((w, tb), lg)" and k: "kernel_ok k"
    and co: "w_heap w cid = Some co" "conn_up (co_state co)"
  shows "\<exists>w'. on_conn (handleWrite k) cid w = Inr w'"
    and "\<exists>w'. peer_closed k (http_callbacks k cb) cid w = Inr w'"
    and "\<exists>w' co'. conn_read k (http_callbacks k cb) readv t cid w = Inr w' \<and> w_heap w' cid = Some co' \<and>
      (fst (readFd readv (tc_input (co_conn co))) \<noteq> Inr 0 \<longrightarrow> conn_up (co_state co'))"
proof -
  have ok: "tells cb (conn_env co w) (lg cid)" using inv web_tells co(1) by (simp add: web_inv_def)
  have up: "conn_up (tc_state (te_conn (conn_env co w)))" using co(2) by simp
  show "\<exists>w'. on_conn (handleWrite k) cid w = Inr w'"
    using write_tells [OF ok up k] by (auto simp: on_conn_at [OF co(1)])
  obtain e where e: "handleClose k ((http_callbacks k cb)\<lparr>connCloseCallback := Inr\<rparr>) (conn_env co w) = Inr e"
    using close_tells [OF ok up k] by blast
  show "\<exists>w'. peer_closed k (http_callbacks k cb) cid w = Inr w'"
    using store_env_heap [of cid co e w] removeConnection_runs
    by (auto simp: peer_closed_def co(1) on_conn_at [OF co(1)] e)
  obtain e' where e': "handleRead k ((http_callbacks k cb)\<lparr>connCloseCallback := Inr\<rparr>) readv t (conn_env co w) = Inr e'"
    using read_tells [OF ok up k, of readv t] by blast
  let ?co = "co\<lparr>co_conn := te_conn e', co_sent := te_sent e', co_shutdown := te_shutdown e'\<rparr>"
  have h: "w_heap (store_env cid co e' w) cid = Some ?co" by (simp add: store_env_def)
  have "cbs_local (http_callbacks k cb)" using http_desc_env [OF k] by (simp add: desc_env_def)
  from handleRead_local [OF e' this up]
  have st: "fst (readFd readv (tc_input (co_conn co))) \<noteq> Inr 0 \<longrightarrow> conn_up (co_state ?co)"
    by (simp add: conn_env_def co_state_def split: if_splits)
  obtain w' where "removeConnection (co_loop co) cid (store_env cid co e' w) = Inr w'"
    using removeConnection_runs [OF h] by blast
  then show "\<exists>w' co'. conn_read k (http_callbacks k cb) readv t cid w = Inr w' \<and> w_heap w' cid = Some co' \<and>
      (fst (readFd readv (tc_input (co_conn co))) \<noteq> Inr 0 \<longrightarrow> conn_up (co_state co'))"
    using removeConnection_parts [of "co_loop co" cid "store_env cid co e' w" w'] h st
    by (simp add: conn_read_def co(1) on_conn_at [OF co(1)] e')
qed

lemma accept_runs:
  assumes inv: "web_inv own cb ((w, tb), lg)" and k: "kernel_ok k" and "tb connfd = None"
    and "ts_nextConnId (w_server w) < 2 ^ 31 - 1" and "getNextLoop (ts_pool (w_server w)) = Inr (ioLoop, pool)"
  shows "\<exists>w'. newConnection k (http_callbacks k cb) connfd w = Inr w'"
proof -
  have d: "desc_ok own w tb" using inv by (simp add: web_inv_def desc_inv_def)
  let ?w1 = "with_connection ioLoop pool connfd w" and ?co = "accepted_object ioLoop connfd w"
  have "\<exists>e. connectEstablished k (http_callbacks k cb) (conn_env ?co ?w1) = Inr e \<and> tells cb e []"
    by (rule established_tells [OF object_tells [OF d assms(3)] _ k]) (simp add: with_connection_object)
  moreover have "w_heap ?w1 (w_alloc w) = Some ?co" by (simp add: with_connection_object)
  ultimately obtain w' where
    "run_connectEstablished k (http_callbacks k cb) (w_alloc w) ?w1 = Inr w'"
    unfolding run_connectEstablished_def using on_conn_at [of ?w1 "w_alloc w" ?co] by auto
  then show ?thesis using assms(4,5) by (cases "ioLoop = ts_loop (w_server w)") (simp_all add: newConnection_eq)
qed

text \<open>A write event empties a part of the output, when the kernel takes some of it.\<close>

definition kernel_writes :: "kernel \<Rightarrow> bool" where
  "kernel_writes k \<longleftrightarrow> kernel_ok k \<and> (\<forall>s d. d \<noteq> [] \<longrightarrow> (\<exists>n > 0. kn_write k s d = Inr n))"

lemma write_progress:
  assumes live: "conn_live e" and k: "kernel_writes k" and out: "outputBytes e \<noteq> []"
  shows "\<exists>e'. handleWrite k e = Inr e' \<and> tc_state (te_conn e') = tc_state (te_conn e) \<and>
    length (outputBytes e') < length (outputBytes e)"
proof -
  have "ctl_honest (kn_ctl k)" "write_fits k" "conn_inv e"
    using k live by (simp_all add: kernel_writes_def kernel_ok_def conn_live_def)
  moreover obtain n where "0 < n" "kn_write k (te_sent e) (outputBytes e) = Inr n"
    using k out by (auto simp: kernel_writes_def)
  moreover have "length (drop n (outputBytes e)) < length (outputBytes e)" using out \<open>0 < n\<close> by simp
  ultimately show ?thesis
    using handleWrite_ok [of e k] conn_live_up [OF live] unfolding wrote_def by metis
qed

definition flushed :: "http_context conn_obj \<Rightarrow> bool" where
  "flushed co \<longleftrightarrow> peek_range (tc_output (co_conn co)) = [] \<and> (co_shutdown co \<longleftrightarrow> co_state co = kDisconnecting)"

lemma writes_flush:
  assumes "web_inv own cb ((w, tb), lg)" and k: "kernel_writes k"
    and "w_heap w cid = Some co" and "conn_up (co_state co)"
    and "length (peek_range (tc_output (co_conn co))) \<le> n"
  shows "\<exists>w' co'. (web_step cb)\<^sup>*\<^sup>* ((w, tb), lg) ((w', tb), lg) \<and> w_heap w' cid = Some co' \<and>
    co_state co' = co_state co \<and> flushed co'"
  using assms(1,3-5)
proof (induction n arbitrary: w co)
  case 0
  have "tells cb (conn_env co w) (lg cid)" using 0 web_tells by (simp add: web_inv_def)
  then have "conn_live (conn_env co w)" using 0(3) by (simp add: tells_up)
  moreover have "peek_range (tc_output (co_conn co)) = []"
    using 0(4) unfolding le_zero_eq length_0_conv .
  ultimately have "flushed co"
    by (auto simp: flushed_def conn_live_def conn_inv_def half_closed_def conn_env_def outputBytes_def co_state_def)
  with 0(2) show ?case by blast
next
  case (Suc n)
  let ?e = "conn_env co w"
  have ok: "kernel_ok k" using k by (simp add: kernel_writes_def)
  have "tells cb ?e (lg cid)" using Suc.prems web_tells by (simp add: web_inv_def)
  then have live: "conn_live ?e" using Suc.prems(3) by (simp add: tells_up)
  show ?case
  proof (cases "outputBytes ?e = []")
    case True
    then show ?thesis using Suc.IH [OF Suc.prems(1-3)] by (simp add: outputBytes_def conn_env_def)
  next
    case False
    from write_progress [OF live k this] obtain e where
      e: "handleWrite k ?e = Inr e" "tc_state (te_conn e) = co_state co"
      "length (outputBytes e) < length (outputBytes ?e)" by auto
    let ?w1 = "store_env cid co e w"
    let ?co = "co\<lparr>co_conn := te_conn e, co_sent := te_sent e, co_shutdown := te_shutdown e\<rparr>"
    have "on_conn (handleWrite k) cid w = Inr ?w1" using e(1) by (simp add: on_conn_at [OF Suc.prems(2)])
    then have st: "web_step cb ((w, tb), lg) ((?w1, tb), lg)" by (rule web_writable [OF ok Suc.prems(2,3)])
    have "w_heap ?w1 cid = Some ?co" by (simp add: store_env_def)
    moreover have "conn_up (co_state ?co)" "co_state ?co = co_state co"
      using e(2) Suc.prems(3) by (simp_all add: co_state_def)
    moreover have "length (peek_range (tc_output (co_conn ?co))) \<le> n"
      using e(3) Suc.prems(4) by (simp add: outputBytes_def conn_env_def)
    ultimately show ?thesis
      using Suc.IH [OF web_inv_step [OF Suc.prems(1) st], of ?co] st
      by (metis converse_rtranclp_into_rtranclp)
  qed
qed

section \<open>Sessions and requests\<close>

lemma receive_tells:
  assumes t: "tells cb e segs" and up: "conn_up (tc_state (te_conn e))" and k: "kernel_ok k"
    and r: "receive k cb seg e = Some (Inr e')"
  shows "tells cb e' (segs @ [seg]) \<and> conn_up (tc_state (te_conn e'))"
proof -
  obtain c where c: "conn_live e" "tc_context (te_conn e) = Some c" "ctx_parsing c"
    "session_of cb segs = (c, inputBytes e, streamOut e, tc_state (te_conn e) = kConnected)"
    using t up by (auto simp: tells_up)
  let ?e1 = "e\<lparr>te_conn := (te_conn e)\<lparr>tc_input := append (snd seg) (tc_input (te_conn e))\<rparr>\<rparr>"
  have "conn_live ?e1" "inputBytes ?e1 = inputBytes e @ snd seg" "streamOut ?e1 = streamOut e"
    using c(1) conn_live_input [OF c(1)]
    by (simp_all add: conn_live_def conn_inv_def half_closed_def outputBytes_def buf_inv_append
        inputBytes_def peek_range_append streamOut_def)
  with message_tells [of ?e1 c k cb segs "inputBytes e" "snd seg" "fst seg"] c k r show ?thesis
    by (auto simp: receive_def conn_live_def half_closed_def conn_up_def)
qed

lemma receive_all_tells:
  "tells cb e segs \<Longrightarrow> conn_up (tc_state (te_conn e)) \<Longrightarrow> kernel_ok k \<Longrightarrow>
   receive_all k cb ss e = Some (Inr e') \<Longrightarrow> tells cb e' (segs @ ss) \<and> conn_up (tc_state (te_conn e'))"
proof (induction ss arbitrary: e segs)
  case (Cons seg ss)
  then obtain e1 where "receive k cb seg e = Some (Inr e1)" "receive_all k cb ss e1 = Some (Inr e')"
    by (auto split: option.splits sum.splits)
  with receive_tells [OF Cons.prems(1-3)] Cons.IH [of e1 "segs @ [seg]"] Cons.prems(3) show ?case by simp
qed simp

text \<open>The specification of a session on the segments of requests: their responses, in order.\<close>

lemma session_serves:
  assumes keep: "\<And>req. \<not> resp_closeConnection (response_of cb req)"
    and "list_all request_printable rs" and "list_all2 segments_of rs segss"
  shows "\<exists>ts. length ts = length rs \<and> session_out (session_of cb (concat segss)) =
    concat (map (\<lambda>(r, t). response_bytes cb (r\<lparr>req_receiveTime := t\<rparr>)) (zip rs ts))"
proof -
  obtain e' ts where e': "receive_all slow_kernel cb (concat segss) http_established = Some (Inr e')"
    "length ts = length rs" "streamOut e' = streamOut http_established @
      concat (map (\<lambda>(r, t). response_bytes cb (r\<lparr>req_receiveTime := t\<rparr>)) (zip rs ts))"
    using session_ok [OF slow_kernel_all keep assms(2,3) http_established_ok(1,2)] by blast
  have up: "conn_up (tc_state (te_conn http_established))"
    by (simp add: http_established_ok(2) conn_up_def)
  have "conn_live http_established" using http_established_ok(1) by (simp add: http_idle_def)
  then have "tells cb http_established []"
    using http_established_ok(2,4) ctx_ready_parsing [OF ctx_ready_new]
    by (simp add: tells_up [OF up] session_of_Nil inputBytes_def)
       (simp add: http_established_def TcpConnection_new_def)
  from receive_all_tells [OF this up slow_kernel_all e'(1)]
  have "streamOut e' = session_out (session_of cb (concat segss))" using tells_stream by fastforce
  then show ?thesis using e'(2,3) http_established_ok(4) by auto
qed

section \<open>Properties\<close>

lemma web_stream:
  assumes "reach (web_init own) (web_step cb) ((w, tb), lg)" and "w_heap w cid = Some co"
  shows "co_sent co @ peek_range (tc_output (co_conn co)) = session_out (session_of cb (lg cid))"
proof -
  have "web_ok cb w lg" using web.reach_inv [OF assms(1)] by (simp add: web_inv_def)
  then have t: "tells cb (conn_env co w) (lg cid)" using assms(2) by (rule web_tells)
  have "streamOut (conn_env co w) = session_out (session_of cb (lg cid))"
  proof (cases "conn_up (co_state co)")
    case True
    then show ?thesis using tells_stream [OF _ t] by simp
  next
    case False
    then show ?thesis
      using t by (cases "co_state co")
        (auto simp: tells_def conn_up_def session_of_Nil session_out_def)
  qed
  then show ?thesis by (simp add: streamOut_def outputBytes_def conn_env_def)
qed

text \<open>
  C3: the connections of the HTTP server do not disturb each other. In every interleaving
  of accepts, reads, write events, closes and functors of all the loops, the parser state,
  the unread input and the open or half-closed state of an established connection, and the
  bytes given to the kernel followed by those waiting, are what the specification of a
  session gives for the segments read from this connection alone; and for a closed
  connection the bytes still are.
\<close>

theorem web_server_isolates:
  assumes "reach (web_init own) (web_step cb) ((w, tb), lg)" and "w_heap w cid = Some co"
  shows "co_sent co @ peek_range (tc_output (co_conn co)) = session_out (session_of cb (lg cid)) \<and>
    (conn_up (co_state co) \<longrightarrow> (\<exists>c. tc_context (co_conn co) = Some c \<and>
       session_of cb (lg cid) = (c, peek_range (tc_input (co_conn co)),
         co_sent co @ peek_range (tc_output (co_conn co)), co_state co = kConnected)))"
proof (intro conjI impI)
  show "co_sent co @ peek_range (tc_output (co_conn co)) = session_out (session_of cb (lg cid))"
    by (rule web_stream [OF assms])
  assume up: "conn_up (co_state co)"
  have "web_ok cb w lg" using web.reach_inv [OF assms(1)] by (simp add: web_inv_def)
  then have "tells cb (conn_env co w) (lg cid)" using assms(2) by (rule web_tells)
  moreover have "conn_up (tc_state (te_conn (conn_env co w)))" using up by simp
  ultimately obtain c where "tc_context (te_conn (conn_env co w)) = Some c"
    "session_of cb (lg cid) = (c, inputBytes (conn_env co w), streamOut (conn_env co w),
       tc_state (te_conn (conn_env co w)) = kConnected)"
    by (auto simp: tells_up)
  then show "\<exists>c. tc_context (co_conn co) = Some c \<and>
       session_of cb (lg cid) = (c, peek_range (tc_input (co_conn co)),
         co_sent co @ peek_range (tc_output (co_conn co)), co_state co = kConnected)"
    by (simp add: conn_env_def inputBytes_def streamOut_def outputBytes_def co_state_def)
qed

text \<open>A server that has accepted a connection, established it and read a request from it.\<close>

definition web_callbacks :: "http_context conn_callbacks" where
  "web_callbacks = http_callbacks slow_kernel keep_callback"

definition web_up :: "http_context world" where
  "web_up = projr (run_functor slow_kernel web_callbacks (\<lambda>p n. []) (ConnectEstablished 10)
     (demo_accepted\<lparr>w_queues := (w_queues (demo_accepted :: http_context world))(7 := [])\<rparr>))"

definition web_read_request :: readv_fn where
  "web_read_request n = Inr (print_request sample_request)"

definition web_served :: "http_context world" where
  "web_served = projr (conn_read slow_kernel web_callbacks web_read_request 1 10 web_up)"

definition web_table :: sock_table where
  "web_table = [3 \<mapsto> sock_new, 5 \<mapsto> accepted_sock 0]"

lemma web_up_eq: "run_functor slow_kernel web_callbacks (\<lambda>p n. []) (ConnectEstablished 10)
     (demo_accepted\<lparr>w_queues := (w_queues (demo_accepted :: http_context world))(7 := [])\<rparr>) = Inr web_up"
  by (simp add: web_up_def demo_eval web_callbacks_def http_callbacks_def onConnection_def connected_def setContext_def)

lemma web_up_heap: "\<exists>co. w_heap web_up 10 = Some co \<and> conn_up (co_state co)"
  by (simp add: web_up_def demo_eval web_callbacks_def http_callbacks_def onConnection_def connected_def
      setContext_def co_state_def conn_up_def)

lemma web_up_reachable: "reach (web_init {3}) (web_step keep_callback) ((web_up, web_table), \<lambda>cid. [])"
proof -
  let ?tb = "[3 \<mapsto> sock_new]" and ?lg = "\<lambda>cid :: nat. [] :: (int \<times> string) list"
  have i: "web_init {3} ((demo_world, ?tb), ?lg)"
    using demo_world_init
    by (auto simp: web_init_def desc_init_def acceptor_desc_def watched_def demo_world_def demo_server_def
        TcpServer_new_def Acceptor_new_def Channel_new_def EPollPoller_new_def chan_inv_def interest_def kNew_def)
  have a: "web_step keep_callback ((demo_world, ?tb), ?lg) ((demo_accepted, web_table), ?lg)"
    using web_accept [OF slow_kernel_all, of ?tb 5 undefined undefined "?tb(5 \<mapsto> sock_new)" keep_callback demo_world
        demo_accepted ?lg 0] accepted_table [of 5 undefined undefined ?tb "?tb(5 \<mapsto> sock_new)" 0]
    by (simp add: Acceptor_handleRead_def demo_accepts Socket_accept_def web_table_def)
  have "w_queues (demo_accepted :: http_context world) 7 = [ConnectEstablished 10]" by (simp add: demo_accepted_def)
  from web_functor [OF slow_kernel_all this web_up_eq [unfolded web_callbacks_def], of web_table ?lg]
  have "web_step keep_callback ((demo_accepted, web_table), ?lg)
      ((web_up, close_freed (ConnectEstablished 10) demo_accepted web_up web_table), ?lg)" .
  moreover have "close_freed (ConnectEstablished 10) demo_accepted web_up web_table = web_table"
    using web_up_heap by (auto simp: close_freed_def split: option.splits)
  ultimately have "web_step keep_callback ((demo_accepted, web_table), ?lg) ((web_up, web_table), ?lg)" by simp
  then show ?thesis
    by (rule reach_step [of _ "web_step keep_callback", OF reach_step [of _ "web_step keep_callback",
          OF reach_init [of "web_init {3}", OF i] a]])
qed

lemma web_served_reachable:
  "\<exists>co. reach (web_init {3}) (web_step keep_callback)
      ((web_served, web_table), (\<lambda>cid. [])(10 := [(1, print_request sample_request)])) \<and>
    w_heap web_served 10 = Some co \<and> conn_up (co_state co)"
proof -
  obtain co where co: "w_heap web_up 10 = Some co" "conn_up (co_state co)" using web_up_heap by blast
  have inv: "web_inv {3} keep_callback ((web_up, web_table), \<lambda>cid. [])" by (rule web.reach_inv [OF web_up_reachable])
  obtain w' co' where w': "conn_read slow_kernel web_callbacks web_read_request 1 10 web_up = Inr w'"
    "w_heap w' 10 = Some co'" "fst (readFd web_read_request (tc_input (co_conn co))) \<noteq> Inr 0 \<longrightarrow> conn_up (co_state co')"
    using events_run(3) [OF inv slow_kernel_all co, of web_read_request 1] unfolding web_callbacks_def by blast
  then have "w' = web_served" by (simp add: web_served_def)
  moreover have some: "print_request sample_request \<noteq> []"
    by (simp add: sample_request_def print_request_def print_request_line_def crlf_def)
  then have "log_read web_read_request 1 10 co (\<lambda>cid. []) = (\<lambda>cid. [])(10 := [(1, print_request sample_request)])"
    by (simp add: log_read_def read_segment_def web_read_request_def)
  ultimately have "web_step keep_callback ((web_up, web_table), \<lambda>cid. [])
      ((web_served, web_table), (\<lambda>cid. [])(10 := [(1, print_request sample_request)]))"
    using web_read [OF slow_kernel_all co w'(1) [unfolded web_callbacks_def], of web_table "\<lambda>cid. []"] by simp
  moreover have "fst (readFd web_read_request (tc_input (co_conn co))) \<noteq> Inr 0"
    using some by (simp add: readFd_def Let_def web_read_request_def)
  ultimately show ?thesis
    using reach_step [of _ "web_step keep_callback", OF web_up_reachable] w'(2,3) \<open>w' = web_served\<close> by blast
qed

theorem web_server_isolates_witness:
  "\<exists>co. w_heap web_served 10 = Some co \<and>
     co_sent co @ peek_range (tc_output (co_conn co)) =
       session_out (session_of keep_callback [(1, print_request sample_request)])"
proof -
  obtain co where co: "reach (web_init {3}) (web_step keep_callback)
      ((web_served, web_table), (\<lambda>cid. [])(10 := [(1, print_request sample_request)]))"
    "w_heap web_served 10 = Some co"
    using web_served_reachable by blast
  from web_server_isolates [OF co] co(2) show ?thesis by auto
qed

text \<open>
  C2: every client gets its responses in order. Suppose that every response of the user's
  callback keeps the connection open (the default callback does not), and that what a
  connection has received so far are the segments of any number of well-formed requests,
  each in segments of its own (a segment with bytes of two requests leaves the second
  unanswered). Then the bytes that the kernel has taken
  for this connection followed by those waiting in its output buffer are the responses to
  these requests, in the order of the requests and with nothing in between, whatever the
  other connections and loops did meanwhile.
\<close>

theorem web_server_answers_in_order:
  assumes "reach (web_init own) (web_step cb) ((w, tb), lg)" and "w_heap w cid = Some co"
    and "\<forall>req. \<not> resp_closeConnection (response_of cb req)"
    and "list_all request_printable rs" and "list_all2 segments_of rs segss" and "lg cid = concat segss"
  shows "\<exists>ts. length ts = length rs \<and> co_sent co @ peek_range (tc_output (co_conn co)) =
    concat (map (\<lambda>(r, t). response_bytes cb (r\<lparr>req_receiveTime := t\<rparr>)) (zip rs ts))"
  using web_stream [OF assms(1,2)] session_serves [of cb rs segss] assms(3-6) by simp

lemma keep_callback_keeps: "\<not> resp_closeConnection (response_of keep_callback req)"
  by (simp add: response_of_def keep_callback_def setBody_def setCloseConnection_def)

lemma sample_segments: "list_all2 segments_of [sample_request] [[(t, print_request sample_request)]]"
  by (simp add: segments_of_def sample_request_def print_request_def print_request_line_def crlf_def)

theorem web_server_answers_in_order_witness:
  "\<exists>co t. w_heap web_served 10 = Some co \<and> co_sent co @ peek_range (tc_output (co_conn co)) =
     response_bytes keep_callback (sample_request\<lparr>req_receiveTime := t\<rparr>)"
proof -
  obtain co where co: "reach (web_init {3}) (web_step keep_callback)
      ((web_served, web_table), (\<lambda>cid. [])(10 := [(1, print_request sample_request)]))"
    "w_heap web_served 10 = Some co"
    using web_served_reachable by blast
  from web_server_answers_in_order [OF co _ _ sample_segments [of 1]] keep_callback_keeps sample_request_printable
  obtain ts where "length ts = Suc 0" "co_sent co @ peek_range (tc_output (co_conn co)) =
      concat (map (\<lambda>(r, t). response_bytes keep_callback (r\<lparr>req_receiveTime := t\<rparr>)) (zip [sample_request] ts))"
    by auto
  then show ?thesis using co(2) by (auto simp: length_Suc_conv)
qed

text \<open>
  C7: the HTTP server never gets stuck. In every reachable state, with a kernel that takes
  any part of the bytes it is given or refuses for now, no handler fails and none hangs:
  the functor at the head of any queue runs, an accepted descriptor becomes a connection
  while there are names for connections, and any connection that is up handles a write
  event, a close event, and a read event with any answer of \<open>readv\<close> and any bytes in it.
\<close>

theorem web_server_never_stuck:
  assumes "reach (web_init own) (web_step cb) ((w, tb), lg)" and "kernel_ok k"
  shows "(\<forall>l f fs. w_queues w l = f # fs \<longrightarrow>
      (\<exists>w'. run_functor k (http_callbacks k cb) mem f (w\<lparr>w_queues := (w_queues w)(l := fs)\<rparr>) = Inr w')) \<and>
    (\<forall>connfd ioLoop pool. tb connfd = None \<and> ts_nextConnId (w_server w) < 2 ^ 31 - 1 \<and>
       getNextLoop (ts_pool (w_server w)) = Inr (ioLoop, pool) \<longrightarrow>
      (\<exists>w'. newConnection k (http_callbacks k cb) connfd w = Inr w')) \<and>
    (\<forall>cid co. w_heap w cid = Some co \<and> conn_up (co_state co) \<longrightarrow>
      (\<exists>w'. on_conn (handleWrite k) cid w = Inr w') \<and>
      (\<exists>w'. peer_closed k (http_callbacks k cb) cid w = Inr w') \<and>
      (\<forall>readv t. \<exists>w'. conn_read k (http_callbacks k cb) readv t cid w = Inr w'))"
proof -
  have inv: "web_inv own cb ((w, tb), lg)" by (rule web.reach_inv [OF assms(1)])
  show ?thesis
    using functor_runs [OF inv assms(2)] accept_runs [OF inv assms(2)] events_run [OF inv assms(2)] by blast
qed

theorem web_server_never_stuck_witness:
  "\<exists>w'. conn_read slow_kernel (http_callbacks slow_kernel keep_callback) (\<lambda>n. Inr ''junk'') 2 10 web_up = Inr w'"
  using web_server_never_stuck [OF web_up_reachable slow_kernel_all, of "\<lambda>p n. []"] web_up_heap by blast

text \<open>
  C8: every response can be delivered. From any reachable state, and whatever the other
  connections have waiting, write events of an established connection alone, with a kernel
  that takes at least one byte each time, lead to a state in which the kernel has been given
  everything that the session of this connection sends, the output buffer is empty, and the
  write side is shut down exactly when the session has ended.
\<close>

theorem web_server_delivers:
  assumes "reach (web_init own) (web_step cb) ((w, tb), lg)" and "w_heap w cid = Some co"
    and "conn_up (co_state co)" and "kernel_writes k"
  shows "\<exists>w' co'. (web_step cb)\<^sup>*\<^sup>* ((w, tb), lg) ((w', tb), lg) \<and> w_heap w' cid = Some co' \<and>
    co_sent co' = session_out (session_of cb (lg cid)) \<and> peek_range (tc_output (co_conn co')) = [] \<and>
    co_state co' = co_state co \<and> (co_shutdown co' \<longleftrightarrow> co_state co = kDisconnecting)"
proof -
  from writes_flush [OF web.reach_inv [OF assms(1)] assms(4,2,3) order.refl] obtain w' co' where
    w': "(web_step cb)\<^sup>*\<^sup>* ((w, tb), lg) ((w', tb), lg)" "w_heap w' cid = Some co'"
    "co_state co' = co_state co" "flushed co'" by blast
  with web_stream [OF reach_steps [OF w'(1) assms(1)] w'(2)] show ?thesis by (auto simp: flushed_def)
qed

lemma slow_kernel_writes: "kernel_writes slow_kernel"
  using slow_kernel_all slow_kernel_progress by (simp add: kernel_writes_def)

theorem web_server_delivers_witness:
  "\<exists>w' co'. (web_step keep_callback)\<^sup>*\<^sup>*
      ((web_served, web_table), (\<lambda>cid. [])(10 := [(1, print_request sample_request)]))
      ((w', web_table), (\<lambda>cid. [])(10 := [(1, print_request sample_request)])) \<and>
    w_heap w' 10 = Some co' \<and>
    co_sent co' = session_out (session_of keep_callback [(1, print_request sample_request)])"
proof -
  obtain co where co: "reach (web_init {3}) (web_step keep_callback)
      ((web_served, web_table), (\<lambda>cid. [])(10 := [(1, print_request sample_request)]))"
    "w_heap web_served 10 = Some co" "conn_up (co_state co)"
    using web_served_reachable by blast
  from web_server_delivers [OF co slow_kernel_writes] show ?thesis by auto
qed

end
