(* ===== verification/Echo_Server.thy ===== *)
theory Echo_Server
  imports Http_Server
begin

text \<open>
  The server of \<open>src/test/testserver.cpp\<close>, a second client of \<open>TcpServer\<close>: it sends what
  it receives back and closes its side of the connection.
\<close>

section \<open>Operations\<close>

definition EchoServer_new :: "nat \<Rightarrow> nat \<Rightarrow> int \<Rightarrow> inet_address \<Rightarrow> string \<Rightarrow> tcp_server" where
  "EchoServer_new loop a sockfd addr name = setThreadNum 5 (TcpServer_new loop a sockfd addr name False)"

text \<open>What \<open>onConnection\<close> logs, with the address text of the peer.\<close>

definition echo_onConnection :: "string \<Rightarrow> 'c tcp_env \<Rightarrow> string" where
  "echo_onConnection peer e =
     (if connected (te_conn e) then ''Connection UP : '' @ peer else ''Connection Down : %s'' @ peer)"

definition echo_onMessage :: "kernel \<Rightarrow> 'c tcp_env \<Rightarrow> 'c tcp_env res" where
  "echo_onMessage k e =
     res_bind (retrieveAllAsString (tc_input (te_conn e))) (\<lambda>(msg, buf).
       res_bind (send k True 0 msg (e\<lparr>te_conn := (te_conn e)\<lparr>tc_input := buf\<rparr>\<rparr>)) (\<lambda>e1.
         Inr (shutdown True e1)))"

text \<open>The bytes of a segment arrive in the input buffer, and the handler is called.\<close>

fun echo_receive :: "kernel \<Rightarrow> string list \<Rightarrow> 'c tcp_env \<Rightarrow> 'c tcp_env res" where
  "echo_receive k [] e = Inr e"
| "echo_receive k (seg # segs) e =
     res_bind (echo_onMessage k (e\<lparr>te_conn := (te_conn e)\<lparr>tc_input := append seg (tc_input (te_conn e))\<rparr>\<rparr>))
       (echo_receive k segs)"

section \<open>Lemmas\<close>

lemma echo_onMessage_events:
  assumes "conn_live e"
  shows "echo_onMessage k e =
    conn_run k [EvSend (peek_range (tc_input (te_conn e))), EvShutdown]
      (e\<lparr>te_conn := (te_conn e)\<lparr>tc_input := retrieveAll (tc_input (te_conn e))\<rparr>\<rparr>)"
  using conn_live_input [OF assms] by (simp add: echo_onMessage_def retrieveAllAsString_ok)

lemma conn_live_new_input: "conn_live e \<Longrightarrow> buf_inv b \<Longrightarrow> conn_live (e\<lparr>te_conn := (te_conn e)\<lparr>tc_input := b\<rparr>\<rparr>)"
  by (simp add: conn_live_def conn_inv_def half_closed_def outputBytes_def)

lemma echo_message_ok:
  assumes live: "conn_live e" and k: "kernel_ok k"
  shows "\<exists>e'. echo_onMessage k e = Inr e' \<and> conn_live e' \<and> peek_range (tc_input (te_conn e')) = [] \<and>
    tc_state (te_conn e') \<noteq> kConnected \<and>
    te_sent e' @ outputBytes e' = te_sent e @ outputBytes e @
      (if tc_state (te_conn e) = kConnected then peek_range (tc_input (te_conn e)) else [])"
proof -
  let ?b = "retrieveAll (tc_input (te_conn e))" and ?x = "peek_range (tc_input (te_conn e))"
  let ?e = "e\<lparr>te_conn := (te_conn e)\<lparr>tc_input := ?b\<rparr>\<rparr>"
  have b: "buf_inv ?b" "peek_range ?b = []"
    using conn_live_input [OF live] by (auto simp: buf_inv_retrieveAll peek_range_retrieveAll)
  from conn_run_ok [OF conn_live_new_input [OF live b(1)], of k "[EvSend ?x, EvShutdown]"] k obtain e' where
    e': "conn_run k [EvSend ?x, EvShutdown] ?e = Inr e'" "conn_live e'" "tc_state (te_conn e') \<noteq> kConnected"
    "te_sent e' @ outputBytes e' = te_sent e @ outputBytes ?e @
      (if tc_state (te_conn e) = kConnected then accepted [EvSend ?x, EvShutdown] else [])"
    unfolding kernel_ok_def by auto
  moreover have "outputBytes ?e = outputBytes e" by (simp add: outputBytes_def)
  moreover have "tc_input (te_conn e') = ?b" using conn_run_input [OF e'(1)] by (simp add: same_input_def)
  ultimately show ?thesis using echo_onMessage_events [OF live, of k] b(2) by simp
qed

text \<open>Segments that arrive after the connection is half-closed are read and dropped.\<close>

lemma echo_rest:
  assumes "conn_live e" and "kernel_ok k" and "tc_state (te_conn e) \<noteq> kConnected"
    and "peek_range (tc_input (te_conn e)) = []"
  shows "\<exists>e'. echo_receive k segs e = Inr e' \<and> conn_live e' \<and> tc_state (te_conn e') \<noteq> kConnected \<and>
    peek_range (tc_input (te_conn e')) = [] \<and> te_sent e' @ outputBytes e' = te_sent e @ outputBytes e"
  using assms
proof (induction segs arbitrary: e)
  case (Cons seg segs)
  let ?e = "e\<lparr>te_conn := (te_conn e)\<lparr>tc_input := append seg (tc_input (te_conn e))\<rparr>\<rparr>"
  have "conn_live ?e" "outputBytes ?e = outputBytes e"
    using conn_live_new_input [OF Cons.prems(1)] conn_live_input [OF Cons.prems(1)] buf_inv_append
    by (auto simp: outputBytes_def)
  then obtain e1 where "echo_onMessage k ?e = Inr e1" "conn_live e1" "peek_range (tc_input (te_conn e1)) = []"
    "tc_state (te_conn e1) \<noteq> kConnected" "te_sent e1 @ outputBytes e1 = te_sent e @ outputBytes e"
    using echo_message_ok [of ?e k] Cons.prems(2,3) by auto
  then show ?case using Cons.IH [of e1] Cons.prems(2) by auto
qed simp

section \<open>Properties\<close>

text \<open>
  The echo. On an open connection with no input pending the first segment comes back
  byte for byte behind what was sent before, the connection is half-closed, and every
  further segment is read and dropped.
\<close>

theorem echo_sends_first_segment:
  assumes "conn_live e" and "kernel_ok k" and "tc_state (te_conn e) = kConnected"
    and "peek_range (tc_input (te_conn e)) = []"
  shows "\<exists>e'. echo_receive k (seg # segs) e = Inr e' \<and> tc_state (te_conn e') = kDisconnecting \<and>
    te_sent e' @ outputBytes e' = (te_sent e @ outputBytes e) @ seg \<and> peek_range (tc_input (te_conn e')) = []"
proof -
  let ?b = "append seg (tc_input (te_conn e))"
  let ?e = "e\<lparr>te_conn := (te_conn e)\<lparr>tc_input := ?b\<rparr>\<rparr>"
  have b: "buf_inv ?b" "peek_range ?b = seg"
    using conn_live_input [OF assms(1)] assms(4) by (auto simp: buf_inv_append peek_range_append)
  then obtain e1 where e1: "echo_onMessage k ?e = Inr e1" "conn_live e1" "peek_range (tc_input (te_conn e1)) = []"
    "tc_state (te_conn e1) \<noteq> kConnected" "te_sent e1 @ outputBytes e1 = te_sent e @ outputBytes e @ seg"
    using echo_message_ok [OF conn_live_new_input [OF assms(1) b(1)] assms(2)] assms(3) by (auto simp: outputBytes_def)
  then obtain e' where "echo_receive k segs e1 = Inr e'" "conn_live e'" "tc_state (te_conn e') \<noteq> kConnected"
    "peek_range (tc_input (te_conn e')) = []" "te_sent e' @ outputBytes e' = te_sent e1 @ outputBytes e1"
    using echo_rest [OF e1(2) assms(2) e1(4,3)] by blast
  moreover have "tc_state (te_conn e') = kConnected \<or> tc_state (te_conn e') = kDisconnecting"
    using \<open>conn_live e'\<close> by (auto simp: conn_live_def half_closed_def)
  ultimately show ?thesis using e1(1,5) by auto
qed

theorem echo_sends_first_segment_witness:
  "\<exists>e'. echo_receive slow_kernel [''hello'', '' world''] http_established = Inr e' \<and>
     tc_state (te_conn e') = kDisconnecting \<and> te_sent e' @ outputBytes e' = ''hello''"
proof -
  have "conn_live http_established" "peek_range (tc_input (te_conn http_established)) = []"
    using http_established_ok(1) by (auto simp: http_idle_def inputBytes_def)
  then show ?thesis
    using echo_sends_first_segment [OF _ slow_kernel_all http_established_ok(2), of "''hello''" "['' world'']"]
      http_established_ok(4) by (auto simp: streamOut_def)
qed

end
