(* ===== verification/Event_Loop.thy ===== *)
theory Event_Loop
  imports Prelude "HOL-Library.Sublist"
begin

text \<open>
  The class \<open>EventLoop\<close> (\<open>src/include/EventLoop.h\<close>, \<open>src/src/EventLoop.cpp\<close>): the
  loop of one thread, the functors other threads hand to it, and the eventfd that wakes
  it out of \<open>epoll_wait\<close>.

  The functors are abstract values \<open>'f\<close>. The state holds the shared members of the
  class and the program counter of the loop's thread; the step relation \<open>loop_step\<close>
  interleaves the loop's thread with any number of other threads, at the granularity
  of the code's own locks and system calls: the push under the mutex and the write to
  the eventfd that follows it are two steps of another thread, and \<open>lp_foreign\<close> counts
  the threads that are between the two. \<open>lp_queued\<close> and \<open>lp_executed\<close> record what was
  queued and what was run. The eventfd is its counter.
\<close>

section \<open>Data and operations\<close>

text \<open>
  Where the loop's thread is: before \<open>loop()\<close>, at the test of \<open>while (!quit_)\<close>, in
  \<open>epoll_wait\<close>, dispatching the active channels (with the wakeup channel among them or
  not), at the start of \<open>doPendingFunctors\<close>, in its execution loop, or past the loop.
\<close>

datatype loop_pc = LInit | LCheck | LPoll | LHandle bool | LSwap | LRun | LExit

record 'f loop_state =
  lp_pc :: loop_pc
  lp_looping :: bool
  lp_quit :: bool
  lp_calling :: bool
  lp_pending :: "'f list"
  lp_functors :: "'f list"
  lp_wakeup :: nat
  lp_foreign :: nat
  lp_early :: bool
  lp_queued :: "'f list"
  lp_executed :: "'f list"

definition EventLoop_new :: "'f loop_state" where
  "EventLoop_new = \<lparr>lp_pc = LInit, lp_looping = False, lp_quit = False, lp_calling = False,
     lp_pending = [], lp_functors = [], lp_wakeup = 0, lp_foreign = 0, lp_early = False,
     lp_queued = [], lp_executed = []\<rparr>"

text \<open>The members' operations, called by the thread that the step relation says.\<close>

definition wakeup :: "'f loop_state \<Rightarrow> 'f loop_state" where
  "wakeup s = s\<lparr>lp_wakeup := lp_wakeup s + 1\<rparr>"

definition handleWakeup :: "'f loop_state \<Rightarrow> 'f loop_state" where
  "handleWakeup s = s\<lparr>lp_wakeup := 0\<rparr>"

definition push_functor :: "'f \<Rightarrow> 'f loop_state \<Rightarrow> 'f loop_state" where
  "push_functor cb s = s\<lparr>lp_pending := lp_pending s @ [cb], lp_queued := lp_queued s @ [cb]\<rparr>"

definition needs_wakeup :: "bool \<Rightarrow> 'f loop_state \<Rightarrow> bool" where
  "needs_wakeup inLoopThread s \<longleftrightarrow> \<not> inLoopThread \<or> lp_calling s"

text \<open>\<open>queueInLoop\<close> as the loop's own thread runs it, without interruption.\<close>

definition queueInLoop :: "bool \<Rightarrow> 'f \<Rightarrow> 'f loop_state \<Rightarrow> 'f loop_state" where
  "queueInLoop inLoopThread cb s =
     (let s' = push_functor cb s in if needs_wakeup inLoopThread s' then wakeup s' else s')"

definition execute :: "'f \<Rightarrow> 'f loop_state \<Rightarrow> 'f loop_state" where
  "execute cb s = s\<lparr>lp_executed := lp_executed s @ [cb]\<rparr>"

definition quit_loop :: "bool \<Rightarrow> 'f loop_state \<Rightarrow> 'f loop_state" where
  "quit_loop inLoopThread s =
     (let s' = s\<lparr>lp_quit := True\<rparr> in if \<not> inLoopThread then wakeup s' else s')"

definition enter_loop :: "'f loop_state \<Rightarrow> 'f loop_state" where
  "enter_loop s = s\<lparr>lp_looping := True, lp_quit := False, lp_pc := LCheck\<rparr>"

definition swap_pending :: "'f loop_state \<Rightarrow> 'f loop_state" where
  "swap_pending s = s\<lparr>lp_functors := lp_pending s, lp_pending := [], lp_early := False,
     lp_pc := LRun\<rparr>"

text \<open>
  \<open>doPendingFunctors\<close> when no functor queues or quits and no other thread interferes.
\<close>

definition doPendingFunctors :: "'f loop_state \<Rightarrow> 'f loop_state" where
  "doPendingFunctors s =
     (let s1 = swap_pending (s\<lparr>lp_calling := True\<rparr>);
          s2 = (fold execute (lp_functors s1) s1)\<lparr>lp_functors := []\<rparr>
      in s2\<lparr>lp_calling := False, lp_pc := LCheck\<rparr>)"

text \<open>
  One step of some thread. The threads other than the loop's push and write to the
  eventfd in two steps (\<open>foreign_push\<close>, \<open>foreign_wakeup\<close>), and so do they quit.
\<close>

inductive loop_step :: "'f loop_state \<Rightarrow> 'f loop_state \<Rightarrow> bool" where
  init_queue: "lp_pc s = LInit \<Longrightarrow> loop_step s ((queueInLoop True cb s)\<lparr>lp_early := True\<rparr>)"
| enter: "lp_pc s = LInit \<Longrightarrow> loop_step s (enter_loop s)"
| check_go: "lp_pc s = LCheck \<Longrightarrow> \<not> lp_quit s \<Longrightarrow> loop_step s (s\<lparr>lp_pc := LPoll\<rparr>)"
| check_stop: "lp_pc s = LCheck \<Longrightarrow> lp_quit s \<Longrightarrow>
     loop_step s (s\<lparr>lp_pc := LExit, lp_looping := False\<rparr>)"
| poll_wakeup: "lp_pc s = LPoll \<Longrightarrow> 0 < lp_wakeup s \<Longrightarrow> loop_step s (s\<lparr>lp_pc := LHandle True\<rparr>)"
| poll_other: "lp_pc s = LPoll \<Longrightarrow> lp_wakeup s = 0 \<Longrightarrow> loop_step s (s\<lparr>lp_pc := LHandle False\<rparr>)"
| handle_wakeup: "lp_pc s = LHandle True \<Longrightarrow>
     loop_step s ((handleWakeup s)\<lparr>lp_pc := LHandle False\<rparr>)"
| handle_queue: "lp_pc s = LHandle w \<Longrightarrow> loop_step s (queueInLoop True cb s)"
| handle_quit: "lp_pc s = LHandle w \<Longrightarrow> loop_step s (quit_loop True s)"
| handle_done: "lp_pc s = LHandle False \<Longrightarrow>
     loop_step s (s\<lparr>lp_calling := True, lp_pc := LSwap\<rparr>)"
| swap: "lp_pc s = LSwap \<Longrightarrow> loop_step s (swap_pending s)"
| run_functor: "lp_pc s = LRun \<Longrightarrow> lp_functors s = cb # cbs \<Longrightarrow>
     loop_step s ((execute cb s)\<lparr>lp_functors := cbs\<rparr>)"
| run_queue: "lp_pc s = LRun \<Longrightarrow> loop_step s (queueInLoop True cb s)"
| run_quit: "lp_pc s = LRun \<Longrightarrow> loop_step s (quit_loop True s)"
| run_done: "lp_pc s = LRun \<Longrightarrow> lp_functors s = [] \<Longrightarrow>
     loop_step s (s\<lparr>lp_calling := False, lp_pc := LCheck\<rparr>)"
| foreign_push: "loop_step s ((push_functor cb s)\<lparr>lp_foreign := lp_foreign s + 1\<rparr>)"
| foreign_quit: "loop_step s (s\<lparr>lp_quit := True, lp_foreign := lp_foreign s + 1\<rparr>)"
| foreign_wakeup: "0 < lp_foreign s \<Longrightarrow>
     loop_step s ((wakeup s)\<lparr>lp_foreign := lp_foreign s - 1\<rparr>)"

text \<open>
  The steps of the loop's own thread in which no functor is queued: what the loop does by
  itself with the functors it has.
\<close>

definition quiet_step :: "'f loop_state \<Rightarrow> 'f loop_state \<Rightarrow> bool" where
  "quiet_step s t \<longleftrightarrow> loop_step s t \<and> lp_queued t = lp_queued s \<and> lp_foreign t = lp_foreign s"

definition loop_init :: "'f loop_state \<Rightarrow> bool" where
  "loop_init s \<longleftrightarrow> s = EventLoop_new"

section \<open>Invariant\<close>

text \<open>
  Nothing queued is lost, repeated or reordered; the flag \<open>callingPendingFunctors_\<close>
  tells where the loop is; and whenever the loop may block, a functor that waits or a
  request to quit has a wakeup on its way (or the functor was queued by the loop's own
  thread before it entered the loop, which is the one case the code does not signal).
\<close>

definition loop_inv :: "'f loop_state \<Rightarrow> bool" where
  "loop_inv s \<longleftrightarrow>
     lp_queued s = lp_executed s @ lp_functors s @ lp_pending s \<and>
     (lp_pc s \<noteq> LRun \<longrightarrow> lp_functors s = []) \<and>
     (lp_calling s \<longleftrightarrow> lp_pc s = LSwap \<or> lp_pc s = LRun) \<and>
     (lp_looping s \<longleftrightarrow> lp_pc s \<noteq> LInit \<and> lp_pc s \<noteq> LExit) \<and>
     (lp_pc s = LCheck \<or> lp_pc s = LPoll \<or> lp_pc s = LRun \<or> lp_pc s = LInit \<longrightarrow>
        lp_pending s \<noteq> [] \<longrightarrow> 0 < lp_wakeup s \<or> 0 < lp_foreign s \<or> lp_early s) \<and>
     (lp_pc s = LPoll \<longrightarrow> lp_quit s \<longrightarrow> 0 < lp_wakeup s \<or> 0 < lp_foreign s)"

section \<open>Lemmas\<close>

lemmas loop_ops = wakeup_def handleWakeup_def push_functor_def needs_wakeup_def queueInLoop_def
  execute_def quit_loop_def enter_loop_def swap_pending_def Let_def

inductive_cases loop_stepE: "loop_step s t"

lemma loop_inv_step: "loop_inv s \<Longrightarrow> loop_step s t \<Longrightarrow> loop_inv t"
  by (erule loop_stepE) (auto simp: loop_inv_def loop_ops)

interpretation el: inductive_invariant loop_init loop_step loop_inv
proof
  show "loop_inv s" if "loop_init s" for s :: "'a loop_state"
    using that by (simp add: loop_init_def EventLoop_new_def loop_inv_def)
  show "loop_inv t" if "loop_inv s" and "loop_step s t" for s t :: "'a loop_state"
    using that by (rule loop_inv_step)
qed

lemma fold_execute:
  "fold execute cbs s = s\<lparr>lp_executed := lp_executed s @ cbs\<rparr>"
  by (induction cbs arbitrary: s) (auto simp: execute_def)

lemma run_functors_steps:
  assumes "lp_pc s = LRun"
  shows "quiet_step\<^sup>*\<^sup>* s (s\<lparr>lp_executed := lp_executed s @ lp_functors s, lp_functors := []\<rparr>)"
  using assms
proof (induction "lp_functors s" arbitrary: s)
  case Nil
  then have "s\<lparr>lp_executed := lp_executed s @ lp_functors s, lp_functors := []\<rparr> = s" by simp
  then show ?case by simp
next
  case (Cons cb cbs)
  let ?t = "(execute cb s)\<lparr>lp_functors := cbs\<rparr>"
  have step: "quiet_step s ?t"
    using loop_step.run_functor [OF Cons.prems Cons.hyps(2) [symmetric]] by (simp add: quiet_step_def execute_def)
  have "quiet_step\<^sup>*\<^sup>* ?t (?t\<lparr>lp_executed := lp_executed ?t @ lp_functors ?t, lp_functors := []\<rparr>)"
    using Cons.hyps(1) [of ?t] Cons.prems by (simp add: execute_def)
  moreover have "?t\<lparr>lp_executed := lp_executed ?t @ lp_functors ?t, lp_functors := []\<rparr> =
      s\<lparr>lp_executed := lp_executed s @ lp_functors s, lp_functors := []\<rparr>"
    using Cons.hyps(2) [symmetric] by (simp add: execute_def)
  ultimately show ?case
    using step by (simp add: converse_rtranclp_into_rtranclp)
qed

text \<open>The undisturbed \<open>doPendingFunctors\<close> is a run of the loop's thread.\<close>

lemma doPendingFunctors_quiet:
  assumes "lp_pc s = LHandle False"
  shows "quiet_step\<^sup>*\<^sup>* s (doPendingFunctors s)"
proof -
  let ?s1 = "s\<lparr>lp_calling := True, lp_pc := LSwap\<rparr>"
  let ?s2 = "swap_pending ?s1"
  let ?s3 = "?s2\<lparr>lp_executed := lp_executed ?s2 @ lp_functors ?s2, lp_functors := []\<rparr>"
  have "quiet_step\<^sup>*\<^sup>* s s" by simp
  also have "quiet_step s ?s1" using loop_step.handle_done [OF assms] by (simp add: quiet_step_def)
  also have "quiet_step ?s1 ?s2"
    using loop_step.swap [of ?s1] by (simp add: quiet_step_def swap_pending_def)
  also have "quiet_step\<^sup>*\<^sup>* ?s2 ?s3"
    by (rule run_functors_steps) (simp add: swap_pending_def)
  also have "quiet_step ?s3 (?s3\<lparr>lp_calling := False, lp_pc := LCheck\<rparr>)"
    using loop_step.run_done [of ?s3] by (simp add: quiet_step_def swap_pending_def)
  also have "?s3\<lparr>lp_calling := False, lp_pc := LCheck\<rparr> = doPendingFunctors s"
    by (simp add: doPendingFunctors_def fold_execute swap_pending_def)
  finally show ?thesis .
qed

lemma quiet_steps_loop: "quiet_step\<^sup>*\<^sup>* s t \<Longrightarrow> loop_step\<^sup>*\<^sup>* s t"
  by (induction rule: rtranclp_induct) (auto simp: quiet_step_def intro: rtranclp.rtrancl_into_rtrancl)

lemmas doPendingFunctors_steps = quiet_steps_loop [OF doPendingFunctors_quiet]

text \<open>
  How far the functors \<open>q\<close> that were pending when \<open>e\<close> had been executed have come: still
  at the front of the queue, taken by the loop, or executed.
\<close>

definition pending_progress :: "'f list \<Rightarrow> 'f list \<Rightarrow> 'f loop_state \<Rightarrow> bool" where
  "pending_progress e q t \<longleftrightarrow>
     lp_pc t \<noteq> LInit \<and>
     (prefix (e @ q) (lp_executed t) \<or>
      lp_pc t = LRun \<and> prefix (e @ q) (lp_executed t @ lp_functors t) \<or>
      (lp_pc t = LPoll \<or> (\<exists>w. lp_pc t = LHandle w) \<or> lp_pc t = LSwap) \<and> lp_executed t = e \<and>
        prefix q (lp_pending t))"

lemma pending_progress_step: "pending_progress e q s \<Longrightarrow> loop_step s t \<Longrightarrow> pending_progress e q t"
  unfolding pending_progress_def by (erule loop_stepE) (auto simp: loop_ops)

lemma pending_progress_steps:
  "loop_step\<^sup>*\<^sup>* s t \<Longrightarrow> pending_progress e q s \<Longrightarrow> pending_progress e q t"
  by (induction rule: rtranclp_induct) (auto intro: pending_progress_step)

section \<open>Properties\<close>

text \<open>
  C10: no lost wakeup. In every state that the loop and any other threads can reach,
  the functors handed over have been executed, are about to be, or are pending, each
  once and in the order they were queued; and if the loop is in \<open>epoll_wait\<close> while a
  functor is pending or the loop has been asked to quit, the eventfd is readable or
  a thread is about to make it so (a functor queued by the loop's own thread before
  \<open>loop()\<close> excepted).
\<close>

theorem no_lost_wakeup:
  assumes "reach loop_init loop_step s"
  shows "lp_queued s = lp_executed s @ lp_functors s @ lp_pending s \<and>
    (lp_pc s = LPoll \<and> lp_pending s \<noteq> [] \<and> \<not> lp_early s \<longrightarrow> 0 < lp_wakeup s \<or> 0 < lp_foreign s) \<and>
    (lp_pc s = LPoll \<and> lp_quit s \<longrightarrow> 0 < lp_wakeup s \<or> 0 < lp_foreign s)"
  using el.reach_inv [OF assms] by (auto simp: loop_inv_def)

theorem no_lost_wakeup_witness:
  "reach loop_init loop_step ((push_functor ''f'' EventLoop_new)\<lparr>lp_foreign := 1\<rparr>) \<and>
   lp_queued ((push_functor ''f'' EventLoop_new)\<lparr>lp_foreign := 1\<rparr>) = [''f'']"
proof -
  let ?i = "EventLoop_new :: string loop_state"
  let ?s = "(push_functor ''f'' ?i)\<lparr>lp_foreign := lp_foreign ?i + 1\<rparr>"
  have r: "reach loop_init loop_step ?s"
    by (rule reach_step [of loop_init loop_step ?i], rule reach_init, simp add: loop_init_def)
       (rule loop_step.foreign_push)
  from no_lost_wakeup [OF this] r show ?thesis
    by (simp add: EventLoop_new_def push_functor_def)
qed

text \<open>
  C28: the loop runs what is pending. Take any state in which the loop is in
  \<open>epoll_wait\<close>. In every run from there, whatever the other threads and the functors do,
  by the time the loop is back at its test it has executed all the functors that were
  pending, in order and before any other. And when the eventfd is readable, the loop gets
  there by steps of its own, without anything being queued: it drains the eventfd, runs
  exactly these functors and comes back to the test with nothing pending.
\<close>

theorem woken_loop_runs_pending:
  assumes "lp_pc s = LPoll"
  shows "(\<forall>t. loop_step\<^sup>*\<^sup>* s t \<longrightarrow> lp_pc t = LCheck \<longrightarrow>
      prefix (lp_executed s @ lp_pending s) (lp_executed t)) \<and>
    (0 < lp_wakeup s \<longrightarrow> (\<exists>t. quiet_step\<^sup>*\<^sup>* s t \<and> lp_pc t = LCheck \<and>
       lp_executed t = lp_executed s @ lp_pending s \<and> lp_pending t = [] \<and> lp_wakeup t = 0))"
proof (intro conjI allI impI)
  have start: "pending_progress (lp_executed s) (lp_pending s) s"
    using assms by (simp add: pending_progress_def)
  show "prefix (lp_executed s @ lp_pending s) (lp_executed t)" if "loop_step\<^sup>*\<^sup>* s t" "lp_pc t = LCheck" for t
    using pending_progress_steps [OF that(1) start] that(2) by (auto simp: pending_progress_def)
  assume wake: "0 < lp_wakeup s"
  let ?s1 = "s\<lparr>lp_pc := LHandle True\<rparr>"
  let ?s2 = "(handleWakeup ?s1)\<lparr>lp_pc := LHandle False\<rparr>"
  have "quiet_step\<^sup>*\<^sup>* s s" by simp
  also have "quiet_step s ?s1" using loop_step.poll_wakeup [OF assms wake] by (simp add: quiet_step_def)
  also have "quiet_step ?s1 ?s2"
    using loop_step.handle_wakeup [of ?s1] by (simp add: quiet_step_def handleWakeup_def)
  also have "quiet_step\<^sup>*\<^sup>* ?s2 (doPendingFunctors ?s2)" by (rule doPendingFunctors_quiet) simp
  finally show "\<exists>t. quiet_step\<^sup>*\<^sup>* s t \<and> lp_pc t = LCheck \<and>
      lp_executed t = lp_executed s @ lp_pending s \<and> lp_pending t = [] \<and> lp_wakeup t = 0"
    by (intro exI [of _ "doPendingFunctors ?s2"]) (simp add: doPendingFunctors_def fold_execute swap_pending_def handleWakeup_def)
qed

theorem woken_loop_runs_pending_witness:
  "\<exists>t. quiet_step\<^sup>*\<^sup>* (EventLoop_new\<lparr>lp_looping := True, lp_pc := LPoll, lp_pending := [''f''],
        lp_queued := [''f''], lp_wakeup := 1\<rparr>) t \<and> lp_pc t = LCheck \<and>
     lp_executed t = [''f''] \<and> lp_pending t = [] \<and> lp_wakeup t = 0"
  using woken_loop_runs_pending [of "EventLoop_new\<lparr>lp_looping := True, lp_pc := LPoll, lp_pending := [''f''],
    lp_queued := [''f''], lp_wakeup := 1\<rparr>"]
  by (simp add: EventLoop_new_def)

text \<open>
  A request to quit that comes before \<open>loop()\<close> is lost. If another thread calls
  \<open>quit()\<close> while the loop's thread has not entered \<open>loop()\<close> yet, the flag is cleared on
  entry, and the threads can go on to a state where the loop sits in \<open>epoll_wait\<close>, is
  not asked to quit, and nothing is on its way to wake it.
\<close>

theorem quit_before_loop_is_lost:
  assumes "lp_pc s = LInit"
  shows "\<exists>t. loop_step\<^sup>*\<^sup>* (s\<lparr>lp_quit := True, lp_foreign := lp_foreign s + 1\<rparr>) t \<and> lp_pc t = LPoll \<and>
    \<not> lp_quit t \<and> lp_wakeup t = 0 \<and> lp_foreign t = lp_foreign s"
proof -
  let ?a = "s\<lparr>lp_quit := True, lp_foreign := lp_foreign s + 1\<rparr>"
  let ?b = "(wakeup ?a)\<lparr>lp_foreign := lp_foreign ?a - 1\<rparr>"
  let ?c = "enter_loop ?b"
  let ?d = "?c\<lparr>lp_pc := LPoll\<rparr>"
  let ?e = "?d\<lparr>lp_pc := LHandle True\<rparr>"
  let ?f = "(handleWakeup ?e)\<lparr>lp_pc := LHandle False\<rparr>"
  let ?g = "doPendingFunctors ?f"
  have "loop_step\<^sup>*\<^sup>* ?a ?a" by simp
  also have "loop_step ?a ?b" by (rule loop_step.foreign_wakeup) simp
  also have "loop_step ?b ?c" using assms by (intro loop_step.enter) (simp add: wakeup_def)
  also have "loop_step ?c ?d" by (rule loop_step.check_go) (simp_all add: enter_loop_def)
  also have "loop_step ?d ?e" by (rule loop_step.poll_wakeup) (simp_all add: enter_loop_def wakeup_def)
  also have "loop_step ?e ?f" by (rule loop_step.handle_wakeup) simp
  also have "loop_step\<^sup>*\<^sup>* ?f ?g" by (rule doPendingFunctors_steps) simp
  also have "loop_step ?g (?g\<lparr>lp_pc := LPoll\<rparr>)"
    by (rule loop_step.check_go)
       (simp_all add: doPendingFunctors_def fold_execute loop_ops)
  finally have "loop_step\<^sup>*\<^sup>* ?a (?g\<lparr>lp_pc := LPoll\<rparr>)" by simp
  moreover have "\<not> lp_quit ?g \<and> lp_wakeup ?g = 0 \<and> lp_foreign ?g = lp_foreign s"
    by (simp add: doPendingFunctors_def fold_execute loop_ops)
  ultimately show ?thesis by (intro exI [of _ "?g\<lparr>lp_pc := LPoll\<rparr>"]) simp
qed

theorem quit_before_loop_is_lost_witness:
  "\<exists>t. loop_step\<^sup>*\<^sup>* ((EventLoop_new :: string loop_state)\<lparr>lp_quit := True, lp_foreign := 1\<rparr>) t \<and>
    lp_pc t = LPoll \<and> \<not> lp_quit t \<and> lp_wakeup t = 0 \<and> lp_foreign t = 0"
  using quit_before_loop_is_lost [of "EventLoop_new :: string loop_state"]
  by (simp add: EventLoop_new_def)

end
