(* ===== verification/Loop_Lifecycle.thy ===== *)
theory Loop_Lifecycle
  imports Event_Loop Channel_Poller
begin

text \<open>
  The life of an \<open>EventLoop\<close> around the loop itself (\<open>src/src/EventLoop.cpp\<close>) with the
  cached thread id of \<open>CurrentThread\<close> (\<open>src/include/CurrentThread.h\<close>,
  \<open>src/src/CurrentThread.cpp\<close>): the constructor creates the eventfd and registers its
  channel, allows one loop for each thread, and the destructor undoes both. \<open>runInLoop\<close>
  decides by the thread id between running and queueing.
\<close>

section \<open>The current thread\<close>

text \<open>The variables of one thread; 0 and \<open>None\<close> are their initial values.\<close>

record thread_vars =
  t_cachedTid :: int
  t_loopInThisThread :: "nat option"

definition thread_vars_new :: thread_vars where
  "thread_vars_new = \<lparr>t_cachedTid = 0, t_loopInThisThread = None\<rparr>"

definition cacheTid :: "int \<Rightarrow> thread_vars \<Rightarrow> thread_vars" where
  "cacheTid gettid t = (if t_cachedTid t = 0 then t\<lparr>t_cachedTid := gettid\<rparr> else t)"

definition tid :: "int \<Rightarrow> thread_vars \<Rightarrow> int \<times> thread_vars" where
  "tid gettid t =
     (let t1 = (if t_cachedTid t = 0 then cacheTid gettid t else t) in (t_cachedTid t1, t1))"

section \<open>Construction and destruction\<close>

record 'f event_loop =
  el_threadId :: int
  el_epollfd :: int
  el_poller :: poller
  el_wakeupFd :: int
  el_wakeupChannel :: channel
  el_loop :: "'f loop_state"

text \<open>
  What the system answers during construction: the thread id, whether \<open>MUDUO_USE_POLL\<close> is in
  the environment, and the descriptors of \<open>epoll_create1\<close> and \<open>eventfd\<close>.
\<close>

record loop_sys =
  ls_gettid :: int
  ls_usePoll :: bool
  ls_epollfd :: int
  ls_eventfd :: int

definition EPollPoller_ctor :: "int \<Rightarrow> (int \<times> poller) res" where
  "EPollPoller_ctor epollfd = (if epollfd < 0 then Inl Abort else Inr (epollfd, EPollPoller_new))"

text \<open>The descriptor that the destructor closes.\<close>

definition EPollPoller_dtor :: "'f event_loop \<Rightarrow> int list" where
  "EPollPoller_dtor l = [el_epollfd l]"

text \<open>\<open>None\<close> is the null pointer.\<close>

definition newDefaultPoller :: "bool \<Rightarrow> int \<Rightarrow> (int \<times> poller) option res" where
  "newDefaultPoller usePoll epollfd =
     (if usePoll then Inr None else res_bind (EPollPoller_ctor epollfd) (\<lambda>p. Inr (Some p)))"

definition createEventfd :: "int \<Rightarrow> int res" where
  "createEventfd eventfd = (if eventfd < 0 then Inl Abort else Inr eventfd)"

text \<open>\<open>this\<close> and \<open>ch\<close> are the addresses of the loop and of its wakeup channel.\<close>

definition EventLoop_ctor ::
    "ctl_fn \<Rightarrow> loop_sys \<Rightarrow> nat \<Rightarrow> nat \<Rightarrow> thread_vars \<Rightarrow> ('f event_loop \<times> thread_vars) res" where
  "EventLoop_ctor ctl sys this ch t =
     (let (threadId, t1) = tid (ls_gettid sys) t in
      res_bind (newDefaultPoller (ls_usePoll sys) (ls_epollfd sys)) (\<lambda>po.
      res_bind (createEventfd (ls_eventfd sys)) (\<lambda>wakeupFd.
        if t_loopInThisThread t1 \<noteq> None then Inl Abort
        else
          (let t2 = t1\<lparr>t_loopInThisThread := Some this\<rparr>
           in case po of
                None \<Rightarrow> Inl BadPointer
              | Some (epollfd, p0) \<Rightarrow>
                  res_bind (enableReading ctl (Channel_new ch wakeupFd) p0) (\<lambda>(c, p).
                    Inr (\<lparr>el_threadId = threadId, el_epollfd = epollfd, el_poller = p, el_wakeupFd = wakeupFd,
                          el_wakeupChannel = c, el_loop = EventLoop_new\<rparr>, t2))))))"

text \<open>The destructor and those of the members; the result begins with the descriptors that they close.\<close>

definition EventLoop_dtor ::
    "ctl_fn \<Rightarrow> 'f event_loop \<Rightarrow> thread_vars \<Rightarrow> (int list \<times> 'f event_loop \<times> thread_vars) res" where
  "EventLoop_dtor ctl l t =
     res_bind (disableAll ctl (el_wakeupChannel l) (el_poller l)) (\<lambda>(c1, p1).
       res_bind (removeChannel ctl c1 p1) (\<lambda>(c2, p2).
         Inr (el_wakeupFd l # EPollPoller_dtor l, l\<lparr>el_wakeupChannel := c2, el_poller := p2\<rparr>,
           t\<lparr>t_loopInThisThread := None\<rparr>)))"

section \<open>Calls that the loop passes on\<close>

definition isInLoopThread :: "int \<Rightarrow> thread_vars \<Rightarrow> 'f event_loop \<Rightarrow> bool \<times> thread_vars" where
  "isInLoopThread gettid t l = (let (i, t1) = tid gettid t in (el_threadId l = i, t1))"

definition runInLoop :: "int \<Rightarrow> thread_vars \<Rightarrow> 'f \<Rightarrow> 'f event_loop \<Rightarrow> 'f event_loop \<times> thread_vars" where
  "runInLoop gettid t cb l =
     (let (here, t1) = isInLoopThread gettid t l
      in (l\<lparr>el_loop := (if here then execute cb (el_loop l) else queueInLoop False cb (el_loop l))\<rparr>, t1))"

definition loop_updateChannel ::
    "ctl_fn \<Rightarrow> channel \<Rightarrow> 'f event_loop \<Rightarrow> (channel \<times> 'f event_loop) res" where
  "loop_updateChannel ctl c l =
     res_bind (updateChannel ctl c (el_poller l)) (\<lambda>(c1, p). Inr (c1, l\<lparr>el_poller := p\<rparr>))"

definition loop_removeChannel ::
    "ctl_fn \<Rightarrow> channel \<Rightarrow> 'f event_loop \<Rightarrow> (channel \<times> 'f event_loop) res" where
  "loop_removeChannel ctl c l =
     res_bind (removeChannel ctl c (el_poller l)) (\<lambda>(c1, p). Inr (c1, l\<lparr>el_poller := p\<rparr>))"

definition loop_hasChannel :: "channel \<Rightarrow> 'f event_loop \<Rightarrow> bool" where
  "loop_hasChannel c l = hasChannel c (el_poller l)"

section \<open>Lemmas\<close>

lemma tid_known: "0 < t_cachedTid t \<Longrightarrow> tid gettid t = (t_cachedTid t, t)"
  by (simp add: tid_def)

lemma tid_cached: "0 < gettid \<Longrightarrow> t_cachedTid t = 0 \<Longrightarrow> tid gettid t = (gettid, t\<lparr>t_cachedTid := gettid\<rparr>)"
  by (simp add: tid_def cacheTid_def Let_def)

lemma new_channel_inv: "chan_inv (Channel_new ch fd) EPollPoller_new"
  by (simp add: chan_inv_def Channel_new_def EPollPoller_new_def kNew_def interest_def)

text \<open>The wakeup channel of a new loop is registered for reading.\<close>

lemma wakeup_registered:
  assumes "ctl_honest ctl"
  shows "\<exists>c p. enableReading ctl (Channel_new ch fd) EPollPoller_new = Inr (c, p) \<and> chan_inv c p \<and>
    ch_fd c = fd \<and> ch_addr c = ch \<and> ch_index c = kAdded \<and> po_channels p fd = Some ch \<and>
    interest (po_calls p) fd = Some (kReadEvent, ch) \<and>
    (\<forall>fd'. fd' \<noteq> fd \<longrightarrow> po_channels p fd' = None \<and> interest (po_calls p) fd' = None) \<and> calls_legal [] (po_calls p)"
  using assms
  by (simp add: enableReading_def updateChannel_def Channel_new_def EPollPoller_new_def epoll_update_def Let_def
      chan_inv_def index_consts ctl_honest_def ctl_legal_def interest_def)

text \<open>A channel that is switched off and removed is unknown to poller and kernel.\<close>

lemma unregister:
  assumes "ctl_honest ctl" and "chan_inv c p" and "ch_index c = kAdded" and "calls_legal [] (po_calls p)"
  shows "\<exists>c1 p1 c2 p2. disableAll ctl c p = Inr (c1, p1) \<and> removeChannel ctl c1 p1 = Inr (c2, p2) \<and>
    po_channels p2 (ch_fd c) = None \<and> interest (po_calls p2) (ch_fd c) = None \<and> calls_legal [] (po_calls p2)"
  using assms
  by (auto simp: disableAll_def updateChannel_def removeChannel_def epoll_update_def Let_def chan_inv_def
      index_consts isNoneEvent_def ctl_honest_def ctl_legal_def interest_snoc calls_legal_snoc)

text \<open>What the constructor leaves behind.\<close>

definition loop_new :: "ctl_fn \<Rightarrow> loop_sys \<Rightarrow> nat \<Rightarrow> 'f event_loop \<Rightarrow> bool" where
  "loop_new ctl sys ch l \<longleftrightarrow> el_threadId l = ls_gettid sys \<and> el_epollfd l = ls_epollfd sys \<and>
     el_wakeupFd l = ls_eventfd sys \<and> el_loop l = EventLoop_new \<and>
     ch_fd (el_wakeupChannel l) = ls_eventfd sys \<and> ch_addr (el_wakeupChannel l) = ch \<and>
     ch_index (el_wakeupChannel l) = kAdded \<and> chan_inv (el_wakeupChannel l) (el_poller l) \<and>
     po_channels (el_poller l) (ls_eventfd sys) = Some ch \<and>
     interest (po_calls (el_poller l)) (ls_eventfd sys) = Some (kReadEvent, ch) \<and>
     (\<forall>fd. fd \<noteq> ls_eventfd sys \<longrightarrow> po_channels (el_poller l) fd = None \<and> interest (po_calls (el_poller l)) fd = None) \<and>
     calls_legal [] (po_calls (el_poller l))"

lemma EventLoop_ctor_ok:
  assumes "ctl_honest ctl" and sys: "\<not> ls_usePoll sys" "0 \<le> ls_epollfd sys" "0 \<le> ls_eventfd sys" "0 < ls_gettid sys"
    and "t_cachedTid t = 0 \<or> t_cachedTid t = ls_gettid sys" and "t_loopInThisThread t = None"
  shows "\<exists>l. EventLoop_ctor ctl sys this ch t =
      Inr (l, t\<lparr>t_cachedTid := ls_gettid sys, t_loopInThisThread := Some this\<rparr>) \<and> loop_new ctl sys ch l"
proof -
  have "tid (ls_gettid sys) t = (ls_gettid sys, t\<lparr>t_cachedTid := ls_gettid sys\<rparr>)"
    using sys(4) assms(6) tid_cached [of "ls_gettid sys" t] by (auto simp: tid_def)
  with wakeup_registered [OF assms(1), of ch "ls_eventfd sys"] sys assms(7) show ?thesis
    by (auto simp: EventLoop_ctor_def createEventfd_def newDefaultPoller_def EPollPoller_ctor_def loop_new_def)
qed

section \<open>Properties\<close>

text \<open>
  C38: one loop per thread, and a clean life. In a thread without a loop the constructor
  succeeds when epoll instance and eventfd were created: it registers the wakeup channel for reading, with
  legal \<open>epoll_ctl\<close> calls only, and a second loop in the same thread aborts. The loop
  belongs to this thread and to no other: what a thread with another id hands to
  \<open>runInLoop\<close> is queued and the loop is woken, what the thread itself hands over is run at
  once. The destructor unregisters the channel, closes both descriptors, and the thread may
  construct a loop again.
\<close>

theorem loop_lifecycle:
  fixes cb :: 'f
  assumes "ctl_honest ctl" and sys: "\<not> ls_usePoll sys" "0 \<le> ls_epollfd sys" "0 \<le> ls_eventfd sys" "0 < ls_gettid sys"
    and "t_cachedTid t = 0 \<or> t_cachedTid t = ls_gettid sys"
    and "t_loopInThisThread t = None" and "0 < t_cachedTid other" "t_cachedTid other \<noteq> ls_gettid sys"
  shows "\<exists>l t1. EventLoop_ctor ctl sys this ch t = Inr (l, t1) \<and>
    loop_hasChannel (el_wakeupChannel l) l \<and>
    interest (po_calls (el_poller l)) (ls_eventfd sys) = Some (kReadEvent, ch) \<and>
    (EventLoop_ctor ctl sys this2 ch2 t1 :: ('f event_loop \<times> thread_vars) res) = Inl Abort \<and>
    lp_executed (el_loop (fst (runInLoop (ls_gettid sys) t1 cb l))) = [cb] \<and>
    (let l2 = el_loop (fst (runInLoop gettid other cb l)) in lp_executed l2 = [] \<and> lp_pending l2 = [cb] \<and> 0 < lp_wakeup l2) \<and>
    (\<exists>l' t2. EventLoop_dtor ctl l t1 = Inr ([ls_eventfd sys, ls_epollfd sys], l', t2) \<and>
       \<not> loop_hasChannel (el_wakeupChannel l) l' \<and> interest (po_calls (el_poller l')) (ls_eventfd sys) = None \<and>
       calls_legal [] (po_calls (el_poller l')) \<and>
       t_loopInThisThread t2 = None \<and> t_cachedTid t2 = ls_gettid sys)"
proof -
  let ?self = "ls_gettid sys" and ?fd = "ls_eventfd sys"
  obtain l where l: "EventLoop_ctor ctl sys this ch t =
      Inr (l, t\<lparr>t_cachedTid := ?self, t_loopInThisThread := Some this\<rparr>)" "loop_new ctl sys ch (l :: 'f event_loop)"
    using EventLoop_ctor_ok [OF assms(1) sys assms(6,7)] by blast
  let ?t1 = "t\<lparr>t_cachedTid := ?self, t_loopInThisThread := Some this\<rparr>"
  obtain c1 p1 c2 p2 where u: "disableAll ctl (el_wakeupChannel l) (el_poller l) = Inr (c1, p1)"
    "removeChannel ctl c1 p1 = Inr (c2, p2)" "po_channels p2 ?fd = None" "interest (po_calls p2) ?fd = None"
    "calls_legal [] (po_calls p2)"
    using unregister [OF assms(1)] l(2) unfolding loop_new_def by metis
  have "(EventLoop_ctor ctl sys this2 ch2 ?t1 :: ('f event_loop \<times> thread_vars) res) = Inl Abort"
    using sys tid_known [of ?t1 ?self]
    by (simp add: EventLoop_ctor_def createEventfd_def newDefaultPoller_def EPollPoller_ctor_def)
  moreover have "lp_executed (el_loop (fst (runInLoop ?self ?t1 cb l))) = [cb]"
    using sys tid_known [of ?t1 ?self] l(2)
    by (simp add: runInLoop_def isInLoopThread_def execute_def EventLoop_new_def loop_new_def)
  moreover have "el_loop (fst (runInLoop gettid other cb l)) = queueInLoop False cb EventLoop_new"
    using assms(8,9) tid_known [of other gettid] l(2) by (simp add: runInLoop_def isInLoopThread_def loop_new_def)
  moreover have "EventLoop_dtor ctl l ?t1 = Inr ([?fd, ls_epollfd sys], l\<lparr>el_wakeupChannel := c2, el_poller := p2\<rparr>,
      ?t1\<lparr>t_loopInThisThread := None\<rparr>)"
    using u(1,2) l(2) by (simp add: EventLoop_dtor_def EPollPoller_dtor_def loop_new_def)
  ultimately show ?thesis
    using u(3-5) l
    by (intro exI [of _ l] exI [of _ ?t1])
       (simp add: loop_hasChannel_def hasChannel_def loop_ops EventLoop_new_def loop_new_def)
qed

theorem loop_lifecycle_witness:
  "\<exists>l t1. EventLoop_ctor (\<lambda>_ _. True) \<lparr>ls_gettid = 100, ls_usePoll = False, ls_epollfd = 4, ls_eventfd = 5\<rparr>
       1 2 thread_vars_new = Inr (l, t1) \<and>
     interest (po_calls (el_poller l)) 5 = Some (kReadEvent, 2) \<and>
     lp_executed (el_loop (fst (runInLoop 100 t1 ''f'' l))) = [''f'']"
proof -
  have "ctl_honest (\<lambda>_ _. True)" by (simp add: ctl_honest_def)
  then show ?thesis
    using loop_lifecycle [where ctl = "\<lambda>_ _. True" and t = thread_vars_new and this = 1 and ch = 2 and cb = "''f''"
        and sys = "\<lparr>ls_gettid = 100, ls_usePoll = False, ls_epollfd = 4, ls_eventfd = 5\<rparr>"
        and other = "\<lparr>t_cachedTid = 7, t_loopInThisThread = None\<rparr>"]
    by (simp add: thread_vars_new_def) blast
qed

text \<open>With \<open>MUDUO_USE_POLL\<close> in the environment the constructor follows a null pointer.\<close>

lemma use_poll_crashes:
  "ls_usePoll sys \<Longrightarrow> 0 \<le> ls_eventfd sys \<Longrightarrow> t_loopInThisThread t = None \<Longrightarrow>
     EventLoop_ctor ctl sys this ch t = Inl BadPointer"
  by (simp add: EventLoop_ctor_def newDefaultPoller_def createEventfd_def tid_def cacheTid_def Let_def)

end
