(* ===== verification/Server_Main.thy ===== *)
theory Server_Main
  imports Echo_Server Loop_Lifecycle Net_Socket
begin

text \<open>
  The start of a server program: \<open>main\<close> of \<open>src/test/testserver.cpp\<close> up to the call of
  \<open>loop\<close>, with \<open>TcpServer::start\<close> (\<open>src/src/TcpServer.cpp\<close>) on the pool of loop threads and
  the listening socket. It composes the loop of each thread, the acceptor's socket, the pool
  and the server into the initial world of \<open>Tcp_Server\<close>.
\<close>

section \<open>Operations\<close>

text \<open>
  What the system calls of the program answer, by loop, and the addresses of the objects:
  the base loop with its wakeup channel, the accept channel, and the loops of the pool.
\<close>

record main_sys =
  ms_base :: loop_sys
  ms_loops :: "int \<Rightarrow> loop_sys"
  ms_socket :: int
  ms_reuseaddr :: int
  ms_reuseport :: int
  ms_bind :: int
  ms_listen :: int

record main_addrs =
  ma_base :: nat
  ma_wakeup :: nat
  ma_accept :: nat
  ma_loop :: "int \<Rightarrow> nat"
  ma_channel :: "int \<Rightarrow> nat"

text \<open>Each thread of the pool constructs its loop first; an abort there ends the process.\<close>

fun start_threads ::
    "ctl_fn \<Rightarrow> main_sys \<Rightarrow> main_addrs \<Rightarrow> int list \<Rightarrow> (nat \<Rightarrow> poller) \<Rightarrow> (nat \<Rightarrow> poller) res" where
  "start_threads ctl y a [] ps = Inr ps"
| "start_threads ctl y a (i # is) ps =
     res_bind (EventLoop_ctor ctl (ms_loops y i) (ma_loop a i) (ma_channel a i) thread_vars_new ::
         (unit event_loop \<times> thread_vars) res)
       (\<lambda>(l, t). start_threads ctl y a is (ps(ma_loop a i := el_poller l)))"

text \<open>\<open>TcpServer::start\<close> in the thread of the base loop.\<close>

definition start_server ::
    "kernel \<Rightarrow> main_sys \<Rightarrow> main_addrs \<Rightarrow> 'c world \<Rightarrow> sock_table \<Rightarrow> ('c world \<times> sock_table) res" where
  "start_server k y a w tb =
     (let s = w_server w in
      if ts_started s = 0 then
        res_bind (start_threads (kn_ctl k) y a [0..tp_numThreads (ts_pool s) - 1] (w_pollers w)) (\<lambda>ps.
          res_bind (Socket_listen (ms_listen y) (ch_fd (ac_channel (ts_acceptor s))) tb) (\<lambda>tb1.
            res_bind (TcpServer_start k (ma_loop a) False (ts_loop s) (w\<lparr>w_pollers := ps\<rparr>)) (\<lambda>w1. Inr (w1, tb1))))
      else res_bind (TcpServer_start k (ma_loop a) False (ts_loop s) w) (\<lambda>w1. Inr (w1, tb)))"

text \<open>
  The constructor of a server: a null loop is fatal, and the acceptor creates and binds
  the listening socket.
\<close>

definition CheckLoopNotNull :: "nat option \<Rightarrow> nat res" where
  "CheckLoopNotNull loop = (case loop of None \<Rightarrow> Inl Abort | Some l \<Rightarrow> Inr l)"

definition TcpServer_ctor ::
    "int \<Rightarrow> int \<Rightarrow> int \<Rightarrow> int \<Rightarrow> nat option \<Rightarrow> nat \<Rightarrow> inet_address \<Rightarrow> string \<Rightarrow> bool \<Rightarrow> sock_table \<Rightarrow> (tcp_server \<times> sock_table) res" where
  "TcpServer_ctor sockfd r_addr r_port bind loop ch listenAddr nameArg kReusePort tb =
     res_bind (CheckLoopNotNull loop) (\<lambda>l.
       res_bind (Acceptor_ctor sockfd r_addr r_port bind ch listenAddr kReusePort tb) (\<lambda>(ac, tb1).
         Inr ((TcpServer_new l ch sockfd listenAddr nameArg kReusePort)\<lparr>ts_acceptor := ac\<rparr>, tb1)))"

definition EchoServer_ctor ::
    "int \<Rightarrow> int \<Rightarrow> int \<Rightarrow> int \<Rightarrow> nat option \<Rightarrow> nat \<Rightarrow> inet_address \<Rightarrow> string \<Rightarrow> sock_table \<Rightarrow> (tcp_server \<times> sock_table) res" where
  "EchoServer_ctor sockfd r_addr r_port bind loop ch addr name tb =
     res_bind (TcpServer_ctor sockfd r_addr r_port bind loop ch addr name False tb) (\<lambda>(s, tb1). Inr (setThreadNum 5 s, tb1))"

definition EchoServer_start ::
    "kernel \<Rightarrow> main_sys \<Rightarrow> main_addrs \<Rightarrow> 'c world \<Rightarrow> sock_table \<Rightarrow> ('c world \<times> sock_table) res" where
  "EchoServer_start = start_server"

text \<open>\<open>main\<close>: the base loop, the address, the server with its acceptor, and \<open>start\<close>.\<close>

definition new_world :: "tcp_server \<Rightarrow> poller \<Rightarrow> 'c world" where
  "new_world s p = \<lparr>w_server = s, w_heap = Map.empty, w_alloc = 0,
     w_pollers = (\<lambda>_. EPollPoller_new)(ts_loop s := p), w_queues = \<lambda>_. []\<rparr>"

definition echo_main ::
    "kernel \<Rightarrow> (string \<Rightarrow> 8 word \<times> 8 word \<times> 8 word \<times> 8 word) \<Rightarrow> main_sys \<Rightarrow> main_addrs \<Rightarrow> ('c world \<times> sock_table) res" where
  "echo_main k inet_addr y a =
     res_bind (EventLoop_ctor (kn_ctl k) (ms_base y) (ma_base a) (ma_wakeup a) thread_vars_new ::
         (unit event_loop \<times> thread_vars) res) (\<lambda>(loop, t).
       let addr = InetAddress_new inet_addr 8002 ''127.0.0.1''
       in res_bind (EchoServer_ctor (ms_socket y) (ms_reuseaddr y) (ms_reuseport y) (ms_bind y) (Some (ma_base a)) (ma_accept a) addr ''EchoServer'' Map.empty)
            (\<lambda>(server, tb). EchoServer_start k y a (new_world server (el_poller loop)) tb))"

section \<open>Lemmas\<close>

text \<open>The constructor with the acceptor's calls builds the server of \<open>Echo_Server\<close>, or the process aborts.\<close>

lemma EchoServer_ctor_eq:
  "EchoServer_ctor sockfd r_addr r_port bind (Some l) ch addr name tb =
     res_bind (Acceptor_ctor sockfd r_addr r_port bind ch addr False tb) (\<lambda>(ac, tb1).
       Inr ((EchoServer_new l ch sockfd addr name)\<lparr>ts_acceptor := ac\<rparr>, tb1))"
  by (cases "Acceptor_ctor sockfd r_addr r_port bind ch addr False tb")
     (auto simp: EchoServer_ctor_def TcpServer_ctor_def CheckLoopNotNull_def EchoServer_new_def setThreadNum_def)

lemma EchoServer_ctor_null: "EchoServer_ctor sockfd r_addr r_port bind None ch addr name tb = Inl Abort"
  by (simp add: EchoServer_ctor_def TcpServer_ctor_def CheckLoopNotNull_def)

text \<open>The descriptors of one loop were created, and no other poller is asked for.\<close>

definition loop_sys_ok :: "loop_sys \<Rightarrow> bool" where
  "loop_sys_ok sys \<longleftrightarrow> 0 \<le> ls_epollfd sys \<and> 0 \<le> ls_eventfd sys"

definition loop_sys_sane :: "loop_sys \<Rightarrow> bool" where
  "loop_sys_sane sys \<longleftrightarrow> \<not> ls_usePoll sys \<and> 0 < ls_gettid sys"

lemma EventLoop_ctor_new:
  assumes "ctl_honest ctl" and "loop_sys_sane sys"
  shows "if loop_sys_ok sys
    then \<exists>l t. EventLoop_ctor ctl sys this ch thread_vars_new = Inr (l :: unit event_loop, t) \<and> loop_new ctl sys ch l
    else EventLoop_ctor ctl sys this ch thread_vars_new = (Inl Abort :: (unit event_loop \<times> thread_vars) res)"
proof (cases "loop_sys_ok sys")
  case True
  then show ?thesis
    using EventLoop_ctor_ok [OF assms(1), of sys thread_vars_new this ch] assms(2)
    by (auto simp: loop_sys_ok_def loop_sys_sane_def thread_vars_new_def)
next
  case False
  then show ?thesis
    using assms(2) by (auto simp: loop_sys_ok_def loop_sys_sane_def EventLoop_ctor_def newDefaultPoller_def
        EPollPoller_ctor_def createEventfd_def thread_vars_new_def tid_def cacheTid_def Let_def)
qed

text \<open>The pollers of the pool after the threads \<open>is\<close> have started.\<close>

definition threads_ready :: "main_sys \<Rightarrow> main_addrs \<Rightarrow> int list \<Rightarrow> (nat \<Rightarrow> poller) \<Rightarrow> bool" where
  "threads_ready y a is ps \<longleftrightarrow> (\<forall>i\<in>set is.
     interest (po_calls (ps (ma_loop a i))) (ls_eventfd (ms_loops y i)) = Some (kReadEvent, ma_channel a i))"

lemma start_threads_ok:
  assumes "ctl_honest ctl" and "\<forall>i\<in>set is. loop_sys_sane (ms_loops y i)" and "inj_on (ma_loop a) (set is)"
    and "distinct is"
  shows "if \<forall>i\<in>set is. loop_sys_ok (ms_loops y i)
    then \<exists>ps'. start_threads ctl y a is ps = Inr ps' \<and> threads_ready y a is ps' \<and>
      (\<forall>l. l \<notin> ma_loop a ` set is \<longrightarrow> ps' l = ps l)
    else start_threads ctl y a is ps = Inl Abort"
  using assms(2-4)
proof (induction "is" arbitrary: ps)
  case (Cons i "is")
  note ctor = EventLoop_ctor_new [OF assms(1), of "ms_loops y i" "ma_loop a i" "ma_channel a i"]
  show ?case
  proof (cases "loop_sys_ok (ms_loops y i)")
    case True
    with ctor Cons.prems obtain l t where
      l: "EventLoop_ctor ctl (ms_loops y i) (ma_loop a i) (ma_channel a i) thread_vars_new = Inr (l :: unit event_loop, t)"
      "loop_new ctl (ms_loops y i) (ma_channel a i) l" by auto
    have "ma_loop a i \<notin> ma_loop a ` set is" using Cons.prems by (auto simp: inj_on_def)
    then show ?thesis
      using Cons.IH [of "ps(ma_loop a i := el_poller l)"] Cons.prems True l
      by (auto simp: threads_ready_def loop_new_def inj_on_def)
  next
    case False
    with ctor Cons.prems show ?thesis by auto
  qed
qed (simp add: threads_ready_def)

lemma Acceptor_listen_frame:
  assumes "ctl_honest ctl" and "Acceptor_listen ctl (Acceptor_new a fd b) p = Inr (ac, p1)" and "fd' \<noteq> fd"
  shows "interest (po_calls p1) fd' = interest (po_calls p) fd'"
  using assms
  by (auto simp: Acceptor_listen_def Acceptor_new_def enableReading_def updateChannel_def Channel_new_def
      epoll_update_def Let_def index_consts ctl_honest_def interest_snoc split: if_splits)

text \<open>\<open>start\<close> of a server that has not been started, in the thread of its base loop.\<close>

lemma start_server_ok:
  fixes w :: "'c world"
  assumes "ctl_honest (kn_ctl k)" and s: "ts_started (w_server w) = 0" "tp_numThreads (ts_pool (w_server w)) = n"
    "ts_acceptor (w_server w) = Acceptor_new ach fd b" "ts_loop (w_server w) = base"
    and sane: "\<forall>i\<in>{0..n - 1}. loop_sys_sane (ms_loops y i)" "inj_on (ma_loop a) {0..n - 1}" "base \<notin> ma_loop a ` {0..n - 1}"
    and fresh: "po_channels (w_pollers w base) fd = None" "interest (po_calls (w_pollers w base)) fd = None"
  shows "if (\<forall>i\<in>{0..n - 1}. loop_sys_ok (ms_loops y i)) \<and> ms_listen y = 0
    then \<exists>w1. start_server k y a w tb = Inr (w1, on_sock (\<lambda>s. s\<lparr>so_backlog := Some 1024\<rparr>) fd tb) \<and>
      w_heap w1 = w_heap w \<and> w_queues w1 = w_queues w \<and> w_alloc w1 = w_alloc w \<and>
      ts_started (w_server w1) = 1 \<and> ac_listenning (ts_acceptor (w_server w1)) \<and>
      ts_pool (w_server w1) = fst (pool_start (ma_loop a) False (ts_pool (w_server w))) \<and>
      ts_connections (w_server w1) = ts_connections (w_server w) \<and> ts_nextConnId (w_server w1) = ts_nextConnId (w_server w) \<and>
      ts_ipPort (w_server w1) = ts_ipPort (w_server w) \<and> ts_loop (w_server w1) = base \<and>
      threads_ready y a [0..n - 1] (w_pollers w1) \<and>
      interest (po_calls (w_pollers w1 base)) fd = Some (kReadEvent, ach) \<and>
      (\<forall>fd'. fd' \<noteq> fd \<longrightarrow> interest (po_calls (w_pollers w1 base)) fd' = interest (po_calls (w_pollers w base)) fd')
    else start_server k y a w tb = Inl Abort"
proof -
  note threads = start_threads_ok [OF assms(1), of "[0..n - 1]" y a "w_pollers w"]
  have ts: "if \<forall>i\<in>{0..n - 1}. loop_sys_ok (ms_loops y i)
    then \<exists>ps'. start_threads (kn_ctl k) y a [0..n - 1] (w_pollers w) = Inr ps' \<and> threads_ready y a [0..n - 1] ps' \<and>
      ps' base = w_pollers w base
    else start_threads (kn_ctl k) y a [0..n - 1] (w_pollers w) = Inl Abort"
    using threads sane by (auto split: if_splits)
  show ?thesis
  proof (cases "(\<forall>i\<in>{0..n - 1}. loop_sys_ok (ms_loops y i)) \<and> ms_listen y = 0")
    case True
    then obtain ps where ps: "start_threads (kn_ctl k) y a [0..n - 1] (w_pollers w) = Inr ps"
      "threads_ready y a [0..n - 1] ps" "ps base = w_pollers w base" using ts by auto
    obtain ac p1 where ac: "Acceptor_listen (kn_ctl k) (Acceptor_new ach fd b) (w_pollers w base) = Inr (ac, p1)"
      "ac_listenning ac" "interest (po_calls p1) fd = Some (kReadEvent, ach)"
      using Acceptor_listen_ok [OF assms(1) fresh] by blast
    have "threads_ready y a [0..n - 1] (ps(base := p1))"
      using ps(2) sane(3) by (auto simp: threads_ready_def)
    moreover have "ch_fd (ac_channel (Acceptor_new ach fd b)) = fd" by (simp add: Acceptor_new_def Channel_new_def)
    ultimately show ?thesis
      using True ps ac s Acceptor_listen_frame [OF assms(1) ac(1)]
      by (simp add: start_server_def Let_def TcpServer_start_def run_listen_def set_server_def Socket_listen_def)
  next
    case False
    then show ?thesis using ts s by (auto simp: start_server_def Let_def Socket_listen_def split: if_splits)
  qed
qed

section \<open>Properties\<close>

definition calls_ok :: "main_sys \<Rightarrow> bool" where
  "calls_ok y \<longleftrightarrow> loop_sys_ok (ms_base y) \<and> (\<forall>i\<in>{0..4}. loop_sys_ok (ms_loops y i)) \<and>
     0 \<le> ms_socket y \<and> ms_bind y = 0 \<and> ms_listen y = 0"

definition main_sane :: "main_sys \<Rightarrow> main_addrs \<Rightarrow> bool" where
  "main_sane y a \<longleftrightarrow> loop_sys_sane (ms_base y) \<and> (\<forall>i\<in>{0..4}. loop_sys_sane (ms_loops y i)) \<and>
     inj_on (ma_loop a) {0..4} \<and> ma_base a \<notin> ma_loop a ` {0..4} \<and> ms_socket y \<noteq> ls_eventfd (ms_base y)"

text \<open>The state in which \<open>main\<close> calls \<open>loop\<close>.\<close>

definition main_up :: "main_sys \<Rightarrow> main_addrs \<Rightarrow> inet_address \<Rightarrow> 'c world \<Rightarrow> sock_table \<Rightarrow> bool" where
  "main_up y a addr w tb \<longleftrightarrow> server_init w \<and> ts_started (w_server w) = 1 \<and> ts_ipPort (w_server w) = toIpPort addr \<and>
     tp_threads (ts_pool (w_server w)) = map (\<lambda>i. ''EchoServer'' @ dec_int i) [0..4] \<and>
     getAllLoops (ts_pool (w_server w)) = map (ma_loop a) [0..4] \<and> threads_ready y a [0..4] (w_pollers w) \<and>
     interest (po_calls (w_pollers w (ma_base a))) (ls_eventfd (ms_base y)) = Some (kReadEvent, ma_wakeup a) \<and>
     interest (po_calls (w_pollers w (ma_base a))) (ms_socket y) = Some (kReadEvent, ma_accept a) \<and>
     tb = [ms_socket y \<mapsto> (listen_socket (ms_reuseaddr y) (ms_reuseport y) addr)\<lparr>so_backlog := Some 1024\<rparr>]"

text \<open>\<open>start\<close> on the server of \<open>main\<close>, after the base loop \<open>l\<close> and the acceptor.\<close>

lemma start_echo:
  fixes k :: kernel and l :: "unit event_loop" and addr :: inet_address and y :: main_sys and a :: main_addrs
  defines "w \<equiv> new_world (EchoServer_new (ma_base a) (ma_accept a) (ms_socket y) addr ''EchoServer'') (el_poller l) :: 'c world"
  assumes "ctl_honest (kn_ctl k)" and "main_sane y a" and l: "loop_new (kn_ctl k) (ms_base y) (ma_wakeup a) l"
  shows "if (\<forall>i\<in>{0..4}. loop_sys_ok (ms_loops y i)) \<and> ms_listen y = 0
    then \<exists>w1 tb. start_server k y a w [ms_socket y \<mapsto> listen_socket (ms_reuseaddr y) (ms_reuseport y) addr] = Inr (w1, tb) \<and> main_up y a addr w1 tb
    else start_server k y a w [ms_socket y \<mapsto> listen_socket (ms_reuseaddr y) (ms_reuseport y) addr] = Inl Abort"
proof -
  let ?fd = "ms_socket y"
  note eval = w_def new_world_def EchoServer_new_def setThreadNum_def TcpServer_new_def pool_setThreadNum_def
  have w: "ts_started (w_server w) = 0" "tp_numThreads (ts_pool (w_server w)) = 5"
    "ts_acceptor (w_server w) = Acceptor_new (ma_accept a) ?fd False" "ts_loop (w_server w) = ma_base a"
    "w_pollers w (ma_base a) = el_poller l"
    by (simp_all add: eval)
  have "po_channels (w_pollers w (ma_base a)) ?fd = None" "interest (po_calls (w_pollers w (ma_base a))) ?fd = None"
    using l assms(3) by (simp_all add: w loop_new_def main_sane_def)
  note start = start_server_ok [OF assms(2) w(1-4) _ _ _ this, of y a "[?fd \<mapsto> listen_socket (ms_reuseaddr y) (ms_reuseport y) addr]"]
  have "fst (pool_start (ma_loop a) False (ts_pool (w_server w))) =
      (EventLoopThreadPool_new (ma_base a) ''EchoServer'')\<lparr>tp_started := True, tp_numThreads := 5,
        tp_threads := map (\<lambda>i. ''EchoServer'' @ dec_int i) [0..4], tp_loops := map (ma_loop a) [0..4]\<rparr>"
    using pool_started [of 5] by (simp add: eval)
  moreover have "getAllLoops \<dots> = map (ma_loop a) [0..4]" by (simp add: getAllLoops_def upto_rec1)
  moreover have "w_heap w = Map.empty" "w_queues w = (\<lambda>_. [])" "ts_connections (w_server w) = Map.empty"
    "ts_nextConnId (w_server w) = 1" "ts_ipPort (w_server w) = toIpPort addr"
    by (simp_all add: eval)
  moreover have "on_sock (\<lambda>s. s\<lparr>so_backlog := Some 1024\<rparr>) ?fd [?fd \<mapsto> listen_socket (ms_reuseaddr y) (ms_reuseport y) addr] =
      [?fd \<mapsto> (listen_socket (ms_reuseaddr y) (ms_reuseport y) addr)\<lparr>so_backlog := Some 1024\<rparr>]"
    by (simp add: on_sock_def)
  ultimately show ?thesis
    using start assms(3) l length_toIpPort [of addr]
    by (auto simp: main_sane_def main_up_def server_init_def w(5) loop_new_def)
qed

text \<open>
  C21: the program comes up or aborts. When the objects have different addresses and
  descriptors and the environment asks for no other poller, \<open>main\<close> aborts exactly when one
  of the system calls fails whose result it checks (\<open>calls_ok\<close>; it passes over a failure of
  \<open>setsockopt\<close>). Otherwise it reaches the call of \<open>loop\<close> with a started server
  without connections (a state from which the connections are safe), five threads with
  their own loops, each waiting on its eventfd, and a base loop that waits on its eventfd
  and on a socket that listens on the address of the server.
\<close>

theorem echo_main_listens:
  fixes k :: kernel
  assumes "ctl_honest (kn_ctl k)" and "main_sane y a"
  shows "case echo_main k inet_addr y a of
      Inl e \<Rightarrow> e = Abort \<and> \<not> calls_ok y
    | Inr (w :: 'c world, tb) \<Rightarrow> calls_ok y \<and> main_up y a (InetAddress_new inet_addr 8002 ''127.0.0.1'') w tb"
proof -
  let ?addr = "InetAddress_new inet_addr 8002 ''127.0.0.1''" and ?fd = "ms_socket y"
  let ?s = "EchoServer_new (ma_base a) (ma_accept a) ?fd ?addr ''EchoServer''"
  note ctor = EventLoop_ctor_new [OF assms(1), of "ms_base y" "ma_base a" "ma_wakeup a"]
  note acceptor = Acceptor_ctor_cases [of ?fd "ms_reuseaddr y" "ms_reuseport y" "ms_bind y" "ma_accept a" ?addr False Map.empty]
  show ?thesis
  proof (cases "loop_sys_ok (ms_base y) \<and> 0 \<le> ?fd \<and> ms_bind y = 0")
    case False
    then show ?thesis using ctor acceptor assms(2)
      by (auto simp: echo_main_def EchoServer_ctor_eq main_sane_def calls_ok_def Let_def split: if_splits)
  next
    case True
    then obtain l t where l: "EventLoop_ctor (kn_ctl k) (ms_base y) (ma_base a) (ma_wakeup a) thread_vars_new =
        Inr (l :: unit event_loop, t)" "loop_new (kn_ctl k) (ms_base y) (ma_wakeup a) l"
      using ctor assms(2) by (auto simp: main_sane_def)
    have "?s\<lparr>ts_acceptor := Acceptor_new (ma_accept a) ?fd False\<rparr> = ?s"
      by (simp add: EchoServer_new_def setThreadNum_def TcpServer_new_def)
    then have "echo_main k inet_addr y a =
        start_server k y a (new_world ?s (el_poller l) :: 'c world) [?fd \<mapsto> listen_socket (ms_reuseaddr y) (ms_reuseport y) ?addr]"
      using True l(1) acceptor by (simp add: echo_main_def EchoServer_ctor_eq EchoServer_start_def Let_def)
    with start_echo [OF assms l(2), of ?addr, where 'c = 'c] True show ?thesis
      by (auto simp: calls_ok_def split: if_splits)
  qed
qed

definition demo_sys :: main_sys where
  "demo_sys = \<lparr>ms_base = \<lparr>ls_gettid = 100, ls_usePoll = False, ls_epollfd = 3, ls_eventfd = 4\<rparr>,
     ms_loops = (\<lambda>i. \<lparr>ls_gettid = 101 + i, ls_usePoll = False, ls_epollfd = 6 + 2 * i, ls_eventfd = 7 + 2 * i\<rparr>),
     ms_socket = 5, ms_reuseaddr = 0, ms_reuseport = 0, ms_bind = 0, ms_listen = 0\<rparr>"

definition demo_addrs :: main_addrs where
  "demo_addrs = \<lparr>ma_base = 1000, ma_wakeup = 1001, ma_accept = 1002, ma_loop = nat, ma_channel = (\<lambda>i. 10 + nat i)\<rparr>"

theorem echo_main_listens_witness:
  "\<exists>w tb. echo_main slow_kernel (\<lambda>_. (127, 0, 0, 1)) demo_sys demo_addrs = Inr (w :: unit world, tb) \<and>
     ts_ipPort (w_server w) = ''127.0.0.1:8002'' \<and> getAllLoops (ts_pool (w_server w)) = [0, 1, 2, 3, 4]"
proof -
  have "ctl_honest (kn_ctl slow_kernel)" by (simp add: slow_kernel_def ctl_honest_def)
  moreover have "main_sane demo_sys demo_addrs" "calls_ok demo_sys"
    by (auto simp: main_sane_def calls_ok_def demo_sys_def demo_addrs_def loop_sys_sane_def loop_sys_ok_def inj_on_def)
  moreover have "toIpPort (InetAddress_new (\<lambda>_. (127, 0, 0, 1)) 8002 ''127.0.0.1'') = ''127.0.0.1:8002''"
    by (simp add: toIpPort_def toIP_def toPort_def InetAddress_new_def dec_eval)
  ultimately show ?thesis
    using echo_main_listens [of slow_kernel demo_sys demo_addrs "\<lambda>_. (127, 0, 0, 1)", where 'c = unit]
    by (auto simp: main_up_def demo_addrs_def upto_rec1 split: sum.splits)
qed

end
