(* ===== verification/Http_Start.thy ===== *)
theory Http_Start
  imports Http_Sessions Server_Main
begin

text \<open>
  The start of the HTTP server: \<open>HttpServer::start\<close> (\<open>src/src/http/HttpServer.cpp\<close>) on a
  server that has been constructed, with the threads of its pool and the listening socket.
  It ends in an initial world of \<open>Http_World\<close>, so that the theorems there hold from then on.
\<close>

definition HttpServer_start ::
    "kernel \<Rightarrow> main_sys \<Rightarrow> main_addrs \<Rightarrow> http_context world \<Rightarrow> sock_table \<Rightarrow>
     (http_context world \<times> sock_table) res" where
  "HttpServer_start = start_server"

section \<open>Lemmas\<close>

text \<open>What the pollers watch after the threads of the pool have started: their wakeup descriptors.\<close>

lemma start_threads_watched:
  assumes "ctl_honest ctl"
  shows "start_threads ctl y a is ps = Inr ps' \<Longrightarrow> \<forall>i\<in>set is. loop_sys_sane (ms_loops y i) \<Longrightarrow>
    watched (ps' l) fd \<Longrightarrow> watched (ps l) fd \<or> fd \<in> (\<lambda>i. ls_eventfd (ms_loops y i)) ` set is"
proof (induction "is" arbitrary: ps)
  case (Cons i "is")
  note ctor = EventLoop_ctor_new [OF assms, of "ms_loops y i" "ma_loop a i" "ma_channel a i"]
  obtain lp t where lp: "EventLoop_ctor ctl (ms_loops y i) (ma_loop a i) (ma_channel a i) thread_vars_new =
      Inr (lp :: unit event_loop, t)" "start_threads ctl y a is (ps(ma_loop a i := el_poller lp)) = Inr ps'"
    using Cons.prems(1) by auto
  then have "loop_new ctl (ms_loops y i) (ma_channel a i) lp"
    using ctor Cons.prems(2) by (auto split: if_splits)
  then have "fd = ls_eventfd (ms_loops y i)" if "watched (el_poller lp) fd"
    using that by (auto simp: loop_new_def watched_def)
  then show ?case
    using Cons.IH [OF lp(2)] Cons.prems(2,3) by (auto split: if_splits)
qed simp

text \<open>
  A constructed server with its descriptors: \<open>own\<close> holds the listening socket, the wakeup
  descriptor of the base loop and those of the loops that \<open>start\<close> creates.
\<close>

definition ready_to_start :: "int set \<Rightarrow> main_sys \<Rightarrow> main_addrs \<Rightarrow> http_context world \<Rightarrow> sock_table \<Rightarrow> bool" where
  "ready_to_start own y a w tb \<longleftrightarrow> server_init w \<and> dom tb = own \<and> acceptor_desc own w \<and>
     (\<forall>l fd. watched (w_pollers w l) fd \<longrightarrow> fd \<in> own) \<and> ts_started (w_server w) = 0 \<and>
     (\<forall>i\<in>{0..tp_numThreads (ts_pool (w_server w)) - 1}. loop_sys_sane (ms_loops y i) \<and>
        loop_sys_ok (ms_loops y i) \<and> ls_eventfd (ms_loops y i) \<in> own) \<and>
     inj_on (ma_loop a) {0..tp_numThreads (ts_pool (w_server w)) - 1} \<and>
     ts_loop (w_server w) \<notin> ma_loop a ` {0..tp_numThreads (ts_pool (w_server w)) - 1} \<and> ms_listen y = 0"

lemma start_server_desc:
  assumes ready: "ready_to_start own y a w tb" and ctl: "ctl_honest (kn_ctl k)"
  shows "\<exists>w1 tb1. start_server k y a w tb = Inr (w1, tb1) \<and> desc_init own (w1, tb1) \<and>
    ac_listenning (ts_acceptor (w_server w1)) \<and>
    ts_pool (w_server w1) = fst (pool_start (ma_loop a) False (ts_pool (w_server w)))"
proof -
  let ?s = "w_server w" and ?is = "[0..tp_numThreads (ts_pool (w_server w)) - 1]"
  let ?fd = "ch_fd (ac_channel (ts_acceptor (w_server w)))" and ?base = "ts_loop (w_server w)"
  have r: "server_init w" "dom tb = own" "acceptor_desc own w" "\<forall>l fd. watched (w_pollers w l) fd \<longrightarrow> fd \<in> own"
    "ts_started ?s = 0" "ms_listen y = 0" "?base \<notin> ma_loop a ` set ?is"
    using ready by (auto simp: ready_to_start_def)
  obtain ps where ps: "start_threads (kn_ctl k) y a ?is (w_pollers w) = Inr ps" "ps ?base = w_pollers w ?base"
    using start_threads_ok [OF ctl, of ?is y a "w_pollers w"] ready by (auto simp: ready_to_start_def)
  have own: "fd \<in> own" if "watched (ps l) fd" for l fd
    using start_threads_watched [OF ctl ps(1) _ that] ready by (auto simp: ready_to_start_def)
  define w1 where "w1 = w\<lparr>w_pollers := ps, w_server := ?s\<lparr>ts_started := 1,
      ts_pool := fst (pool_start (ma_loop a) False (ts_pool ?s))\<rparr>\<rparr>"
  define tb1 where "tb1 = on_sock (\<lambda>so. so\<lparr>so_backlog := Some 1024\<rparr>) ?fd tb"
  have dom1: "dom tb1 = own" using r(2,3) by (auto simp: tb1_def on_sock_def acceptor_desc_def split: option.splits if_splits)
  have "server_init w1" using r(1) by (simp add: server_init_def w1_def)
  moreover have a1: "acceptor_desc own w1" using r(3) ps(2) by (simp add: acceptor_desc_def w1_def)
  ultimately have ok1: "desc_ok own w1 tb1"
    using own dom1 by (auto simp: desc_ok_def server_init_def w1_def)
  have "chan_inv (ac_channel (ts_acceptor (w_server w1))) (w_pollers w1 ?base)"
    using a1 by (simp add: acceptor_desc_def w1_def)
  from chan_ops_ok(1) [OF ctl this] obtain w2 where
    w2: "run_listen k w1 = Inr w2" "ac_listenning (ts_acceptor (w_server w2))" "ts_pool (w_server w2) = ts_pool (w_server w1)"
    by (auto simp: run_listen_def Acceptor_listen_def op_ok_def Let_def w1_def)
  have "start_server k y a w tb = Inr (w2, tb1)"
    using ps(1) r(5,6) w2(1)
    by (simp add: start_server_def Let_def Socket_listen_def TcpServer_start_def set_server_def w1_def tb1_def)
  moreover have "desc_init own (w2, tb1)"
  proof -
    have ok2: "desc_ok own w2 tb1" by (rule run_listen_desc [OF ok1 ctl w2(1)])
    have "server_init w2" using w2(1) \<open>server_init w1\<close> by (auto simp: run_listen_def Let_def server_init_def)
    with ok2 dom1 show ?thesis by (auto simp: desc_init_def desc_ok_def server_init_def)
  qed
  ultimately show ?thesis using w2(2,3) by (auto simp: w1_def)
qed

section \<open>Properties\<close>

text \<open>
  C20: the HTTP server starts. When the system calls of its threads and the call of \<open>listen\<close>
  succeed, \<open>start\<close> on a constructed server in the thread of its base loop returns; the
  threads of the pool are there in order, the acceptor listens, no connection exists, and
  every descriptor that a poller watches is one of the program's own: this is an initial
  state of the runs of \<open>Http_World\<close>.
\<close>

theorem http_server_starts:
  assumes "ready_to_start own y a w tb" and "ctl_honest (kn_ctl k)"
  shows "\<exists>w1 tb1. HttpServer_start k y a w tb = Inr (w1, tb1) \<and> web_init own ((w1, tb1), \<lambda>cid. []) \<and>
    ac_listenning (ts_acceptor (w_server w1)) \<and>
    ts_pool (w_server w1) = fst (pool_start (ma_loop a) False (ts_pool (w_server w)))"
  using start_server_desc [OF assms] by (simp add: HttpServer_start_def web_init_def)

text \<open>A server with two threads, its wakeup descriptors 4, 6 and 7 and the listening socket 3.\<close>

definition start_sys :: main_sys where
  "start_sys = \<lparr>ms_base = \<lparr>ls_gettid = 100, ls_usePoll = False, ls_epollfd = 8, ls_eventfd = 4\<rparr>,
     ms_loops = (\<lambda>i. \<lparr>ls_gettid = 101 + i, ls_usePoll = False, ls_epollfd = 9 + i, ls_eventfd = 6 + i\<rparr>),
     ms_socket = 3, ms_reuseaddr = 0, ms_reuseport = 0, ms_bind = 0, ms_listen = 0\<rparr>"

definition start_addrs :: main_addrs where
  "start_addrs = \<lparr>ma_base = 0, ma_wakeup = 1, ma_accept = 2, ma_loop = (\<lambda>i. 20 + nat i), ma_channel = (\<lambda>i. 40 + nat i)\<rparr>"

definition start_table :: sock_table where
  "start_table = [3 \<mapsto> sock_new, 4 \<mapsto> sock_new, 6 \<mapsto> sock_new, 7 \<mapsto> sock_new]"

definition start_address :: inet_address where
  "start_address = \<lparr>sin_port = (31, 144), sin_addr = (127, 0, 0, 1)\<rparr>"

definition start_world :: "http_context world" where
  "start_world = new_world (hs_server (hs_setThreadNum 2 (HttpServer_new 0 2 3 start_address ''web'')))
     \<lparr>po_channels = [4 \<mapsto> 1], po_calls = [CtlCall EPOLL_CTL_ADD 4 kReadEvent 1], po_eventList = 16\<rparr>"

lemmas start_eval = start_world_def new_world_def HttpServer_new_def TcpServer_new_def hs_setThreadNum_def
  setThreadNum_def pool_setThreadNum_def

lemma start_world_ready: "ready_to_start {3, 4, 6, 7} start_sys start_addrs start_world start_table"
proof -
  have "{0..tp_numThreads (ts_pool (w_server start_world)) - 1} = {0, 1}" by (auto simp: start_eval)
  then show ?thesis
    using length_toIpPort [of start_address]
    by (auto simp: ready_to_start_def server_init_def start_eval start_table_def acceptor_desc_def
        Acceptor_new_def Channel_new_def chan_inv_def interest_def ctl_legal_def watched_def EPollPoller_new_def
        start_sys_def start_addrs_def loop_sys_sane_def loop_sys_ok_def kNew_def split: if_splits)
qed

lemma start_world_pool:
  "tp_loops (fst (pool_start (ma_loop start_addrs) False (ts_pool (w_server start_world)))) = [20, 21]"
  by (simp add: start_eval pool_start_def Let_def pool_start_loop_eq EventLoopThreadPool_new_def
      start_addrs_def upto.simps)

theorem http_server_starts_witness:
  "\<exists>w1 tb1. HttpServer_start slow_kernel start_sys start_addrs start_world start_table = Inr (w1, tb1) \<and>
     web_init {3, 4, 6, 7} ((w1, tb1), \<lambda>cid. []) \<and> tp_loops (ts_pool (w_server w1)) = [20, 21]"
proof -
  from http_server_starts [OF start_world_ready slow_kernel_ok(1)] obtain w1 tb1 where
    "HttpServer_start slow_kernel start_sys start_addrs start_world start_table = Inr (w1, tb1)"
    "web_init {3, 4, 6, 7} ((w1, tb1), \<lambda>cid. [])"
    "ts_pool (w_server w1) = fst (pool_start (ma_loop start_addrs) False (ts_pool (w_server start_world)))"
    by blast
  with start_world_pool show ?thesis by simp
qed

end
