(* ===== verification/Http_Release.thy ===== *)
theory Http_Release
  imports Http_Sessions
begin

text \<open>
  The end of a connection of the HTTP server (\<open>TcpServer::removeConnection\<close>,
  \<open>TcpConnection::connectDestroyed\<close>, \<open>EventLoop::doPendingFunctors\<close>): running the queues of
  the loops takes a closed connection out of the map, frees its object and closes its
  descriptor, whatever else the queues hold.
\<close>

section \<open>What one functor does to the queues\<close>

text \<open>A functor of another connection leaves a connection and its functors alone.\<close>

definition untouched :: "nat \<Rightarrow> 'c world \<Rightarrow> 'c world \<Rightarrow> bool" where
  "untouched cid w w' \<longleftrightarrow> w_heap w' cid = w_heap w cid \<and> ts_loop (w_server w') = ts_loop (w_server w) \<and>
     (\<forall>l. mine cid l w' = mine cid l w \<and> (\<exists>xs. w_queues w' l = w_queues w l @ xs))"

lemma untouched_trans: "untouched cid w w1 \<Longrightarrow> untouched cid w1 w' \<Longrightarrow> untouched cid w w'"
  unfolding untouched_def by (metis append_assoc)

lemma untouched_on_conn: "on_conn f c w = Inr w' \<Longrightarrow> c \<noteq> cid \<Longrightarrow> untouched cid w w'"
  by (auto simp: untouched_def on_conn_def store_env_def mine_def filter_empty_conv split: option.splits)

lemma untouched_release: "c \<noteq> cid \<Longrightarrow> untouched cid w (release c w)"
  by (auto simp: untouched_def release_def mine_def split: option.splits)

lemma untouched_removal: "removeConnectionInLoop c w = Inr w' \<Longrightarrow> c \<noteq> cid \<Longrightarrow> untouched cid w w'"
  by (auto simp: untouched_def removeConnectionInLoop_def set_server_def mine_def post_def split: option.splits)

lemma untouched_listen: "run_listen k w = Inr w' \<Longrightarrow> untouched cid w w'"
  by (auto simp: untouched_def run_listen_def Let_def mine_def)

lemma untouched_functor:
  assumes "run_functor k cbs mem f w = Inr w'" and "\<not> mentions cid f"
  shows "untouched cid w w'"
  using assms
  by (cases f) (auto simp: run_connectEstablished_def intro: untouched_listen
      dest!: untouched_on_conn [where cid = cid] untouched_removal [where cid = cid]
      intro: untouched_trans untouched_release)

section \<open>The functors of a closed connection\<close>

text \<open>What its functors still have to do: the removal comes before the destruction.\<close>

fun functor_weight :: "server_functor \<Rightarrow> nat" where
  "functor_weight (RemoveConnectionInLoop cid) = 2"
| "functor_weight f = 1"

definition work_left :: "nat \<Rightarrow> nat set \<Rightarrow> 'c world \<Rightarrow> nat" where
  "work_left cid ls w = (\<Sum>l\<in>ls. sum_list (map functor_weight (mine cid l w)))"

definition homes :: "'c conn_obj \<Rightarrow> 'c world \<Rightarrow> nat set" where
  "homes co w = {co_loop co, ts_loop (w_server w)}"

lemma work_left_cong: "(\<And>l. mine cid l w' = mine cid l w) \<Longrightarrow> work_left cid ls w' = work_left cid ls w"
  by (simp add: work_left_def)

lemma work_left_add:
  assumes "finite ls" and "l \<in> ls" and "\<And>l'. mine cid l' w' = mine cid l' w @ (if l' = l then [f] else [])"
  shows "work_left cid ls w' = work_left cid ls w + functor_weight f"
proof -
  have "sum_list (map functor_weight (mine cid l' w')) =
      sum_list (map functor_weight (mine cid l' w)) + (if l' = l then functor_weight f else 0)" for l'
    by (simp add: assms(3))
  then show ?thesis using assms(1,2) by (simp add: work_left_def sum.distrib)
qed

lemma work_left_pop:
  assumes "finite ls" and "l \<in> ls" and "w_queues w l = f # fs" and "mentions cid f"
  shows "work_left cid ls w = work_left cid ls (w\<lparr>w_queues := (w_queues w)(l := fs)\<rparr>) + functor_weight f"
proof -
  have "sum_list (map functor_weight (mine cid l' w)) =
      sum_list (map functor_weight (mine cid l' (w\<lparr>w_queues := (w_queues w)(l := fs)\<rparr>))) +
      (if l' = l then functor_weight f else 0)" for l'
    using assms(3,4) by (simp add: mine_def)
  then show ?thesis using assms(1,2) by (simp add: work_left_def sum.distrib)
qed

text \<open>A handler that queues nothing, on the object of the connection.\<close>

lemma quiet_handler_mine:
  assumes "on_conn h cid w = Inr w1" and "w_heap w cid = Some co"
    and "\<And>e. h (conn_env co w) = Inr e \<Longrightarrow> te_queued e = []"
  shows "mine cid l w1 = mine cid l w" and "w_server w1 = w_server w"
  using assms by (auto simp: on_conn_def store_env_def mine_def)

lemma release_mine [simp]: "mine cid l (release c w) = mine cid l w" "w_server (release c w) = w_server w"
  by (auto simp: release_def mine_def split: option.splits)

lemma mentions_subject: "mentions cid f \<Longrightarrow> subject f = Some cid"
  by (cases f) auto

definition still_closed :: "nat \<Rightarrow> 'c conn_obj \<Rightarrow> 'c world \<Rightarrow> 'c world \<Rightarrow> bool" where
  "still_closed cid co w w' \<longleftrightarrow> (\<exists>co'. w_heap w' cid = Some co' \<and> co_state co' = kDisconnected \<and>
     co_loop co' = co_loop co \<and> conn_fd co' = conn_fd co \<and> co_name co' = co_name co) \<and> ts_loop (w_server w') = ts_loop (w_server w)"

lemma quiet_handler:
  assumes d: "desc_ok own w tb" and r: "on_conn h cid w = Inr w1" and co: "w_heap w cid = Some co"
    and h: "\<And>e. h (conn_env co w) = Inr e \<Longrightarrow>
      te_queued e = [] \<and> tc_state (te_conn e) = kDisconnected \<and> chan_frame (conn_env co w) e"
    and alive: "w_heap (release cid w1) cid \<noteq> None"
  shows "still_closed cid co w (release cid w1) \<and> (\<forall>l. mine cid l (release cid w1) = mine cid l w)"
proof -
  obtain e where e: "h (conn_env co w) = Inr e" "w1 = store_env cid co e w" using r co by (auto simp: on_conn_def)
  obtain co1 where co1: "w_heap w1 cid = Some co1" "conn_fd co1 = conn_fd co"
    using on_conn_fd [OF d r co] h by blast
  have "co_state co1 = kDisconnected" "co_loop co1 = co_loop co" "co_name co1 = co_name co"
    using co1(1) h [OF e(1)] by (auto simp: e(2) store_env_def co_state_def)
  moreover have "w_heap (release cid w1) cid = Some co1"
    using alive release_heap [of cid w1 cid] co1(1) by fastforce
  moreover have "w_server w1 = w_server w" by (simp add: e(2))
  moreover have "mine cid l w1 = mine cid l w" for l using quiet_handler_mine(1) [OF r co] h by blast
  ultimately show ?thesis using co1(2) by (simp add: still_closed_def)
qed

lemma own_functor_works:
  assumes inv: "server_inv w" "desc_ok own w tb" and q: "w_queues w l = f # fs" and m: "mentions cid f"
    and co: "w_heap w cid = Some co" "co_state co = kDisconnected" and k: "ctl_honest (kn_ctl k)"
    and r: "run_functor k cbs mem f (w\<lparr>w_queues := (w_queues w)(l := fs)\<rparr>) = Inr w'" and alive: "w_heap w' cid \<noteq> None"
  shows "still_closed cid co w w' \<and> work_left cid (homes co w) w' < work_left cid (homes co w) w"
proof -
  let ?w0 = "w\<lparr>w_queues := (w_queues w)(l := fs)\<rparr>"
  have co0: "w_heap ?w0 cid = Some co" and d0: "desc_ok own ?w0 tb" and q0: "te_queued (conn_env co ?w0) = []"
    using co(1) inv(2) by (simp_all add: conn_env_def)
  have "l = home co (ts_loop (w_server w)) f" using pop_inv [OF inv(1) q m refl] co(1) by auto
  then have l: "l \<in> homes co w" by (cases f) (auto simp: homes_def)
  have pop: "work_left cid (homes co w) w = work_left cid (homes co w) ?w0 + functor_weight f"
    by (rule work_left_pop [OF _ l q m]) (simp add: homes_def)
  have quiet: "still_closed cid co w w' \<and> work_left cid (homes co w) w' < work_left cid (homes co w) w"
    if "on_conn h cid ?w0 = Inr w1" "w' = release cid w1" "functor_weight f = 1"
      "\<And>e. h (conn_env co ?w0) = Inr e \<Longrightarrow>
        te_queued e = [] \<and> tc_state (te_conn e) = kDisconnected \<and> chan_frame (conn_env co ?w0) e" for h w1
    using quiet_handler [OF d0 that(1) co0 that(4)] alive that(2,3) pop work_left_cong [of cid w' ?w0 "homes co w"]
    by (simp add: still_closed_def)
  show ?thesis
  proof (cases f)
    case (ConnectEstablished c)
    with m have "c = cid" by simp
    then show ?thesis using head_established [OF inv(1)] q co ConnectEstablished by force
  next
    case (ConnectDestroyed c)
    with m r obtain w1 where w1: "on_conn (connectDestroyed k cbs) cid ?w0 = Inr w1" "w' = release cid w1" by auto
    have st: "tc_state (te_conn (conn_env co ?w0)) = kDisconnected" using co(2) by simp
    show ?thesis
      by (rule quiet [OF w1])
         (use connectDestroyed_local [OF _ st] connectDestroyed_frame [OF k st] q0 ConnectDestroyed in auto)
  next
    case (RemoveConnectionInLoop c)
    with m r obtain w1 where w1: "removeConnectionInLoop cid ?w0 = Inr w1" "w' = release cid w1" by auto
    then have w1': "w1 = post (co_loop co) (ConnectDestroyed cid) (erase co ?w0)"
      using co(1) by (simp add: removeConnectionInLoop_def erase_def)
    have "work_left cid (homes co w) w' = work_left cid (homes co w) ?w0 + functor_weight (ConnectDestroyed cid)"
      by (rule work_left_add [of _ "co_loop co"]) (auto simp: homes_def w1(2) w1' mine_post)
    moreover have "w_heap w' cid = Some co" using alive release_heap [of cid w1 cid] co(1) by (fastforce simp: w1(2) w1')
    ultimately show ?thesis
      using pop co(2) RemoveConnectionInLoop by (simp add: still_closed_def w1(2) w1')
  next
    case AcceptorListen
    with m show ?thesis by simp
  next
    case (ConnFunctor c g)
    with m r obtain w1 where w1: "on_conn (run_conn_functor k mem g) cid ?w0 = Inr w1" "w' = release cid w1" by auto
    have "owns g" using pop_inv [OF inv(1) q m refl] ConnFunctor by simp
    then show ?thesis
      by (intro quiet [OF w1])
         (use owned_functor_idle [of g k mem "conn_env co ?w0"] q0 co(2) ConnFunctor in \<open>auto simp: chan_frame_same\<close>)
  qed
qed

text \<open>A closed connection always has a functor queued.\<close>

lemma closed_has_work:
  assumes "server_inv w" and co: "w_heap w cid = Some co" "co_state co = kDisconnected"
  shows "\<exists>l \<in> homes co w. mine cid l w \<noteq> []"
proof (rule ccontr)
  assume "\<not> ?thesis"
  then have none: "mine cid (co_loop co) w = []" "mine cid (ts_loop (w_server w)) w = []" by (auto simp: homes_def)
  have "life cid co w" "held cid co w" using assms by (auto simp: server_inv_def)
  with none co(2) show False by (auto simp: held_def life_def life_ok_def count_functor_def)
qed

section \<open>Running the queues\<close>

lemma run_head:
  assumes inv: "web_inv own cb ((w, tb), lg)" and q: "w_queues w l = f # fs"
  obtains w' where "run_functor slow_kernel (http_callbacks slow_kernel cb) (\<lambda>p n. []) f
      (w\<lparr>w_queues := (w_queues w)(l := fs)\<rparr>) = Inr w'"
    and "web_step cb ((w, tb), lg) ((w', close_freed f w w' tb), lg)"
    and "web_inv own cb ((w', close_freed f w w' tb), lg)"
proof -
  from functor_runs [OF inv slow_kernel_all q, of "\<lambda>p n. []"] obtain w' where
    r: "run_functor slow_kernel (http_callbacks slow_kernel cb) (\<lambda>p n. []) f
      (w\<lparr>w_queues := (w_queues w)(l := fs)\<rparr>) = Inr w'" by blast
  have st: "web_step cb ((w, tb), lg) ((w', close_freed f w w' tb), lg)"
    by (rule web_functor [OF slow_kernel_all q r])
  from that [OF r st web_inv_step [OF inv st]] show thesis .
qed

text \<open>The functors of other connections before the first one of this connection.\<close>

lemma run_others:
  "web_inv own cb ((w, tb), lg) \<Longrightarrow> w_queues w l = fs @ g # gs \<Longrightarrow> \<forall>f\<in>set fs. \<not> mentions cid f \<Longrightarrow>
   \<exists>w' tb' gs'. (web_step cb)\<^sup>*\<^sup>* ((w, tb), lg) ((w', tb'), lg) \<and> web_inv own cb ((w', tb'), lg) \<and>
     w_queues w' l = g # gs' \<and> w_heap w' cid = w_heap w cid \<and> ts_loop (w_server w') = ts_loop (w_server w) \<and>
     (\<forall>l. mine cid l w' = mine cid l w)"
proof (induction fs arbitrary: w tb gs)
  case Nil
  then show ?case by fastforce
next
  case (Cons f fs)
  have q: "w_queues w l = f # (fs @ g # gs)" using Cons.prems(2) by simp
  let ?w0 = "w\<lparr>w_queues := (w_queues w)(l := fs @ g # gs)\<rparr>"
  from Cons.prems(1) q obtain w1 where
    r: "run_functor slow_kernel (http_callbacks slow_kernel cb) (\<lambda>p n. []) f ?w0 = Inr w1"
    and st: "web_step cb ((w, tb), lg) ((w1, close_freed f w w1 tb), lg)"
    and inv1: "web_inv own cb ((w1, close_freed f w w1 tb), lg)" by (rule run_head)
  have f: "\<not> mentions cid f" using Cons.prems(3) by simp
  have u: "untouched cid ?w0 w1" by (rule untouched_functor [OF r f])
  then obtain xs where q1: "w_queues w1 l = fs @ g # (gs @ xs)" by (auto simp: untouched_def dest: spec [of _ l])
  have "mine cid l' ?w0 = mine cid l' w" for l' using q f by (simp add: mine_def)
  then have same: "w_heap w1 cid = w_heap w cid" "ts_loop (w_server w1) = ts_loop (w_server w)"
    "\<forall>l. mine cid l w1 = mine cid l w" using u by (simp_all add: untouched_def)
  have "\<forall>f\<in>set fs. \<not> mentions cid f" using Cons.prems(3) by simp
  from Cons.IH [OF inv1 q1 this] obtain w' tb' gs' where
    w': "(web_step cb)\<^sup>*\<^sup>* ((w1, close_freed f w w1 tb), lg) ((w', tb'), lg)" "web_inv own cb ((w', tb'), lg)"
    "w_queues w' l = g # gs'" "w_heap w' cid = w_heap w1 cid" "ts_loop (w_server w') = ts_loop (w_server w1)"
    "\<forall>l. mine cid l w' = mine cid l w1" by blast
  from st w'(1) have "(web_step cb)\<^sup>*\<^sup>* ((w, tb), lg) ((w', tb'), lg)" by (rule converse_rtranclp_into_rtranclp)
  moreover have "w_heap w' cid = w_heap w cid" "ts_loop (w_server w') = ts_loop (w_server w)"
    "\<forall>l. mine cid l w' = mine cid l w" using w'(4-6) same by simp_all
  ultimately show ?case using w'(2,3) by blast
qed

lemma first_mine:
  assumes "mine cid l w \<noteq> []"
  obtains fs g gs where "w_queues w l = fs @ g # gs" and "\<forall>f\<in>set fs. \<not> mentions cid f" and "mentions cid g"
proof -
  have "\<exists>x \<in> set (w_queues w l). mentions cid x" using assms by (auto simp: mine_def filter_empty_conv)
  from split_list_first_prop [OF this] show thesis using that by blast
qed

lemma closed_is_released:
  assumes "web_inv own cb ((w, tb), lg)" and "w_heap w cid = Some co" and "co_state co = kDisconnected"
  shows "\<exists>w' tb'. (web_step cb)\<^sup>*\<^sup>* ((w, tb), lg) ((w', tb'), lg) \<and> web_inv own cb ((w', tb'), lg) \<and>
    w_heap w' cid = None \<and> tb' (conn_fd co) = None"
  using assms
proof (induction "work_left cid (homes co w) w" arbitrary: w tb co rule: less_induct)
  case less
  have "server_inv w" using less.prems(1) by (simp add: web_inv_def desc_inv_def)
  from closed_has_work [OF this less.prems(2,3)] obtain l where "mine cid l w \<noteq> []" by blast
  then obtain fs g gs where q: "w_queues w l = fs @ g # gs" "\<forall>f\<in>set fs. \<not> mentions cid f" and g: "mentions cid g"
    by (rule first_mine)
  from run_others [OF less.prems(1) q] obtain w1 tb1 gs1 where
    w1: "(web_step cb)\<^sup>*\<^sup>* ((w, tb), lg) ((w1, tb1), lg)" "web_inv own cb ((w1, tb1), lg)" "w_queues w1 l = g # gs1"
    "w_heap w1 cid = w_heap w cid" "ts_loop (w_server w1) = ts_loop (w_server w)" "\<forall>l. mine cid l w1 = mine cid l w"
    by blast
  have h1: "w_heap w1 cid = Some co" and inv1: "server_inv w1" "desc_ok own w1 tb1"
    using w1(2,4) less.prems(2) by (simp_all add: web_inv_def desc_inv_def)
  have work: "homes co w1 = homes co w" "work_left cid ls w1 = work_left cid ls w" for ls
    using w1(5,6) by (simp_all add: homes_def work_left_def)
  from w1(2,3) obtain w2 where
    r: "run_functor slow_kernel (http_callbacks slow_kernel cb) (\<lambda>p n. []) g (w1\<lparr>w_queues := (w_queues w1)(l := gs1)\<rparr>) = Inr w2"
    and st: "web_step cb ((w1, tb1), lg) ((w2, close_freed g w1 w2 tb1), lg)"
    and inv2: "web_inv own cb ((w2, close_freed g w1 w2 tb1), lg)" by (rule run_head)
  have steps: "(web_step cb)\<^sup>*\<^sup>* ((w, tb), lg) ((w2, close_freed g w1 w2 tb1), lg)"
    using w1(1) st by (rule rtranclp.rtrancl_into_rtrancl)
  show ?case
  proof (cases "w_heap w2 cid = None")
    case True
    then have "close_freed g w1 w2 tb1 (conn_fd co) = None"
      by (simp add: close_freed_def mentions_subject [OF g] h1 Socket_dtor_def)
    with steps inv2 True show ?thesis by blast
  next
    case False
    from own_functor_works [OF inv1 w1(3) g h1 less.prems(3) slow_kernel_ok(1) r False]
    have c: "still_closed cid co w1 w2" "work_left cid (homes co w) w2 < work_left cid (homes co w) w"
      by (simp_all add: work)
    then obtain co2 where co2: "w_heap w2 cid = Some co2" "co_state co2 = kDisconnected" "conn_fd co2 = conn_fd co"
      "homes co2 w2 = homes co w"
      using w1(5) by (auto simp: still_closed_def homes_def)
    from less.hyps [OF _ inv2 co2(1,2)] c(2) co2(3,4) obtain w' tb' where
      "(web_step cb)\<^sup>*\<^sup>* ((w2, close_freed g w1 w2 tb1), lg) ((w', tb'), lg)" "web_inv own cb ((w', tb'), lg)"
      "w_heap w' cid = None" "tb' (conn_fd co) = None" by auto
    with steps show ?thesis by (meson rtranclp_trans)
  qed
qed

section \<open>Properties\<close>

text \<open>
  C9: a closed connection is released. From any reachable state in which a connection has
  been closed, running functors of the loops' queues alone, in the order in which they are
  queued, leads to a state in which the object is freed, no entry of the connection map
  refers to it, and its descriptor is closed.
\<close>

theorem web_server_releases:
  assumes "reach (web_init own) (web_step cb) ((w, tb), lg)"
    and "w_heap w cid = Some co" and "co_state co = kDisconnected"
  shows "\<exists>w' tb'. (web_step cb)\<^sup>*\<^sup>* ((w, tb), lg) ((w', tb'), lg) \<and> w_heap w' cid = None \<and>
    (\<forall>n. ts_connections (w_server w') n \<noteq> Some cid) \<and> tb' (conn_fd co) = None"
proof -
  from closed_is_released [OF web.reach_inv [OF assms(1)] assms(2,3)] obtain w' tb' where
    w': "(web_step cb)\<^sup>*\<^sup>* ((w, tb), lg) ((w', tb'), lg)" "web_inv own cb ((w', tb'), lg)"
    "w_heap w' cid = None" "tb' (conn_fd co) = None" by blast
  have "ts_connections (w_server w') n \<noteq> Some cid" for n
    using w'(2,3) by (force simp: web_inv_def desc_inv_def server_inv_def world_inv_def map_ok_def)
  with w' show ?thesis by blast
qed

definition web_closed :: "http_context world" where
  "web_closed = projr (peer_closed slow_kernel web_callbacks 10 web_up)"

lemmas web_eval = demo_eval web_callbacks_def http_callbacks_def onConnection_def connected_def setContext_def

lemma web_closed_eq: "peer_closed slow_kernel web_callbacks 10 web_up = Inr web_closed"
  by (simp add: web_closed_def web_up_def web_eval peer_closed_def handleClose_def disableAll_def removeConnection_def)

lemma web_closed_heap:
  "\<exists>co. w_heap web_closed 10 = Some co \<and> co_state co = kDisconnected \<and> conn_fd co = 5"
  by (simp add: web_closed_def web_up_def web_eval peer_closed_def handleClose_def disableAll_def
      removeConnection_def co_state_def conn_fd_def)

theorem web_server_releases_witness:
  "\<exists>w' tb'. (web_step keep_callback)\<^sup>*\<^sup>* ((web_closed, web_table), \<lambda>cid. []) ((w', tb'), \<lambda>cid. []) \<and>
     w_heap w' 10 = None \<and> tb' 5 = None"
proof -
  obtain co where co: "w_heap web_up 10 = Some co" "conn_up (co_state co)" using web_up_heap by blast
  from reach_step [of _ "web_step keep_callback", OF web_up_reachable
      web_close [OF slow_kernel_all co web_closed_eq [unfolded web_callbacks_def]]]
  have r: "reach (web_init {3}) (web_step keep_callback) ((web_closed, web_table), \<lambda>cid. [])" .
  obtain co' where "w_heap web_closed 10 = Some co'" "co_state co' = kDisconnected" "conn_fd co' = 5"
    using web_closed_heap by blast
  with web_server_releases [OF r] show ?thesis by metis
qed

end
