(* ===== verification/Loop_Thread.thy ===== *)
theory Loop_Thread
  imports Thread_Pool Event_Loop
begin

text \<open>
  The whole life of an \<open>EventLoopThread\<close> (\<open>src/src/EventLoopThread.cpp\<close>): the meeting of
  \<open>startLoop\<close> and \<open>threadFunc\<close> of \<open>Thread_Pool\<close>, the loop of \<open>Event_Loop\<close> that the thread
  runs, and the destructor, which asks the loop to quit and joins the thread.

  The \<open>EventLoop\<close> lives on the stack of the thread: it exists from \<open>WInit\<close> until the
  end of \<open>threadFunc\<close> destroys it. A call on it after that, or through the null pointer, is
  \<open>DDangling\<close>.
\<close>

section \<open>States and steps\<close>

text \<open>
  Where the destructor is: not called, at the test of \<open>loop_\<close>, at the second read of
  \<open>loop_\<close> for the call of \<open>quit\<close>, before the store to \<open>quit_\<close> and before the call of
  \<open>wakeup\<close> in \<open>EventLoop::quit\<close>, in \<open>join\<close>, or over. It takes no mutex.
\<close>

datatype dtor_pc = DNone | DTest | DRead | DQuit | DWake | DJoin | DDone | DDangling

record 'f thread_life =
  tl_elt :: elt_state
  tl_loop :: "'f loop_state"
  tl_exiting :: bool
  tl_thread :: thread
  tl_dtor :: dtor_pc

definition life_init :: "'f thread_life \<Rightarrow> bool" where
  "life_init s \<longleftrightarrow> (\<exists>n name. s = \<lparr>tl_elt = EventLoopThread_new, tl_loop = EventLoop_new, tl_exiting = False,
     tl_thread = snd (Thread_new n name), tl_dtor = DNone\<rparr>)"

definition loop_alive :: "'f thread_life \<Rightarrow> bool" where
  "loop_alive s \<longleftrightarrow> es_worker (tl_elt s) = WInit \<or> es_worker (tl_elt s) = WLooping \<or>
     es_worker (tl_elt s) = WCleared \<or> es_worker (tl_elt s) = WUnlocked"

definition returned :: "'f thread_life \<Rightarrow> bool" where
  "returned s \<longleftrightarrow> (\<exists>r. es_starter (tl_elt s) = SReturned r)"

text \<open>
  \<open>meet\<close>: a step of \<open>startLoop\<close> or of \<open>threadFunc\<close> up to the call of \<open>loop\<close>. \<open>run\<close>: a step
  of the loop or of any thread that holds a pointer to it; the loop is entered after its
  publication, nobody asks it to quit before \<open>startLoop\<close> has handed the pointer out, and
  the wakeup that the destructor owes (\<open>DWake\<close>) is the destructor's own. \<open>leave_loop\<close>: a
  step of the end of \<open>threadFunc\<close>, after \<open>loop\<close> has returned; it goes on when the destructor
  is over, if that has not waited. The destructor is the owner's: it does not overlap
  \<open>startLoop\<close>.
\<close>

inductive life_step :: "nat \<Rightarrow> int \<Rightarrow> 'f thread_life \<Rightarrow> 'f thread_life \<Rightarrow> bool"
  for loop :: nat and tno :: int where
  meet: "elt_step loop (tl_elt s) e \<Longrightarrow> \<not> worker_left (es_worker e) \<Longrightarrow> tl_dtor s = DNone \<Longrightarrow>
     life_step loop tno s (s\<lparr>tl_elt := e,
       tl_thread := (if es_starter (tl_elt s) = SEntry then Thread_start tno (tl_thread s) else tl_thread s)\<rparr>)"
| run: "loop_step (tl_loop s) l \<Longrightarrow> loop_alive s \<Longrightarrow> (es_worker (tl_elt s) = WInit \<Longrightarrow> lp_pc l = LInit) \<Longrightarrow>
     (lp_quit l \<Longrightarrow> returned s) \<Longrightarrow> (tl_dtor s = DWake \<Longrightarrow> 0 < lp_foreign l) \<Longrightarrow>
     life_step loop tno s (s\<lparr>tl_loop := l\<rparr>)"
| leave_loop: "elt_step loop (tl_elt s) e \<Longrightarrow> worker_left (es_worker e) \<Longrightarrow> lp_pc (tl_loop s) = LExit \<Longrightarrow>
     life_step loop tno s (s\<lparr>tl_elt := e\<rparr>)"
| dtor_begin: "tl_dtor s = DNone \<Longrightarrow> returned s \<or> es_starter (tl_elt s) = SEntry \<Longrightarrow>
     life_step loop tno s (s\<lparr>tl_exiting := True, tl_dtor := DTest\<rparr>)"
| dtor_null: "tl_dtor s = DTest \<Longrightarrow> es_loop (tl_elt s) = None \<Longrightarrow>
     life_step loop tno s (s\<lparr>tl_thread := Thread_dtor (tl_thread s), tl_dtor := DDone\<rparr>)"
| dtor_some: "tl_dtor s = DTest \<Longrightarrow> es_loop (tl_elt s) = Some l \<Longrightarrow> life_step loop tno s (s\<lparr>tl_dtor := DRead\<rparr>)"
| dtor_read: "tl_dtor s = DRead \<Longrightarrow> es_loop (tl_elt s) = Some l \<Longrightarrow> life_step loop tno s (s\<lparr>tl_dtor := DQuit\<rparr>)"
| dtor_null_call: "tl_dtor s = DRead \<Longrightarrow> es_loop (tl_elt s) = None \<Longrightarrow> life_step loop tno s (s\<lparr>tl_dtor := DDangling\<rparr>)"
| dtor_quit: "tl_dtor s = DQuit \<Longrightarrow> loop_alive s \<Longrightarrow>
     life_step loop tno s (s\<lparr>tl_loop := (tl_loop s)\<lparr>lp_quit := True, lp_foreign := lp_foreign (tl_loop s) + 1\<rparr>,
       tl_dtor := DWake\<rparr>)"
| dtor_wake: "tl_dtor s = DWake \<Longrightarrow> loop_alive s \<Longrightarrow>
     life_step loop tno s (s\<lparr>tl_loop := (wakeup (tl_loop s))\<lparr>lp_foreign := lp_foreign (tl_loop s) - 1\<rparr>,
       tl_dtor := DJoin\<rparr>)"
| dtor_dangles: "tl_dtor s = DQuit \<or> tl_dtor s = DWake \<Longrightarrow> \<not> loop_alive s \<Longrightarrow>
     life_step loop tno s (s\<lparr>tl_dtor := DDangling\<rparr>)"
| dtor_join: "tl_dtor s = DJoin \<Longrightarrow> es_worker (tl_elt s) = WFinished \<Longrightarrow>
     life_step loop tno s (s\<lparr>tl_thread := Thread_dtor (Thread_join (tl_thread s)), tl_dtor := DDone\<rparr>)"

section \<open>Invariant\<close>

definition life_inv :: "nat \<Rightarrow> 'f thread_life \<Rightarrow> bool" where
  "life_inv loop s \<longleftrightarrow> elt_inv loop (tl_elt s) \<and> loop_inv (tl_loop s) \<and>
     (es_worker (tl_elt s) = WNotStarted \<or> es_worker (tl_elt s) = WInit \<longrightarrow> lp_pc (tl_loop s) = LInit) \<and>
     (worker_left (es_worker (tl_elt s)) \<longrightarrow> lp_pc (tl_loop s) = LExit) \<and>
     (lp_quit (tl_loop s) \<longrightarrow> returned s) \<and>
     (th_started (tl_thread s) \<longleftrightarrow> es_starter (tl_elt s) \<noteq> SEntry) \<and>
     (tl_dtor s = DNone \<or> tl_exiting s) \<and>
     (case tl_dtor s of
        DNone \<Rightarrow> \<not> th_joined (tl_thread s) \<and> \<not> th_detached (tl_thread s)
      | DTest \<Rightarrow> (returned s \<or> es_starter (tl_elt s) = SEntry) \<and> \<not> th_joined (tl_thread s) \<and> \<not> th_detached (tl_thread s)
      | DDone \<Rightarrow> es_starter (tl_elt s) = SEntry \<or>
          worker_left (es_worker (tl_elt s)) \<and> th_joined (tl_thread s) \<noteq> th_detached (tl_thread s) \<and>
          (th_joined (tl_thread s) \<longrightarrow> es_worker (tl_elt s) = WFinished)
      | DDangling \<Rightarrow> worker_left (es_worker (tl_elt s)) \<and> returned s
      | d \<Rightarrow> returned s \<and> \<not> th_joined (tl_thread s) \<and> \<not> th_detached (tl_thread s) \<and>
          (d = DWake \<longrightarrow> 0 < lp_foreign (tl_loop s)))"

inductive_cases life_stepE: "life_step loop tno s t"

lemma loop_quit_inv: "loop_inv l \<Longrightarrow> loop_inv (l\<lparr>lp_quit := True, lp_foreign := Suc (lp_foreign l)\<rparr>)"
  using loop_inv_step [OF _ foreign_quit] by simp

lemma loop_wake_inv: "loop_inv l \<Longrightarrow> 0 < lp_foreign l \<Longrightarrow> loop_inv ((wakeup l)\<lparr>lp_foreign := lp_foreign l - 1\<rparr>)"
  by (rule loop_inv_step [OF _ foreign_wakeup])

lemma Thread_new_flags [simp]:
  "th_started (snd (Thread_new n name)) = False" "th_joined (snd (Thread_new n name)) = False"
  "th_detached (snd (Thread_new n name)) = False"
  by (simp_all add: Thread_new_def setDefaultName_def)

text \<open>The steps of the meeting before the end of the worker, and those of that end.\<close>

lemma elt_step_frame:
  assumes "elt_step loop s e" and "elt_inv loop s" and "\<not> worker_left (es_worker e)"
  shows "es_starter e \<noteq> SEntry" and "es_worker e = WNotStarted \<or> es_worker e = WInit \<Longrightarrow> es_worker s = WNotStarted \<or> es_worker s = WInit"
    and "es_starter s = SReturned r \<Longrightarrow> es_starter e = SReturned r"
  using assms by (cases, auto simp: elt_inv_def worker_left_def split: starter_pc.splits)+

lemma elt_step_end:
  assumes "elt_step loop s e" and "elt_inv loop s" and "worker_left (es_worker e)"
  shows "es_starter e = es_starter s" and "es_worker s \<noteq> WFinished"
  using assms by (cases, auto simp: elt_inv_def worker_left_def split: starter_pc.splits)+

lemma life_inv_step:
  assumes "life_inv loop s" and "life_step loop tno s t"
  shows "life_inv loop t"
  using assms(2)
proof cases
  case (meet e)
  have "elt_inv loop e" using elt.step_inv [of loop] assms(1) meet(2) by (auto simp: life_inv_def)
  moreover have "elt_inv loop (tl_elt s)" using assms(1) by (simp add: life_inv_def)
  note frame = elt_step_frame [OF meet(2) this meet(3)]
  ultimately show ?thesis
    using assms(1) meet frame
    by (auto simp: life_inv_def returned_def Thread_start_def)
next
  case (run l)
  then have "loop_inv l" using loop_inv_step assms(1) by (auto simp: life_inv_def)
  moreover have "es_worker (tl_elt s) \<noteq> WNotStarted" "es_worker (tl_elt s) \<noteq> WFinished"
    using run(3) by (auto simp: loop_alive_def)
  moreover have "lp_pc (tl_loop s) = LExit \<Longrightarrow> lp_pc l = LExit"
    using run(2) by cases (auto simp: loop_ops)
  ultimately show ?thesis
    using assms(1) run by (cases "tl_dtor s") (auto simp: life_inv_def returned_def loop_alive_def)
next
  case (leave_loop e)
  have "elt_inv loop e" using elt.step_inv [of loop] assms(1) leave_loop(2) by (auto simp: life_inv_def)
  moreover have "es_starter e = es_starter (tl_elt s)" "es_worker (tl_elt s) \<noteq> WFinished"
    using elt_step_end [OF leave_loop(2) _ leave_loop(3)] assms(1) by (auto simp: life_inv_def)
  ultimately show ?thesis
    using assms(1) leave_loop by (cases "tl_dtor s") (auto simp: life_inv_def returned_def worker_left_def)
next
  case dtor_begin
  with assms(1) show ?thesis by (auto simp: life_inv_def returned_def)
next
  case dtor_null
  with assms(1) show ?thesis
    by (auto simp: life_inv_def returned_def Thread_dtor_def elt_inv_def)
next
  case (dtor_some l)
  with assms(1) show ?thesis by (auto simp: life_inv_def returned_def elt_inv_def)
next
  case (dtor_read l)
  with assms(1) show ?thesis by (auto simp: life_inv_def returned_def elt_inv_def)
next
  case dtor_null_call
  with assms(1) show ?thesis by (auto simp: life_inv_def returned_def elt_inv_def)
next
  case dtor_quit
  with assms(1) loop_quit_inv show ?thesis
    by (auto simp: life_inv_def returned_def loop_alive_def)
next
  case dtor_wake
  with assms(1) loop_wake_inv [of "tl_loop s"] show ?thesis
    by (auto simp: life_inv_def returned_def loop_alive_def wakeup_def)
next
  case dtor_dangles
  with assms(1) show ?thesis
    by (auto simp: life_inv_def returned_def loop_alive_def elt_inv_def worker_left_def split: starter_pc.splits)
next
  case dtor_join
  with assms(1) show ?thesis
    by (auto simp: life_inv_def returned_def Thread_dtor_def Thread_join_def worker_left_def)
qed

interpretation life: inductive_invariant life_init "life_step loop tno" "life_inv loop" for loop tno
proof
  show "life_inv loop s" if "life_init s" for s :: "'a thread_life"
  proof -
    have "elt_inv loop EventLoopThread_new" by (rule elt.init_inv) (simp add: elt_init_def)
    moreover have "loop_inv (EventLoop_new :: 'a loop_state)" by (rule el.init_inv) (simp add: loop_init_def)
    ultimately show ?thesis
      using that by (auto simp: life_init_def life_inv_def returned_def EventLoopThread_new_def EventLoop_new_def)
  qed
  show "life_inv loop t" if "life_inv loop s" "life_step loop tno s t" for s t :: "'a thread_life"
    using that by (rule life_inv_step)
qed

section \<open>The end of the loop\<close>

text \<open>
  The loop can run to its exit with the flag set, without help from another thread, and
  it executes what is pending unless it is already past the swap.
\<close>

definition ends_at :: "'f loop_state \<Rightarrow> 'f loop_state \<Rightarrow> bool" where
  "ends_at l l' \<longleftrightarrow> loop_step\<^sup>*\<^sup>* l l' \<and> lp_pc l' = LExit \<and> lp_queued l' = lp_queued l"

definition past_swap :: "'f loop_state \<Rightarrow> bool" where
  "past_swap l \<longleftrightarrow> lp_pc l = LCheck \<or> lp_pc l = LRun \<or> lp_pc l = LExit"

lemma ends_at_step: "loop_step l m \<Longrightarrow> lp_queued m = lp_queued l \<Longrightarrow> ends_at m l' \<Longrightarrow> ends_at l l'"
  by (auto simp: ends_at_def intro: converse_rtranclp_into_rtranclp)

lemma ends_at_check:
  "lp_pc l = LCheck \<Longrightarrow> lp_quit l \<Longrightarrow> ends_at l (l\<lparr>lp_pc := LExit, lp_looping := False\<rparr>)"
  by (simp add: ends_at_def r_into_rtranclp check_stop)

lemma ends_at_run:
  assumes "lp_pc l = LRun" and "lp_quit l"
  shows "\<exists>l'. ends_at l l' \<and> lp_pending l' = lp_pending l"
proof -
  let ?m = "l\<lparr>lp_executed := lp_executed l @ lp_functors l, lp_functors := []\<rparr>"
  let ?c = "?m\<lparr>lp_calling := False, lp_pc := LCheck\<rparr>"
  have "loop_step\<^sup>*\<^sup>* l ?m" by (rule quiet_steps_loop [OF run_functors_steps [OF assms(1)]])
  also have "loop_step ?m ?c" by (rule run_done) (use assms in simp_all)
  finally have "loop_step\<^sup>*\<^sup>* l ?c" .
  moreover have "ends_at ?c (?c\<lparr>lp_pc := LExit, lp_looping := False\<rparr>)"
    by (rule ends_at_check) (use assms in simp_all)
  ultimately show ?thesis
    by (intro exI [of _ "?c\<lparr>lp_pc := LExit, lp_looping := False\<rparr>"]) (auto simp: ends_at_def)
qed

lemma ends_at_swap:
  assumes "lp_pc l = LSwap" and "lp_quit l"
  shows "\<exists>l'. ends_at l l' \<and> lp_pending l' = []"
  using ends_at_run [of "swap_pending l"] ends_at_step [OF swap [OF assms(1)]] assms(2)
  by (auto simp: swap_pending_def)

lemma ends_at_handle:
  assumes "lp_pc l = LHandle w" and "lp_quit l"
  shows "\<exists>l'. ends_at l l' \<and> lp_pending l' = []"
proof -
  have h: "\<exists>l'. ends_at m l' \<and> lp_pending l' = []" if "lp_pc m = LHandle False" "lp_quit m" for m :: "'a loop_state"
    using ends_at_swap [of "m\<lparr>lp_calling := True, lp_pc := LSwap\<rparr>"] ends_at_step [OF handle_done [OF that(1)]] that(2)
    by auto
  show ?thesis
  proof (cases w)
    case True
    then show ?thesis
      using h [of "(handleWakeup l)\<lparr>lp_pc := LHandle False\<rparr>"] ends_at_step [OF handle_wakeup [of l]] assms
      by (auto simp: handleWakeup_def)
  qed (use h assms in simp)
qed

lemma ends_at_poll:
  assumes "lp_pc l = LPoll" and "lp_quit l"
  shows "\<exists>l'. ends_at l l' \<and> lp_pending l' = []"
proof (cases "0 < lp_wakeup l")
  case True
  then show ?thesis
    using ends_at_handle [of "l\<lparr>lp_pc := LHandle True\<rparr>"] ends_at_step [OF poll_wakeup [OF assms(1)]] assms(2) by auto
next
  case False
  then show ?thesis
    using ends_at_handle [of "l\<lparr>lp_pc := LHandle False\<rparr>"] ends_at_step [OF poll_other [OF assms(1)]] assms(2) by auto
qed

lemma quit_loop_ends:
  assumes "lp_quit l" and "lp_pc l \<noteq> LInit"
  shows "\<exists>l'. ends_at l l' \<and> (past_swap l \<or> lp_pending l' = [])"
proof (cases "lp_pc l")
  case LExit
  then show ?thesis by (auto simp: ends_at_def past_swap_def)
next
  case LRun
  then show ?thesis using ends_at_run assms(1) by (fastforce simp: past_swap_def)
qed (use assms ends_at_check ends_at_poll ends_at_handle ends_at_swap in \<open>auto simp: past_swap_def\<close>)

text \<open>The steps of the loop are steps of the thread while the destructor waits.\<close>

lemma loop_steps_in_join:
  assumes "loop_step\<^sup>*\<^sup>* (tl_loop s) l" and "tl_dtor s = DJoin" and "es_worker (tl_elt s) = WLooping" and "returned s"
  shows "(life_step loop tno)\<^sup>*\<^sup>* s (s\<lparr>tl_loop := l\<rparr>)"
  using assms(1)
proof (induction rule: rtranclp_induct)
  case (step l m)
  have "life_step loop tno (s\<lparr>tl_loop := l\<rparr>) (s\<lparr>tl_loop := l, tl_loop := m\<rparr>)"
    by (rule run) (use assms(2-4) step(2) in \<open>auto simp: loop_alive_def returned_def\<close>)
  with step(3) show ?case by (simp add: rtranclp.rtrancl_into_rtrancl)
qed simp

text \<open>After \<open>loop\<close> has returned, the rest of \<open>threadFunc\<close> runs to its end by itself.\<close>

definition worker_ends :: "nat \<Rightarrow> int \<Rightarrow> 'f thread_life \<Rightarrow> bool" where
  "worker_ends loop tno s \<longleftrightarrow> (\<exists>e. (life_step loop tno)\<^sup>*\<^sup>* s (s\<lparr>tl_elt := e\<rparr>) \<and> es_worker e = WFinished)"

lemma worker_ends_step:
  assumes "elt_step loop (tl_elt s) e" and "worker_left (es_worker e)" and "lp_pc (tl_loop s) = LExit"
    and "worker_ends loop tno (s\<lparr>tl_elt := e\<rparr>)"
  shows "worker_ends loop tno s"
  using leave_loop [OF assms(1-3)] assms(4)
  by (auto simp: worker_ends_def intro: converse_rtranclp_into_rtranclp)

lemma worker_left_ends:
  assumes "lp_pc (tl_loop s) = LExit" and "worker_left (es_worker (tl_elt s))"
  shows "worker_ends loop tno s"
proof -
  have fin: "worker_ends loop tno u" if "es_worker (tl_elt u) = WFinished" for u :: "'a thread_life"
    using that by (auto simp: worker_ends_def intro: exI [of _ "tl_elt u"])
  have des: "worker_ends loop tno u" if "es_worker (tl_elt u) = WDestroyed" "lp_pc (tl_loop u) = LExit"
    for u :: "'a thread_life"
    by (rule worker_ends_step [OF thread_end [OF that(1)]]) (use that fin in simp_all)
  have unl: "worker_ends loop tno u" if "es_worker (tl_elt u) = WUnlocked" "lp_pc (tl_loop u) = LExit"
    for u :: "'a thread_life"
    by (rule worker_ends_step [OF destroy_loop [OF that(1)]]) (use that des in simp_all)
  have cle: "worker_ends loop tno u" if "es_worker (tl_elt u) = WCleared" "lp_pc (tl_loop u) = LExit"
    for u :: "'a thread_life"
    by (rule worker_ends_step [OF unlock [OF that(1)]]) (use that unl in simp_all)
  show ?thesis using assms fin des unl cle by (auto simp: worker_left_def)
qed

lemma loop_exit_ends:
  assumes "lp_pc (tl_loop s) = LExit" and "es_worker (tl_elt s) = WLooping" and "returned s"
  shows "worker_ends loop tno s"
proof -
  obtain r where "es_starter (tl_elt s) = SReturned r" using assms(3) by (auto simp: returned_def)
  from leave [OF assms(2) this] show ?thesis
    by (rule worker_ends_step) (simp_all add: assms(1) worker_left_ends)
qed

lemma join_returns_at_exit:
  assumes "worker_ends loop tno s" and "tl_dtor s = DJoin"
  shows "\<exists>t. (life_step loop tno)\<^sup>*\<^sup>* s t \<and> tl_dtor t = DDone \<and> tl_loop t = tl_loop s \<and> th_joined (tl_thread t)"
proof -
  obtain e where e: "(life_step loop tno)\<^sup>*\<^sup>* s (s\<lparr>tl_elt := e\<rparr>)" "es_worker e = WFinished"
    using assms(1) by (auto simp: worker_ends_def)
  have "life_step loop tno (s\<lparr>tl_elt := e\<rparr>)
      (s\<lparr>tl_elt := e, tl_thread := Thread_dtor (Thread_join (tl_thread s)), tl_dtor := DDone\<rparr>)"
    using dtor_join [of "s\<lparr>tl_elt := e\<rparr>" loop tno] assms(2) e(2) by simp
  with e(1) show ?thesis
    by (intro exI [of _ "s\<lparr>tl_elt := e, tl_thread := Thread_dtor (Thread_join (tl_thread s)), tl_dtor := DDone\<rparr>"])
       (simp add: Thread_dtor_def Thread_join_def)
qed

lemma left_unpublished: "elt_inv loop e \<Longrightarrow> worker_left (es_worker e) \<Longrightarrow> es_loop e = None"
  by (auto simp: elt_inv_def split: starter_pc.splits)

lemma exit_accounts: "loop_inv l \<Longrightarrow> lp_pc l = LExit \<Longrightarrow> lp_queued l = lp_executed l @ lp_pending l"
  by (simp add: loop_inv_def)

lemma ends_at_inv: "ends_at l l' \<Longrightarrow> loop_inv l \<Longrightarrow> loop_inv l' \<and> lp_pc l' = LExit \<and> lp_queued l' = lp_queued l"
  using el.steps_inv by (auto simp: ends_at_def)

lemma join_returns:
  assumes inv: "life_inv loop s" and j: "tl_dtor s = DJoin" and l: "ends_at (tl_loop s) l"
    and w: "es_worker (tl_elt s) = WLooping"
  shows "\<exists>t. (life_step loop tno)\<^sup>*\<^sup>* s t \<and> tl_dtor t = DDone \<and> tl_loop t = l \<and> th_joined (tl_thread t)"
proof -
  have r: "returned s" using inv j by (simp add: life_inv_def)
  have run: "(life_step loop tno)\<^sup>*\<^sup>* s (s\<lparr>tl_loop := l\<rparr>)"
    using loop_steps_in_join j l w r by (auto simp: ends_at_def)
  have "worker_ends loop tno (s\<lparr>tl_loop := l\<rparr>)"
    by (rule loop_exit_ends) (use l w r in \<open>simp_all add: ends_at_def returned_def\<close>)
  from join_returns_at_exit [OF this] j show ?thesis using run by (auto intro: rtranclp_trans)
qed

section \<open>Properties\<close>

text \<open>
  C22: the end of a loop thread. In every interleaving of owner, worker and the threads that
  use the loop, when the destructor has returned there are three cases: the thread was
  never started; or the destructor has joined it and its function has ended; or the
  destructor found \<open>loop_\<close> cleared and has detached it: the worker is then past its loop and
  at most its return is left, the release of the mutex included. In the last two cases
  what was queued has been executed in order, up to functors that stay pending. (The
  destructor may also fail before it returns: \<open>destructor_dangles\<close> below.) When the
  destructor waits in \<open>join\<close> and the loop has been entered and has seen the request to
  quit, the worker can run to its end by itself and \<open>join\<close> returns; nothing stays pending
  unless the loop was already past the swap of its functors.
\<close>

theorem loop_thread_ends:
  assumes "reach life_init (life_step loop tno) s"
  shows "(tl_dtor s = DDone \<longrightarrow> es_starter (tl_elt s) = SEntry \<or>
      (if th_joined (tl_thread s) then es_worker (tl_elt s) = WFinished \<and> \<not> th_detached (tl_thread s)
       else worker_left (es_worker (tl_elt s)) \<and> th_detached (tl_thread s)) \<and>
      es_loop (tl_elt s) = None \<and> lp_pc (tl_loop s) = LExit \<and>
      lp_queued (tl_loop s) = lp_executed (tl_loop s) @ lp_pending (tl_loop s)) \<and>
    (tl_dtor s = DJoin \<and> lp_quit (tl_loop s) \<and> lp_pc (tl_loop s) \<noteq> LInit \<longrightarrow>
      (\<exists>t. (life_step loop tno)\<^sup>*\<^sup>* s t \<and> tl_dtor t = DDone \<and> th_joined (tl_thread t) \<and>
         lp_queued (tl_loop s) = lp_executed (tl_loop t) @ lp_pending (tl_loop t) \<and>
         (past_swap (tl_loop s) \<or> lp_pending (tl_loop t) = [])))"
proof -
  have inv: "life_inv loop s" by (rule life.reach_inv [OF assms])
  then have linv: "loop_inv (tl_loop s)" and einv: "elt_inv loop (tl_elt s)" by (simp_all add: life_inv_def)
  have "\<exists>t. (life_step loop tno)\<^sup>*\<^sup>* s t \<and> tl_dtor t = DDone \<and> th_joined (tl_thread t) \<and>
      lp_queued (tl_loop s) = lp_executed (tl_loop t) @ lp_pending (tl_loop t) \<and>
      (past_swap (tl_loop s) \<or> lp_pending (tl_loop t) = [])"
    if j: "tl_dtor s = DJoin" and q: "lp_quit (tl_loop s)" "lp_pc (tl_loop s) \<noteq> LInit"
  proof (cases "worker_left (es_worker (tl_elt s))")
    case True
    then have "lp_pc (tl_loop s) = LExit" using inv by (simp add: life_inv_def)
    then show ?thesis
      using join_returns_at_exit [OF worker_left_ends [OF _ True, of loop tno] j] exit_accounts [OF linv]
      by (fastforce simp: past_swap_def)
  next
    case False
    then have w: "es_worker (tl_elt s) = WLooping"
      using inv j by (auto simp: life_inv_def returned_def elt_inv_def)
    obtain l where l: "ends_at (tl_loop s) l" "past_swap (tl_loop s) \<or> lp_pending l = []"
      using quit_loop_ends [OF q] by blast
    then have "lp_queued (tl_loop s) = lp_executed l @ lp_pending l"
      using ends_at_inv [OF l(1) linv] exit_accounts [of l] by simp
    then show ?thesis using join_returns [OF inv j l(1) w, of tno] l(2) by auto
  qed
  moreover have "es_starter (tl_elt s) = SEntry \<or>
      (if th_joined (tl_thread s) then es_worker (tl_elt s) = WFinished \<and> \<not> th_detached (tl_thread s)
       else worker_left (es_worker (tl_elt s)) \<and> th_detached (tl_thread s)) \<and>
      worker_left (es_worker (tl_elt s)) \<and> lp_pc (tl_loop s) = LExit" if "tl_dtor s = DDone"
    using inv that by (auto simp: life_inv_def)
  ultimately show ?thesis using exit_accounts [OF linv] left_unpublished [OF einv] by blast
qed

text \<open>A thread that was started, has entered its loop, and whose destructor waits in \<open>join\<close>.\<close>

definition demo_life :: "string thread_life" where
  "demo_life = \<lparr>tl_elt = EventLoopThread_new, tl_loop = EventLoop_new, tl_exiting = False,
     tl_thread = snd (Thread_new 0 ''io''), tl_dtor = DNone\<rparr>"

definition demo_started :: "string thread_life" where
  "demo_started = \<lparr>tl_elt = \<lparr>es_loop = Some 7, es_starter = SReturned (Some 7), es_worker = WLooping, es_callback_done = True\<rparr>,
     tl_loop = enter_loop EventLoop_new, tl_exiting = False,
     tl_thread = Thread_start 42 (snd (Thread_new 0 ''io'')), tl_dtor = DNone\<rparr>"

lemmas life_eval = demo_life_def demo_started_def EventLoopThread_new_def EventLoop_new_def loop_alive_def returned_def loop_ops

lemma demo_started_steps: "(life_step 7 42)\<^sup>*\<^sup>* demo_life demo_started"
proof -
  let ?e1 = "\<lparr>es_loop = None, es_starter = STest, es_worker = WInit, es_callback_done = False\<rparr>"
  let ?e2 = "?e1\<lparr>es_callback_done := True\<rparr>"
  let ?e3 = "?e2\<lparr>es_loop := Some 7, es_worker := WLooping\<rparr>"
  let ?e4 = "?e3\<lparr>es_starter := SReturned (Some 7)\<rparr>"
  let ?s = "\<lambda>e. demo_life\<lparr>tl_elt := e, tl_thread := Thread_start 42 (snd (Thread_new 0 ''io''))\<rparr>"
  have "(life_step 7 42)\<^sup>*\<^sup>* demo_life demo_life" by simp
  also have "life_step 7 42 demo_life (?s ?e1)"
    using meet [of 7 demo_life ?e1 42] thread_start [of EventLoopThread_new 7] by (simp add: life_eval)
  also have "life_step 7 42 (?s ?e1) (?s ?e2)"
    using meet [of 7 "?s ?e1" ?e2 42] run_callback [of ?e1 7] by (simp add: life_eval)
  also have "life_step 7 42 (?s ?e2) (?s ?e3)"
    using meet [of 7 "?s ?e2" ?e3 42] publish [of ?e2 7] by (simp add: life_eval)
  also have "life_step 7 42 (?s ?e3) (?s ?e4)"
    using meet [of 7 "?s ?e3" ?e4 42] test_set [of ?e3 7 7] by (simp add: life_eval)
  also have "life_step 7 42 (?s ?e4) demo_started"
    using run [of "?s ?e4" "enter_loop EventLoop_new" 7 42] loop_step.enter [of EventLoop_new]
    by (simp add: life_eval)
  finally show ?thesis .
qed

definition demo_quit :: "string loop_state \<Rightarrow> string thread_life" where
  "demo_quit l = demo_started\<lparr>tl_loop := l\<lparr>lp_quit := True, lp_foreign := lp_foreign l + 1\<rparr>, tl_exiting := True, tl_dtor := DWake\<rparr>"

lemma demo_quit_steps: "(life_step 7 42)\<^sup>*\<^sup>* (demo_started\<lparr>tl_loop := l\<rparr>) (demo_quit l)"
proof -
  let ?s = "demo_started\<lparr>tl_loop := l\<rparr>"
  let ?d = "?s\<lparr>tl_exiting := True, tl_dtor := DTest\<rparr>"
  have "(life_step 7 42)\<^sup>*\<^sup>* ?s ?s" by simp
  also have "life_step 7 42 ?s ?d" by (rule dtor_begin) (simp_all add: life_eval)
  also have "life_step 7 42 ?d (?d\<lparr>tl_dtor := DRead\<rparr>)" by (rule dtor_some) (simp_all add: life_eval)
  also have "life_step 7 42 \<dots> (?d\<lparr>tl_dtor := DQuit\<rparr>)"
    using dtor_read [of "?d\<lparr>tl_dtor := DRead\<rparr>" 7 7 42] by (simp add: life_eval)
  also have "life_step 7 42 \<dots> (demo_quit l)"
    using dtor_quit [of "?d\<lparr>tl_dtor := DQuit\<rparr>" 7 42] by (simp add: life_eval demo_quit_def)
  finally show ?thesis .
qed

definition demo_join :: "string thread_life" where
  "demo_join = demo_started\<lparr>tl_loop := (tl_loop demo_started)\<lparr>lp_pc := LPoll, lp_quit := True, lp_wakeup := 1\<rparr>,
     tl_exiting := True, tl_dtor := DJoin\<rparr>"

lemma demo_join_steps: "(life_step 7 42)\<^sup>*\<^sup>* demo_started demo_join"
proof -
  let ?p = "(tl_loop demo_started)\<lparr>lp_pc := LPoll\<rparr>"
  have "(life_step 7 42)\<^sup>*\<^sup>* demo_started demo_started" by simp
  also have "life_step 7 42 demo_started (demo_started\<lparr>tl_loop := ?p\<rparr>)"
    by (rule run) (use check_go [of "tl_loop demo_started"] in \<open>simp_all add: life_eval\<close>)
  also have "(life_step 7 42)\<^sup>*\<^sup>* \<dots> (demo_quit ?p)" by (rule demo_quit_steps)
  also have "life_step 7 42 \<dots> demo_join"
    using dtor_wake [of "demo_quit ?p" 7 42] by (simp add: life_eval demo_quit_def demo_join_def)
  finally show ?thesis .
qed

lemma demo_reachable: "(life_step 7 42)\<^sup>*\<^sup>* demo_started s \<Longrightarrow> reach life_init (life_step 7 42) s"
  by (rule reach_steps [OF rtranclp_trans [OF demo_started_steps]], assumption, rule reach_init)
     (auto simp: life_init_def demo_life_def)

theorem loop_thread_ends_witness:
  "\<exists>t. (life_step 7 42)\<^sup>*\<^sup>* demo_join t \<and> tl_dtor t = DDone \<and> th_joined (tl_thread t) \<and> lp_pending (tl_loop t) = []"
  using loop_thread_ends [OF demo_reachable [OF demo_join_steps]]
  by (auto simp: demo_join_def past_swap_def life_eval)

text \<open>
  The destructor can outlive the loop inside \<open>quit\<close>. When the loop sees \<open>quit_\<close> between the
  store and the call of \<open>wakeup\<close>, it ends and is destroyed, and \<open>wakeup\<close> reads a member of
  the dead object.
\<close>

lemma demo_exit:
  assumes "lp_pc (tl_loop s) = LExit" and "tl_elt s = tl_elt demo_started"
  shows "(life_step 7 42)\<^sup>*\<^sup>* s (s\<lparr>tl_elt := (tl_elt s)\<lparr>es_loop := None, es_worker := WCleared\<rparr>\<rparr>)"
    and "(life_step 7 42)\<^sup>*\<^sup>* s (s\<lparr>tl_elt := (tl_elt s)\<lparr>es_loop := None, es_worker := WDestroyed\<rparr>\<rparr>)"
proof -
  let ?s = "\<lambda>w. s\<lparr>tl_elt := (tl_elt s)\<lparr>es_loop := None, es_worker := w\<rparr>\<rparr>"
  have 1: "life_step 7 42 s (?s WCleared)"
    by (rule leave_loop) (use leave [of "tl_elt s" "Some 7" 7] assms in \<open>simp_all add: demo_started_def\<close>)
  then show "(life_step 7 42)\<^sup>*\<^sup>* s (?s WCleared)" by simp
  also have "life_step 7 42 (?s WCleared) (?s WUnlocked)"
    using leave_loop [of 7 "?s WCleared" "tl_elt (?s WUnlocked)" 42] unlock [of "tl_elt (?s WCleared)" 7] assms(1)
    by simp
  also have "life_step 7 42 (?s WUnlocked) (?s WDestroyed)"
    using leave_loop [of 7 "?s WUnlocked" "tl_elt (?s WDestroyed)" 42] destroy_loop [of "tl_elt (?s WUnlocked)" 7]
      assms(1)
    by simp
  finally show "(life_step 7 42)\<^sup>*\<^sup>* s (?s WDestroyed)" .
qed

lemma destructor_dangles:
  "\<exists>s :: string thread_life. reach life_init (life_step 7 42) s \<and> tl_dtor s = DDangling"
proof -
  let ?q = "demo_quit (tl_loop demo_started)"
  let ?x = "?q\<lparr>tl_loop := (tl_loop ?q)\<lparr>lp_pc := LExit, lp_looping := False\<rparr>\<rparr>"
  let ?y = "?x\<lparr>tl_elt := (tl_elt ?x)\<lparr>es_loop := None, es_worker := WDestroyed\<rparr>\<rparr>"
  have "(life_step 7 42)\<^sup>*\<^sup>* demo_started ?q" using demo_quit_steps [of "tl_loop demo_started"] by simp
  also have "life_step 7 42 ?q ?x"
    by (rule run) (use check_stop [of "tl_loop ?q"] in \<open>simp_all add: life_eval demo_quit_def\<close>)
  also have "(life_step 7 42)\<^sup>*\<^sup>* ?x ?y" by (rule demo_exit) (simp_all add: demo_quit_def)
  also have "life_step 7 42 \<dots> (?y\<lparr>tl_dtor := DDangling\<rparr>)"
    using dtor_dangles [of ?y 7 42] by (simp add: demo_quit_def loop_alive_def)
  finally show ?thesis using demo_reachable by (intro exI conjI) auto
qed

text \<open>
  The destructor can return before the worker has ended. When the loop was asked to quit
  by another call, the destructor may find \<open>loop_\<close> cleared: it skips \<open>join\<close> and returns,
  and with it the mutex is destroyed that the worker still holds.
\<close>

lemma destructor_overtakes_worker:
  "\<exists>s :: string thread_life. reach life_init (life_step 7 42) s \<and> tl_dtor s = DDone \<and>
     th_detached (tl_thread s) \<and> es_worker (tl_elt s) = WCleared"
proof -
  let ?l = "(tl_loop demo_started)\<lparr>lp_quit := True, lp_foreign := 1\<rparr>"
  let ?q = "demo_started\<lparr>tl_loop := ?l\<rparr>"
  let ?x = "?q\<lparr>tl_loop := ?l\<lparr>lp_pc := LExit, lp_looping := False\<rparr>\<rparr>"
  let ?y = "?x\<lparr>tl_elt := (tl_elt ?x)\<lparr>es_loop := None, es_worker := WCleared\<rparr>\<rparr>"
  let ?z = "?y\<lparr>tl_exiting := True, tl_dtor := DTest\<rparr>"
  have "(life_step 7 42)\<^sup>*\<^sup>* demo_started demo_started" by simp
  also have "life_step 7 42 demo_started ?q"
    by (rule run) (use foreign_quit [of "tl_loop demo_started"] in \<open>simp_all add: life_eval\<close>)
  also have "life_step 7 42 ?q ?x"
    using run [of ?q "?l\<lparr>lp_pc := LExit, lp_looping := False\<rparr>" 7 42] check_stop [of ?l]
    by (simp add: life_eval)
  also have "(life_step 7 42)\<^sup>*\<^sup>* ?x ?y" by (rule demo_exit) simp_all
  also have "life_step 7 42 ?y ?z"
    by (rule dtor_begin) (simp_all add: life_eval)
  also have "life_step 7 42 ?z (?z\<lparr>tl_thread := Thread_dtor (tl_thread ?z), tl_dtor := DDone\<rparr>)"
    by (rule dtor_null) simp_all
  finally show ?thesis
    using demo_reachable
    by (intro exI [of _ "?z\<lparr>tl_thread := Thread_dtor (tl_thread ?z), tl_dtor := DDone\<rparr>"])
      (auto simp: demo_started_def Thread_dtor_def Thread_start_def)
qed

end
