(* ===== verification/Log_Stream.thy ===== *)
theory Log_Stream
  imports Prelude "HOL-Library.Signed_Division"
begin

text \<open>
  The front end of the log: \<open>FixedBuffer\<close> (\<open>src/include/FixedBuffer.h\<close>), \<open>LogStream\<close>
  (\<open>src/include/LogStream.h\<close>, \<open>src/src/log/LogStream.cpp\<close>), \<open>SourceFile\<close> and \<open>Logger\<close>
  (\<open>src/include/Logger.h\<close>, \<open>src/src/Logger.cpp\<close>), and the text of a \<open>Timestamp\<close>
  (\<open>src/src/Timestamp.cpp\<close>).

  A fixed buffer is its capacity and the bytes up to its cursor. Integers are
  mathematical integers with C's division (towards zero); the widths of the overloads
  appear as bounds in the properties. \<open>localtime\<close> and the formatting of floating-point
  numbers are parameters.
\<close>

section \<open>Data and operations\<close>

subsection \<open>Fixed buffers\<close>

definition kSmallBufferSize :: nat where "kSmallBufferSize = 4096"
definition kLargeBufferSize :: nat where "kLargeBufferSize = 4096 * 1000"

record fixed_buffer =
  fb_capacity :: nat
  fb_bytes :: string

definition FixedBuffer_new :: "nat \<Rightarrow> fixed_buffer" where
  "FixedBuffer_new n = \<lparr>fb_capacity = n, fb_bytes = []\<rparr>"

definition fb_avail :: "fixed_buffer \<Rightarrow> nat" where
  "fb_avail b = fb_capacity b - length (fb_bytes b)"

definition fb_append :: "string \<Rightarrow> fixed_buffer \<Rightarrow> fixed_buffer" where
  "fb_append s b = (if fb_avail b > length s then b\<lparr>fb_bytes := fb_bytes b @ s\<rparr> else b)"

definition fb_reset :: "fixed_buffer \<Rightarrow> fixed_buffer" where
  "fb_reset b = b\<lparr>fb_bytes := []\<rparr>"

subsection \<open>Integers\<close>

definition kMaxNumberSize :: nat where "kMaxNumberSize = 32"

definition digits :: string where "digits = ''9876543210123456789''"

lemma abs_sdiv_10: "\<bar>n sdiv 10\<bar> = \<bar>n\<bar> div (10 :: int)"
  by (simp add: signed_divide_int_def abs_mult sgn_if)

text \<open>The loop of \<open>formatInteger\<close>: the digits in the order they are written.\<close>

function format_loop :: "int \<Rightarrow> string" where
  "format_loop num =
     (let remainder = num smod 10; q = num sdiv 10
      in digits ! nat (9 + remainder) # (if q \<noteq> 0 then format_loop q else []))"
  by pat_completeness auto

termination
  by (relation "measure (\<lambda>n. nat \<bar>n\<bar>)") (auto simp: abs_sdiv_10 signed_divide_int_def sgn_if split: if_splits)

declare format_loop.simps [simp del]

text \<open>
  \<open>formatInteger\<close> writes at the cursor, the terminating zero byte included, then
  reverses what it has written.
\<close>

definition formatInteger :: "int \<Rightarrow> fixed_buffer \<Rightarrow> fixed_buffer res" where
  "formatInteger num b =
     (if fb_avail b \<ge> kMaxNumberSize then
        (let cs = format_loop num @ (if num < 0 then ''-'' else [])
         in if length cs + 1 \<le> fb_avail b then Inr (b\<lparr>fb_bytes := fb_bytes b @ rev cs\<rparr>)
            else Inl OutOfBounds)
      else Inr b)"

subsection \<open>The stream\<close>

text \<open>What the overloads of \<open><<\<close> take; \<open>LGeneral\<close> is a pointer with a length.\<close>

datatype log_item =
    LBool bool | LInt int | LDouble string | LChar char | LStr string | LGeneral string int

definition GeneralTemplate_put :: "string \<Rightarrow> int \<Rightarrow> fixed_buffer \<Rightarrow> fixed_buffer res" where
  "GeneralTemplate_put data len b =
     (if 0 \<le> len \<and> nat len \<le> length data then Inr (fb_append (take (nat len) data) b)
      else Inl OutOfBounds)"

fun stream_put :: "log_item \<Rightarrow> fixed_buffer \<Rightarrow> fixed_buffer res" where
  "stream_put (LBool express) b = Inr (fb_append (if express then ''true'' else ''false'') b)"
| "stream_put (LInt number) b = formatInteger number b"
| "stream_put (LDouble text) b = Inr (fb_append (take 31 text) b)"
| "stream_put (LChar c) b = Inr (fb_append [c] b)"
| "stream_put (LStr str) b = Inr (fb_append str b)"
| "stream_put (LGeneral data len) b = GeneralTemplate_put data len b"

fun stream_puts :: "log_item list \<Rightarrow> fixed_buffer \<Rightarrow> fixed_buffer res" where
  "stream_puts [] b = Inr b"
| "stream_puts (x # xs) b = res_bind (stream_put x b) (stream_puts xs)"

subsection \<open>Times\<close>

record tm =
  tm_year :: int
  tm_mon :: int
  tm_mday :: int
  tm_hour :: int
  tm_min :: int
  tm_sec :: int

definition kMicroSecondsPerSecond :: int where "kMicroSecondsPerSecond = 1000 * 1000"

text \<open>\<open>printf\<close> with \<open>%0nd\<close> and \<open>%nd\<close>.\<close>

definition zero_padded :: "nat \<Rightarrow> int \<Rightarrow> string" where
  "zero_padded n i =
     (if i < 0 then ''-'' @ replicate (n - 1 - length (dec (nat (- i)))) (CHR ''0'') @ dec (nat (- i))
      else replicate (n - length (dec (nat i))) (CHR ''0'') @ dec (nat i))"

definition blank_padded :: "nat \<Rightarrow> int \<Rightarrow> string" where
  "blank_padded n i = replicate (n - length (dec_int i)) (CHR '' '') @ dec_int i"

definition time_text :: "string \<Rightarrow> tm \<Rightarrow> string" where
  "time_text sep tm = blank_padded 4 (tm_year tm + 1900) @ sep @ zero_padded 2 (tm_mon tm + 1) @ sep @
     zero_padded 2 (tm_mday tm) @ '' '' @ zero_padded 2 (tm_hour tm) @ '':'' @
     zero_padded 2 (tm_min tm) @ '':'' @ zero_padded 2 (tm_sec tm)"

definition Timestamp_now :: "int \<Rightarrow> int \<Rightarrow> int" where
  "Timestamp_now tv_sec tv_usec = tv_sec * 1000000 + tv_usec"

definition secondsSinceEpoch :: "int \<Rightarrow> int" where
  "secondsSinceEpoch t = t sdiv kMicroSecondsPerSecond"

definition Timestamp_toString :: "(int \<Rightarrow> tm) \<Rightarrow> int \<Rightarrow> string" where
  "Timestamp_toString localtime t = take 127 (time_text ''-'' (localtime t))"

definition toFormattedString :: "(int \<Rightarrow> tm) \<Rightarrow> bool \<Rightarrow> int \<Rightarrow> string" where
  "toFormattedString localtime showMicroseconds t =
     (let seconds = t sdiv kMicroSecondsPerSecond; text = time_text ''/'' (localtime seconds)
      in if showMicroseconds
         then take 63 (text @ ''.'' @ zero_padded 6 (t smod kMicroSecondsPerSecond))
         else take 63 text)"

subsection \<open>The logger\<close>

datatype log_level = TRACE | DEBUG | INFO | WARN | ERROR | FATAL

fun getLevelName :: "log_level \<Rightarrow> string" where
  "getLevelName TRACE = ''TRACE ''"
| "getLevelName DEBUG = ''DEBUG ''"
| "getLevelName INFO = ''INFO  ''"
| "getLevelName WARN = ''WARN  ''"
| "getLevelName ERROR = ''ERROR ''"
| "getLevelName FATAL = ''FATAL ''"

definition SourceFile_new :: "string \<Rightarrow> string" where
  "SourceFile_new filename = rev (takeWhile (\<lambda>c. c \<noteq> CHR ''/'') (rev filename))"

record logger =
  lg_stream :: fixed_buffer
  lg_level :: log_level
  lg_line :: int
  lg_basename :: string

text \<open>The text in a character array of a given size, with the zero bytes after it.\<close>

definition in_array :: "nat \<Rightarrow> string \<Rightarrow> string" where
  "in_array n s = take (n - 1) s @ replicate (n - length (take (n - 1) s)) (CHR 0x00)"

definition formatTime :: "(int \<Rightarrow> tm) \<Rightarrow> int \<Rightarrow> fixed_buffer \<Rightarrow> fixed_buffer res" where
  "formatTime localtime now b =
     (let seconds = now sdiv kMicroSecondsPerSecond;
          microseconds = now smod kMicroSecondsPerSecond;
          t_timer = in_array 64 (time_text ''/'' (localtime seconds));
          buf = in_array 32 (zero_padded 6 microseconds @ '' '')
      in stream_puts [LGeneral t_timer 17, LGeneral buf 7] b)"

text \<open>The text of an error number: what \<open>strerror_r\<close> returns for an array of 512 bytes.\<close>

definition getErrnoMsg :: "(int \<Rightarrow> nat \<Rightarrow> string) \<Rightarrow> int \<Rightarrow> string" where
  "getErrnoMsg strerror_r savedErrno = strerror_r savedErrno 512"

text \<open>
  The constructor of \<open>Logger::Impl\<close>, and that of \<open>Logger\<close>, which passes no error number.
\<close>

definition Impl_new ::
    "(int \<Rightarrow> tm) \<Rightarrow> (int \<Rightarrow> nat \<Rightarrow> string) \<Rightarrow> int \<Rightarrow> log_level \<Rightarrow> int \<Rightarrow> string \<Rightarrow> int \<Rightarrow> logger res" where
  "Impl_new localtime strerror_r now level savedErrno filename line =
     res_bind (formatTime localtime now (FixedBuffer_new kSmallBufferSize)) (\<lambda>b.
       res_bind (stream_put (LGeneral (getLevelName level) 6) b) (\<lambda>b'.
         res_bind
           (if savedErrno \<noteq> 0
            then stream_puts [LStr (getErrnoMsg strerror_r savedErrno), LStr '' (errno='', LInt savedErrno,
              LStr '') ''] b'
            else Inr b')
           (\<lambda>b''. Inr \<lparr>lg_stream = b'', lg_level = level, lg_line = line,
                      lg_basename = SourceFile_new filename\<rparr>)))"

definition Logger_new :: "(int \<Rightarrow> tm) \<Rightarrow> int \<Rightarrow> string \<Rightarrow> int \<Rightarrow> log_level \<Rightarrow> logger res" where
  "Logger_new localtime now filename line level =
     Impl_new localtime (\<lambda>_ _. []) now level 0 filename line"

definition Logger_put :: "log_item list \<Rightarrow> logger \<Rightarrow> logger res" where
  "Logger_put xs lg = res_bind (stream_puts xs (lg_stream lg)) (\<lambda>b. Inr (lg\<lparr>lg_stream := b\<rparr>))"

definition Logger_finish :: "logger \<Rightarrow> logger res" where
  "Logger_finish lg = Logger_put [LStr '' - '', LGeneral (lg_basename lg) (int (length (lg_basename lg))),
     LChar (CHR '':''), LInt (lg_line lg), LChar (CHR 0x0A)] lg"

text \<open>The destructor hands the line to the output function; a fatal line ends the process.\<close>

datatype log_end = Continue | Aborted

definition Logger_dtor :: "logger \<Rightarrow> (string \<times> log_end) res" where
  "Logger_dtor lg = res_bind (Logger_finish lg) (\<lambda>lg'.
     Inr (fb_bytes (lg_stream lg'), if lg_level lg' = FATAL then Aborted else Continue))"

text \<open>A statement \<open>LOG_XXX << item << ...\<close>.\<close>

definition log_statement ::
    "(int \<Rightarrow> tm) \<Rightarrow> int \<Rightarrow> string \<Rightarrow> int \<Rightarrow> log_level \<Rightarrow> log_item list \<Rightarrow> (string \<times> log_end) res" where
  "log_statement localtime now filename line level xs =
     res_bind (Logger_new localtime now filename line level)
       (\<lambda>lg. res_bind (Logger_put xs lg) Logger_dtor)"

section \<open>Lemmas\<close>

lemma smod_10: "n smod 10 = sgn n * (\<bar>n\<bar> mod (10 :: int))"
proof -
  have "\<bar>n\<bar> div 10 * 10 + \<bar>n\<bar> mod 10 = \<bar>n\<bar>" by (rule div_mult_mod_eq)
  then show ?thesis
    by (cases n "0 :: int" rule: linorder_cases)
       (simp_all add: signed_modulo_int_def signed_divide_int_def)
qed

lemma digits_char:
  assumes "\<bar>r\<bar> < (10 :: int)"
  shows "digits ! nat (9 + r) = dec_digit (nat \<bar>r\<bar>)"
proof -
  have "\<bar>r\<bar> = 0 \<or> \<bar>r\<bar> = 1 \<or> \<bar>r\<bar> = 2 \<or> \<bar>r\<bar> = 3 \<or> \<bar>r\<bar> = 4 \<or> \<bar>r\<bar> = 5 \<or> \<bar>r\<bar> = 6 \<or> \<bar>r\<bar> = 7 \<or>
      \<bar>r\<bar> = 8 \<or> \<bar>r\<bar> = 9"
    using assms by presburger
  then have "r \<in> {0, 1, 2, 3, 4, 5, 6, 7, 8, 9, -1, -2, -3, -4, -5, -6, -7, -8, -9}"
    by (auto simp: abs_if split: if_splits)
  then show ?thesis
    by (elim insertE) (simp_all add: digits_def dec_digit_def char_of_def bit_0)
qed

lemma format_loop_dec: "format_loop n = rev (dec (nat \<bar>n\<bar>))"
proof (induction n rule: format_loop.induct)
  case (1 n)
  let ?r = "n smod 10" and ?q = "n sdiv 10"
  have r: "\<bar>?r\<bar> = \<bar>n\<bar> mod 10" by (simp add: smod_10 abs_mult sgn_if)
  then have d: "digits ! nat (9 + ?r) = dec_digit (nat \<bar>n\<bar> mod 10)"
    using digits_char [of ?r] by (simp add: nat_mod_distrib)
  have q: "nat \<bar>?q\<bar> = nat \<bar>n\<bar> div 10" by (simp add: abs_sdiv_10 nat_div_distrib)
  have q0: "?q = 0 \<longleftrightarrow> nat \<bar>n\<bar> < 10"
    using abs_sdiv_10 [of n] by linarith
  show ?case
  proof (cases "nat \<bar>n\<bar> < 10")
    case True
    then show ?thesis
      using d q0 by (subst format_loop.simps, subst dec.simps) (simp add: Let_def)
  next
    case False
    then show ?thesis
      using 1 [OF refl refl] d q q0
      by (subst format_loop.simps, subst dec.simps) (simp add: Let_def)
  qed
qed

lemma rev_format: "rev (format_loop n @ (if n < 0 then ''-'' else [])) = dec_int n"
  by (simp add: format_loop_dec dec_int_def)

lemma length_format_loop: "length (format_loop n @ (if n < 0 then ''-'' else [])) = length (dec_int n)"
  using arg_cong [OF rev_format [of n], of length] by simp

lemma length_dec_int_64: "\<bar>n\<bar> < 2 ^ 64 \<Longrightarrow> length (dec_int n) \<le> 21"
  using length_dec_le [of "nat \<bar>n\<bar>" 19] by (auto simp: dec_int_def nat_less_iff)

text \<open>A buffer that is never full, and what fits.\<close>

definition fb_inv :: "fixed_buffer \<Rightarrow> bool" where
  "fb_inv b \<longleftrightarrow> length (fb_bytes b) < fb_capacity b"

lemma fb_inv_append [inv_intros]: "fb_inv b \<Longrightarrow> fb_inv (fb_append s b)"
  by (auto simp: fb_inv_def fb_append_def fb_avail_def)

lemma fb_append_fits:
  "length (fb_bytes b) + length s < fb_capacity b \<Longrightarrow> fb_append s b = b\<lparr>fb_bytes := fb_bytes b @ s\<rparr>"
  by (simp add: fb_append_def fb_avail_def)

lemma formatInteger_ok:
  assumes "\<bar>n\<bar> < 2 ^ 64"
  shows "formatInteger n b =
    Inr (if fb_avail b \<ge> 32 then b\<lparr>fb_bytes := fb_bytes b @ dec_int n\<rparr> else b)"
  using length_dec_int_64 [OF assms] rev_format [of n] length_format_loop [of n]
  by (simp add: formatInteger_def kMaxNumberSize_def Let_def)

text \<open>Widths of padded numbers.\<close>

lemma length_zero_padded:
  assumes "0 \<le> i" and "i < 10 ^ Suc k"
  shows "length (zero_padded (Suc k) i) = Suc k"
proof -
  have "length (dec (nat i)) \<le> Suc k"
    using length_dec_le [of "nat i" k] assms by (simp add: nat_less_iff)
  then show ?thesis using assms(1) by (simp add: zero_padded_def)
qed

lemma length_zero_padded_2: "0 \<le> i \<Longrightarrow> i < 100 \<Longrightarrow> length (zero_padded 2 i) = 2"
  using length_zero_padded [of i 1] by (simp add: numeral_2_eq_2)

lemma length_zero_padded_6: "0 \<le> i \<Longrightarrow> i < 1000000 \<Longrightarrow> length (zero_padded 6 i) = 6"
  using length_zero_padded [of i 5] by (simp add: eval_nat_numeral)

lemma length_blank_padded_4: "0 \<le> i \<Longrightarrow> i < 10000 \<Longrightarrow> length (blank_padded 4 i) = 4"
  using length_dec_le [of "nat i" 3] by (simp add: blank_padded_def dec_int_def nat_less_iff)

text \<open>The calendar fields that \<open>localtime\<close> documents.\<close>

definition tm_ok :: "tm \<Rightarrow> bool" where
  "tm_ok t \<longleftrightarrow> 0 \<le> tm_year t + 1900 \<and> tm_year t + 1900 < 10000 \<and> 0 \<le> tm_mon t \<and> tm_mon t < 12 \<and>
     1 \<le> tm_mday t \<and> tm_mday t \<le> 31 \<and> 0 \<le> tm_hour t \<and> tm_hour t < 24 \<and> 0 \<le> tm_min t \<and>
     tm_min t < 60 \<and> 0 \<le> tm_sec t \<and> tm_sec t \<le> 60"

definition minute_text :: "tm \<Rightarrow> string" where
  "minute_text tm = blank_padded 4 (tm_year tm + 1900) @ ''/'' @ zero_padded 2 (tm_mon tm + 1) @ ''/'' @
     zero_padded 2 (tm_mday tm) @ '' '' @ zero_padded 2 (tm_hour tm) @ '':'' @
     zero_padded 2 (tm_min tm) @ '':''"

lemma length_minute_text: "tm_ok t \<Longrightarrow> length (minute_text t) = 17"
  by (simp add: minute_text_def tm_ok_def length_zero_padded_2 length_blank_padded_4)

lemma time_text_minute: "time_text ''/'' t = minute_text t @ zero_padded 2 (tm_sec t)"
  by (simp add: time_text_def minute_text_def)

lemma take_in_array:
  "k \<le> length s \<Longrightarrow> length s < n \<Longrightarrow> take k (in_array n s) = take k s \<and> length (in_array n s) = n"
  by (simp add: in_array_def)

text \<open>The text of a log item, and the items the overloads can receive.\<close>

fun item_text :: "log_item \<Rightarrow> string" where
  "item_text (LBool express) = (if express then ''true'' else ''false'')"
| "item_text (LInt number) = dec_int number"
| "item_text (LDouble text) = take 31 text"
| "item_text (LChar c) = [c]"
| "item_text (LStr str) = str"
| "item_text (LGeneral data len) = take (nat len) data"

fun item_ok :: "log_item \<Rightarrow> bool" where
  "item_ok (LInt number) \<longleftrightarrow> \<bar>number\<bar> < 2 ^ 64"
| "item_ok (LGeneral data len) \<longleftrightarrow> 0 \<le> len \<and> nat len \<le> length data"
| "item_ok x \<longleftrightarrow> True"

lemma stream_put_bounded:
  "item_ok x \<Longrightarrow> fb_inv b \<Longrightarrow>
     \<exists>b'. stream_put x b = Inr b' \<and> fb_inv b' \<and> fb_capacity b' = fb_capacity b"
proof (cases x)
  case (LInt n)
  then show "item_ok x \<Longrightarrow> fb_inv b \<Longrightarrow> ?thesis"
    using length_dec_int_64 [of n]
    by (auto simp: formatInteger_ok fb_inv_def fb_avail_def)
qed (auto simp: inv_intros fb_append_def GeneralTemplate_put_def fb_inv_def fb_avail_def)

lemma stream_puts_bounded:
  "list_all item_ok xs \<Longrightarrow> fb_inv b \<Longrightarrow>
     \<exists>b'. stream_puts xs b = Inr b' \<and> fb_inv b' \<and> fb_capacity b' = fb_capacity b"
proof (induction xs arbitrary: b)
  case (Cons x xs)
  then obtain b1 where "stream_put x b = Inr b1" "fb_inv b1" "fb_capacity b1 = fb_capacity b"
    using stream_put_bounded [of x b] by auto
  with Cons.IH [of b1] Cons.prems show ?case by simp
qed simp

lemma stream_put_fits:
  "item_ok x \<Longrightarrow> length (fb_bytes b) + length (item_text x) + 32 \<le> fb_capacity b \<Longrightarrow>
     stream_put x b = Inr (b\<lparr>fb_bytes := fb_bytes b @ item_text x\<rparr>)"
  by (cases x) (simp_all add: fb_append_fits formatInteger_ok fb_avail_def GeneralTemplate_put_def)

lemma stream_puts_fits:
  "list_all item_ok xs \<Longrightarrow> length (fb_bytes b) + length (concat (map item_text xs)) + 32 \<le> fb_capacity b \<Longrightarrow>
     stream_puts xs b = Inr (b\<lparr>fb_bytes := fb_bytes b @ concat (map item_text xs)\<rparr>)"
proof (induction xs arbitrary: b)
  case (Cons x xs)
  then show ?case by (simp add: stream_put_fits)
qed simp

lemma stream_puts_append:
  "stream_puts (xs @ ys) b = res_bind (stream_puts xs b) (stream_puts ys)"
proof (induction xs arbitrary: b)
  case (Cons x xs)
  then show ?case by (cases "stream_put x b") auto
qed simp

text \<open>A whole statement is one run of the stream over its items.\<close>

definition prefix_items :: "(int \<Rightarrow> tm) \<Rightarrow> int \<Rightarrow> log_level \<Rightarrow> log_item list" where
  "prefix_items localtime now level =
     [LGeneral (in_array 64 (time_text ''/'' (localtime (now sdiv kMicroSecondsPerSecond)))) 17,
      LGeneral (in_array 32 (zero_padded 6 (now smod kMicroSecondsPerSecond) @ '' '')) 7,
      LGeneral (getLevelName level) 6]"

definition suffix_items :: "string \<Rightarrow> int \<Rightarrow> log_item list" where
  "suffix_items filename line = [LStr '' - '', LGeneral (SourceFile_new filename)
     (int (length (SourceFile_new filename))), LChar (CHR '':''), LInt line, LChar (CHR 0x0A)]"

lemma stream_puts_fun:
  "stream_puts [] = Inr" "stream_puts (x # xs) = (\<lambda>b. res_bind (stream_put x b) (stream_puts xs))"
  by (rule ext, simp)+

lemma log_statement_items:
  "log_statement localtime now filename line level xs =
     res_bind (stream_puts (prefix_items localtime now level @ xs @ suffix_items filename line)
        (FixedBuffer_new kSmallBufferSize))
       (\<lambda>b. Inr (fb_bytes b, if level = FATAL then Aborted else Continue))"
  by (simp add: log_statement_def Logger_new_def Impl_new_def formatTime_def Let_def Logger_put_def Logger_dtor_def
      Logger_finish_def prefix_items_def suffix_items_def stream_puts_append stream_puts_fun
      res_bind_assoc del: stream_puts.simps stream_put.simps)

lemma prefix_items_text:
  assumes "tm_ok (localtime (now sdiv kMicroSecondsPerSecond))" and "0 \<le> now"
  shows "list_all item_ok (prefix_items localtime now level)"
    and "concat (map item_text (prefix_items localtime now level)) =
      minute_text (localtime (now sdiv kMicroSecondsPerSecond)) @
      zero_padded 6 (now smod kMicroSecondsPerSecond) @ '' '' @ getLevelName level"
proof -
  let ?t = "localtime (now sdiv kMicroSecondsPerSecond)"
  let ?u = "zero_padded 6 (now smod kMicroSecondsPerSecond)"
  have m: "now smod kMicroSecondsPerSecond = now mod 1000000"
    using assms(2) by (simp add: signed_modulo_int_def signed_divide_int_def kMicroSecondsPerSecond_def
        sgn_if minus_div_mult_eq_mod)
  then have u: "length ?u = 6" by (simp add: length_zero_padded_6)
  have s: "length (zero_padded 2 (tm_sec ?t)) = 2"
    using assms(1) by (intro length_zero_padded_2) (auto simp: tm_ok_def)
  have t: "take 17 (in_array 64 (time_text ''/'' ?t)) = minute_text ?t"
    "length (in_array 64 (time_text ''/'' ?t)) = 64"
    using take_in_array [of 17 "time_text ''/'' ?t" 64] length_minute_text [OF assms(1)] s
    by (simp_all add: time_text_minute)
  have v: "take 7 (in_array 32 (?u @ '' '')) = ?u @ '' ''" "length (in_array 32 (?u @ '' '')) = 32"
    using take_in_array [of 7 "?u @ '' ''" 32] u by simp_all
  have l: "length (getLevelName level) = 6" by (cases level) simp_all
  show "list_all item_ok (prefix_items localtime now level)"
    using t v l by (simp add: prefix_items_def)
  show "concat (map item_text (prefix_items localtime now level)) =
      minute_text ?t @ ?u @ '' '' @ getLevelName level"
    using t v l by (simp add: prefix_items_def)
qed

lemma suffix_items_text:
  assumes "\<bar>line\<bar> < 2 ^ 31"
  shows "list_all item_ok (suffix_items filename line)"
    and "concat (map item_text (suffix_items filename line)) =
      '' - '' @ SourceFile_new filename @ '':'' @ dec_int line @ [CHR 0x0A]"
  using assms by (simp_all add: suffix_items_def)

section \<open>Properties\<close>

text \<open>
  C31: integers are printed in decimal. For every value of every integer overload (up to
  64 bits, signed or unsigned, the most negative one included), \<open>formatInteger\<close> stays
  inside the buffer, its terminating byte included, and appends exactly the decimal
  representation with its sign, which reads back as the value; with less than 32 bytes
  left it appends nothing.
\<close>

theorem formatInteger_decimal:
  assumes "- (2 ^ 63) \<le> n" and "n < 2 ^ 64"
  shows "formatInteger n b =
      Inr (if fb_avail b \<ge> 32 then b\<lparr>fb_bytes := fb_bytes b @ dec_int n\<rparr> else b) \<and>
    length (dec_int n) + 1 \<le> 32 \<and>
    (if n < 0 then dec_int n = ''-'' @ dec (nat (- n)) \<and> int (undec (dec (nat (- n)))) = - n
     else int (undec (dec_int n)) = n)"
proof -
  have n: "\<bar>n\<bar> < 2 ^ 64" using assms by simp
  then show ?thesis
    using formatInteger_ok [OF n] length_dec_int_64 [OF n] by (auto simp: dec_int_def)
qed

theorem formatInteger_decimal_witness:
  "formatInteger (- 9223372036854775808) (FixedBuffer_new kSmallBufferSize) =
     Inr ((FixedBuffer_new kSmallBufferSize)\<lparr>fb_bytes := dec_int (- 9223372036854775808)\<rparr>)"
  using formatInteger_decimal [of "- 9223372036854775808" "FixedBuffer_new kSmallBufferSize"]
  by (simp add: fb_avail_def FixedBuffer_new_def kSmallBufferSize_def)

lemma log_line_bounded:
  assumes "tm_ok (localtime (now sdiv kMicroSecondsPerSecond))" and "0 \<le> now"
    and "\<bar>line\<bar> < 2 ^ 31" and "list_all item_ok xs"
  shows "\<exists>out. log_statement localtime now filename line level xs =
    Inr (out, if level = FATAL then Aborted else Continue) \<and> length out < 4096"
proof -
  let ?items = "prefix_items localtime now level @ xs @ suffix_items filename line"
  let ?b = "FixedBuffer_new kSmallBufferSize"
  have ok: "list_all item_ok ?items"
    using prefix_items_text [of localtime now, OF assms(1,2), of level] suffix_items_text [OF assms(3), of filename]
      assms(4) by simp
  have "fb_inv ?b" by (simp add: fb_inv_def FixedBuffer_new_def kSmallBufferSize_def)
  from stream_puts_bounded [OF ok this] obtain b where
    "stream_puts ?items ?b = Inr b" "fb_inv b" "fb_capacity b = 4096"
    by (auto simp: FixedBuffer_new_def kSmallBufferSize_def)
  then show ?thesis by (auto simp: log_statement_items fb_inv_def)
qed

text \<open>
  The layout of a log line. A statement whose parts fit the buffer of 4096 bytes
  outputs the date and time up to the minute, the microseconds, the level, the items in
  order, the base name of the source file and the line number, and a line feed, and goes
  on unless the level is FATAL, which aborts. Whatever the items are, the line never
  exceeds the buffer.
\<close>

theorem log_line_layout:
  assumes "tm_ok (localtime (now sdiv kMicroSecondsPerSecond))" and "0 \<le> now"
    and "\<bar>line\<bar> < 2 ^ 31" and "list_all item_ok xs"
  shows "(\<exists>out. log_statement localtime now filename line level xs =
       Inr (out, if level = FATAL then Aborted else Continue) \<and> length out < 4096) \<and>
    (length (concat (map item_text xs)) + length (SourceFile_new filename) \<le> 4000 \<longrightarrow>
     log_statement localtime now filename line level xs =
       Inr (minute_text (localtime (now sdiv kMicroSecondsPerSecond)) @
            zero_padded 6 (now smod kMicroSecondsPerSecond) @ '' '' @ getLevelName level @
            concat (map item_text xs) @ '' - '' @ SourceFile_new filename @ '':'' @ dec_int line @ [CHR 0x0A],
            if level = FATAL then Aborted else Continue))"
proof -
  let ?items = "prefix_items localtime now level @ xs @ suffix_items filename line"
  let ?b = "FixedBuffer_new kSmallBufferSize"
  note pre = prefix_items_text [of localtime now, OF assms(1,2), of level] and suf = suffix_items_text [OF assms(3), of filename]
  have ok: "list_all item_ok ?items" using pre(1) suf(1) assms(4) by simp
  have u: "length (zero_padded 6 (now smod kMicroSecondsPerSecond)) = 6"
    using assms(2) by (simp add: signed_modulo_int_def signed_divide_int_def kMicroSecondsPerSecond_def
        sgn_if minus_div_mult_eq_mod length_zero_padded_6)
  have "length (dec_int line) \<le> 21" using length_dec_int_64 [of line] assms(3) by simp
  moreover have "length (getLevelName level) = 6" by (cases level) simp_all
  ultimately have "length (concat (map item_text ?items)) + 32 \<le> 4096"
    if "length (concat (map item_text xs)) + length (SourceFile_new filename) \<le> 4000"
    using that pre(2) suf(2) length_minute_text [OF assms(1)] u by simp
  then have "stream_puts ?items ?b = Inr (?b\<lparr>fb_bytes := concat (map item_text ?items)\<rparr>)"
    if "length (concat (map item_text xs)) + length (SourceFile_new filename) \<le> 4000"
    using that stream_puts_fits [OF ok, of ?b]
    by (simp add: FixedBuffer_new_def kSmallBufferSize_def del: map_append concat_append)
  then show ?thesis
    using log_line_bounded [of localtime now, OF assms] pre(2) suf(2) by (simp add: log_statement_items)
qed

definition noon :: tm where
  "noon = \<lparr>tm_year = 125, tm_mon = 2, tm_mday = 7, tm_hour = 12, tm_min = 0, tm_sec = 5\<rparr>"

theorem log_line_layout_witness:
  "\<exists>out. log_statement (\<lambda>_. noon) 1741348805000042 ''src/Acceptor.cpp'' 60 ERROR
      [LStr ''accept Err! '', LInt (- 1)] = Inr (out, Continue) \<and> length out < 4096"
  using log_line_layout [of "\<lambda>_. noon" 1741348805000042 60 "[LStr ''accept Err! '', LInt (- 1)]"
      "''src/Acceptor.cpp''" ERROR]
  by (simp add: noon_def tm_ok_def)

text \<open>
  Log lines do not show the seconds. The 17 bytes that \<open>formatTime\<close> takes of the
  formatted time end before the seconds, so two moments that differ in their seconds
  only give the same line.
\<close>

theorem seconds_are_lost:
  assumes "tm_ok (localtime (now sdiv kMicroSecondsPerSecond))" and "0 \<le> now"
    and "0 \<le> s" and "s \<le> 60"
  shows "log_statement (\<lambda>t. (localtime t)\<lparr>tm_sec := s\<rparr>) now filename line level xs =
    log_statement localtime now filename line level xs"
proof -
  let ?t = "localtime (now sdiv kMicroSecondsPerSecond)"
  have "take 17 (in_array 64 (time_text ''/'' t)) = minute_text t \<and>
      length (in_array 64 (time_text ''/'' t)) = 64" if "tm_ok t" for t
    using take_in_array [of 17 "time_text ''/'' t" 64] length_minute_text [OF that]
      length_zero_padded_2 [of "tm_sec t"] that
    by (simp add: time_text_minute tm_ok_def)
  moreover have "tm_ok (?t\<lparr>tm_sec := s\<rparr>)" using assms by (simp add: tm_ok_def)
  moreover have "minute_text (?t\<lparr>tm_sec := s\<rparr>) = minute_text ?t" by (simp add: minute_text_def)
  ultimately have "stream_put (LGeneral (in_array 64 (time_text ''/'' (?t\<lparr>tm_sec := s\<rparr>))) 17) b =
      stream_put (LGeneral (in_array 64 (time_text ''/'' ?t)) 17) b" for b
    using assms(1) by (simp add: GeneralTemplate_put_def)
  then show ?thesis
    by (simp add: log_statement_items prefix_items_def del: stream_put.simps)
qed

theorem seconds_are_lost_witness:
  "log_statement (\<lambda>t. noon\<lparr>tm_sec := 59\<rparr>) 7 ''a.cpp'' 1 INFO [] =
    log_statement (\<lambda>t. noon) 7 ''a.cpp'' 1 INFO []"
  using seconds_are_lost [of "\<lambda>t. noon" 7 59 "''a.cpp''" 1 INFO "[]"]
  by (simp add: noon_def tm_ok_def)

end
