(* ===== verification/Log_File.thy ===== *)
theory Log_File
  imports Log_Stream
begin

text \<open>
  The file side of the log: \<open>FileUtil\<close> (\<open>src/include/FileUtil.h\<close>,
  \<open>src/src/log/FileUtil.cpp\<close>) and \<open>LogFile\<close> (\<open>src/include/LogFile.h\<close>,
  \<open>src/src/log/LogFile.cpp\<close>).

  The disk is the sequence of pieces that were written to named files opened for
  appending. The C library is a parameter (\<open>log_env\<close>): whether a file can be opened,
  how many bytes \<open>fwrite\<close> takes and whether it sets the error indicator, and the date
  text of a time. The times that the code reads are arguments.
\<close>

section \<open>Data and operations\<close>

type_synonym disk = "(string \<times> string) list"

definition disk_file :: "string \<Rightarrow> disk \<Rightarrow> string" where
  "disk_file name d = concat (map snd (filter (\<lambda>c. fst c = name) d))"

record log_env =
  le_fopen :: "string \<Rightarrow> bool"
  le_fwrite :: "string \<Rightarrow> string \<Rightarrow> nat \<times> bool"
  le_date :: "int \<Rightarrow> string"

subsection \<open>FileUtil\<close>

record file_util =
  fu_name :: string
  fu_buffered :: string
  fu_writtenBytes :: nat

text \<open>When the file cannot be opened, \<open>setbuffer\<close> is called on a null pointer.\<close>

definition FileUtil_new :: "log_env \<Rightarrow> string \<Rightarrow> file_util res" where
  "FileUtil_new env name =
     (if le_fopen env name then Inr \<lparr>fu_name = name, fu_buffered = [], fu_writtenBytes = 0\<rparr>
      else Inl BadPointer)"

definition FileUtil_flush :: "file_util \<Rightarrow> disk \<Rightarrow> file_util \<times> disk" where
  "FileUtil_flush f d = (f\<lparr>fu_buffered := []\<rparr>, d @ [(fu_name f, fu_buffered f)])"

text \<open>The destructor closes the file, which writes what is buffered.\<close>

definition FileUtil_dtor :: "file_util \<Rightarrow> disk \<Rightarrow> disk" where
  "FileUtil_dtor f d = snd (FileUtil_flush f d)"

definition FileUtil_write :: "log_env \<Rightarrow> string \<Rightarrow> file_util \<Rightarrow> (nat \<times> bool) \<times> file_util" where
  "FileUtil_write env data f =
     (let r = le_fwrite env (fu_buffered f) data
      in (r, f\<lparr>fu_buffered := fu_buffered f @ take (fst r) data\<rparr>))"

partial_function (option) file_loop ::
    "log_env \<Rightarrow> string \<Rightarrow> nat \<Rightarrow> file_util \<Rightarrow> (nat \<times> file_util) option" where
  "file_loop env data writen f =
     (if writen \<noteq> length data then
        (let remain = length data - writen; (r, f') = FileUtil_write env (drop writen data) f
         in if fst r \<noteq> remain \<and> snd r then Some (writen, f')
            else file_loop env data (writen + fst r) f')
      else Some (writen, f))"

definition FileUtil_append :: "log_env \<Rightarrow> string \<Rightarrow> file_util \<Rightarrow> file_util option" where
  "FileUtil_append env data f =
     map_option (\<lambda>(writen, f'). f'\<lparr>fu_writtenBytes := fu_writtenBytes f' + writen\<rparr>)
       (file_loop env data 0 f)"

subsection \<open>LogFile\<close>

definition kRollPerSeconds :: int where "kRollPerSeconds = 60 * 60 * 24"

record log_file =
  lf_basename :: string
  lf_rollsize :: int
  lf_flushInterval :: int
  lf_checkEveryN :: int
  lf_count :: int
  lf_startOfPeriod :: int
  lf_lastRoll :: int
  lf_lastFlush :: int
  lf_file :: "file_util option"
  lf_disk :: disk

definition getLogFileName :: "log_env \<Rightarrow> string \<Rightarrow> int \<Rightarrow> string" where
  "getLogFileName env basename now = basename @ le_date env now @ ''.log''"

text \<open>The new file is opened before the old one is closed.\<close>

definition rollFile :: "log_env \<Rightarrow> int \<Rightarrow> log_file \<Rightarrow> (bool \<times> log_file) res" where
  "rollFile env now lf =
     (let filename = getLogFileName env (lf_basename lf) now;
          start = now sdiv kRollPerSeconds * kRollPerSeconds
      in if now > lf_lastRoll lf then
           res_bind (FileUtil_new env filename) (\<lambda>f.
             Inr (True, lf\<lparr>lf_lastFlush := now, lf_lastRoll := now, lf_startOfPeriod := start,
               lf_file := Some f,
               lf_disk := (case lf_file lf of None \<Rightarrow> lf_disk lf
                           | Some old \<Rightarrow> FileUtil_dtor old (lf_disk lf))\<rparr>))
         else Inr (False, lf))"

text \<open>The constructor leaves \<open>count_\<close> as it finds it.\<close>

definition LogFile_new ::
    "log_env \<Rightarrow> disk \<Rightarrow> int \<Rightarrow> int \<Rightarrow> string \<Rightarrow> int \<Rightarrow> int \<Rightarrow> int \<Rightarrow> log_file res" where
  "LogFile_new env d count now basename rollsize flushInterval checkEveryN =
     res_bind (rollFile env now \<lparr>lf_basename = basename, lf_rollsize = rollsize,
         lf_flushInterval = flushInterval, lf_checkEveryN = checkEveryN, lf_count = count,
         lf_startOfPeriod = 0, lf_lastRoll = 0, lf_lastFlush = 0, lf_file = None, lf_disk = d\<rparr>)
       (\<lambda>(b, lf). Inr lf)"

definition LogFile_flush :: "log_file \<Rightarrow> log_file res" where
  "LogFile_flush lf =
     (case lf_file lf of
        None \<Rightarrow> Inl BadPointer
      | Some f \<Rightarrow>
          (let (f', d) = FileUtil_flush f (lf_disk lf)
           in Inr (lf\<lparr>lf_file := Some f', lf_disk := d\<rparr>)))"

text \<open>The two roll conditions of \<open>appendInlock\<close>, and the flush condition.\<close>

definition roll_if_due :: "log_env \<Rightarrow> int \<Rightarrow> int \<Rightarrow> file_util \<Rightarrow> log_file \<Rightarrow> log_file res" where
  "roll_if_due env now now' f lf =
     (if int (fu_writtenBytes f) > lf_rollsize lf
      then res_bind (rollFile env now' lf) (\<lambda>(b, lf'). Inr lf')
      else if lf_count lf \<ge> lf_checkEveryN lf then
        (let lf1 = lf\<lparr>lf_count := 0\<rparr>;
             thisPeriod = now sdiv kRollPerSeconds * kRollPerSeconds
         in if thisPeriod \<noteq> lf_startOfPeriod lf1
            then res_bind (rollFile env now' lf1) (\<lambda>(b, lf'). Inr lf')
            else Inr lf1)
      else Inr lf)"

definition flush_if_due :: "int \<Rightarrow> log_file \<Rightarrow> log_file res" where
  "flush_if_due now lf =
     (if now - lf_lastFlush lf > lf_flushInterval lf
      then LogFile_flush (lf\<lparr>lf_lastFlush := now\<rparr>) else Inr lf)"

text \<open>\<open>now\<close> is the time that the call reads, \<open>now'\<close> the one that \<open>rollFile\<close> reads.\<close>

definition appendInlock ::
    "log_env \<Rightarrow> int \<times> int \<Rightarrow> string \<Rightarrow> log_file \<Rightarrow> log_file res option" where
  "appendInlock env ts data lf =
     (case lf_file lf of
        None \<Rightarrow> Some (Inl BadPointer)
      | Some f \<Rightarrow>
          (case FileUtil_append env data f of
             None \<Rightarrow> None
           | Some f' \<Rightarrow>
               Some (res_bind
                 (roll_if_due env (fst ts) (snd ts) f'
                    (lf\<lparr>lf_file := Some f', lf_count := lf_count lf + 1\<rparr>))
                 (flush_if_due (fst ts)))))"

definition LogFile_append ::
    "log_env \<Rightarrow> int \<times> int \<Rightarrow> string \<Rightarrow> log_file \<Rightarrow> log_file res option" where
  "LogFile_append = appendInlock"

section \<open>A sink of bytes\<close>

text \<open>
  What a back end of the log promises: writing returns and adds the bytes at the end of
  everything written before, and flushing changes nothing of it.
\<close>

locale log_sink =
  fixes ok :: "'s \<Rightarrow> bool"
    and content :: "'s \<Rightarrow> string"
    and emit :: "'t \<Rightarrow> string \<Rightarrow> 's \<Rightarrow> 's res option"
    and sync :: "'s \<Rightarrow> 's res"
  assumes emit_ok: "ok s \<Longrightarrow> \<exists>s'. emit t data s = Some (Inr s') \<and> ok s' \<and> content s' = content s @ data"
    and sync_ok: "ok s \<Longrightarrow> \<exists>s'. sync s = Inr s' \<and> ok s' \<and> content s' = content s"
begin

lemma emit_sync:
  assumes "ok s"
  shows "\<exists>s1 s2. emit t data s = Some (Inr s1) \<and> sync s1 = Inr s2 \<and> ok s2 \<and>
    content s2 = content s @ data"
proof -
  obtain s1 where s1: "emit t data s = Some (Inr s1)" "ok s1" "content s1 = content s @ data"
    using emit_ok [OF assms] by blast
  then show ?thesis using sync_ok [OF s1(2)] by auto
qed

end

section \<open>Lemmas\<close>

text \<open>What \<open>fwrite\<close> documents: a short count means that the error indicator is set.\<close>

definition fwrite_ok :: "log_env \<Rightarrow> bool" where
  "fwrite_ok env \<longleftrightarrow> (\<forall>s d. fst (le_fwrite env s d) \<le> length d \<and>
     (fst (le_fwrite env s d) < length d \<longrightarrow> snd (le_fwrite env s d)))"

text \<open>A disk with room, on which files can be opened.\<close>

definition disk_ok :: "log_env \<Rightarrow> bool" where
  "disk_ok env \<longleftrightarrow> (\<forall>s d. fst (le_fwrite env s d) = length d) \<and> (\<forall>n. le_fopen env n)"

lemma FileUtil_append_cases:
  assumes "fwrite_ok env"
  shows "FileUtil_append env data f =
    (let n = fst (le_fwrite env (fu_buffered f) data)
     in Some (f\<lparr>fu_buffered := fu_buffered f @ take n data,
                fu_writtenBytes := fu_writtenBytes f + (if n = length data then n else 0)\<rparr>))"
proof (cases "data = []")
  case True
  then show ?thesis by (simp add: FileUtil_append_def file_loop.simps Let_def)
next
  case False
  let ?n = "fst (le_fwrite env (fu_buffered f) data)"
  have n: "?n \<le> length data" "?n < length data \<longrightarrow> snd (le_fwrite env (fu_buffered f) data)"
    using assms by (auto simp: fwrite_ok_def)
  show ?thesis
  proof (cases "?n = length data")
    case True
    then show ?thesis
      using False
      by (simp add: FileUtil_append_def FileUtil_write_def Let_def file_loop.simps [of env data 0]
          file_loop.simps [of env data "length data"])
  next
    case short: False
    then show ?thesis
      using False n
      by (simp add: FileUtil_append_def FileUtil_write_def Let_def file_loop.simps [of env data 0])
  qed
qed

definition lf_content :: "log_file \<Rightarrow> string" where
  "lf_content lf = concat (map snd (lf_disk lf)) @
     (case lf_file lf of None \<Rightarrow> [] | Some f \<Rightarrow> fu_buffered f)"

lemma rollFile_ok:
  assumes "disk_ok env" and "lf_file lf \<noteq> None"
  shows "\<exists>b lf'. rollFile env now lf = Inr (b, lf') \<and> lf_file lf' \<noteq> None \<and> lf_content lf' = lf_content lf"
  using assms
  by (auto simp: rollFile_def Let_def FileUtil_new_def disk_ok_def lf_content_def FileUtil_dtor_def
      FileUtil_flush_def)

lemma LogFile_flush_ok:
  "lf_file lf \<noteq> None \<Longrightarrow> \<exists>lf'. LogFile_flush lf = Inr lf' \<and> lf_file lf' \<noteq> None \<and>
     lf_content lf' = lf_content lf"
  by (auto simp: LogFile_flush_def FileUtil_flush_def lf_content_def)

lemma roll_if_due_ok:
  assumes "disk_ok env" and "lf_file lf \<noteq> None"
  shows "\<exists>lf'. roll_if_due env now now' f lf = Inr lf' \<and> lf_file lf' \<noteq> None \<and>
    lf_content lf' = lf_content lf"
proof -
  have c: "lf_content (lf\<lparr>lf_count := n\<rparr>) = lf_content lf" for n
    by (simp add: lf_content_def)
  obtain b1 l1 where "rollFile env now' lf = Inr (b1, l1)" "lf_file l1 \<noteq> None" "lf_content l1 = lf_content lf"
    using rollFile_ok [OF assms] by blast
  moreover obtain b2 l2 where "rollFile env now' (lf\<lparr>lf_count := 0\<rparr>) = Inr (b2, l2)"
    "lf_file l2 \<noteq> None" "lf_content l2 = lf_content lf"
    using rollFile_ok [OF assms(1), of "lf\<lparr>lf_count := 0\<rparr>" now'] assms(2) c by auto
  ultimately show ?thesis
    using assms(2) c by (auto simp: roll_if_due_def Let_def)
qed

lemma flush_if_due_ok:
  "lf_file lf \<noteq> None \<Longrightarrow> \<exists>lf'. flush_if_due now lf = Inr lf' \<and> lf_file lf' \<noteq> None \<and>
     lf_content lf' = lf_content lf"
  using LogFile_flush_ok [of "lf\<lparr>lf_lastFlush := now\<rparr>"]
  by (auto simp: flush_if_due_def lf_content_def)

lemma LogFile_append_ok:
  assumes "disk_ok env" and "lf_file lf \<noteq> None"
  shows "\<exists>lf'. LogFile_append env t data lf = Some (Inr lf') \<and> lf_file lf' \<noteq> None \<and>
    lf_content lf' = lf_content lf @ data"
proof -
  obtain f where f: "lf_file lf = Some f" using assms(2) by blast
  have "fwrite_ok env" using assms(1) by (auto simp: fwrite_ok_def disk_ok_def)
  then have a: "FileUtil_append env data f = Some (f\<lparr>fu_buffered := fu_buffered f @ data,
      fu_writtenBytes := fu_writtenBytes f + length data\<rparr>)" (is "_ = Some ?f")
    using assms(1) by (simp add: FileUtil_append_cases disk_ok_def)
  let ?lf1 = "lf\<lparr>lf_file := Some ?f, lf_count := lf_count lf + 1\<rparr>"
  have c: "lf_content ?lf1 = lf_content lf @ data" using f by (simp add: lf_content_def)
  obtain lf2 where r: "roll_if_due env (fst t) (snd t) ?f ?lf1 = Inr lf2" "lf_file lf2 \<noteq> None"
    "lf_content lf2 = lf_content ?lf1"
    using roll_if_due_ok [OF assms(1), of ?lf1 "fst t" "snd t" ?f] by auto
  obtain lf3 where "flush_if_due (fst t) lf2 = Inr lf3" "lf_file lf3 \<noteq> None" "lf_content lf3 = lf_content lf2"
    using flush_if_due_ok [OF r(2)] by blast
  then show ?thesis
    using f a c r by (simp add: LogFile_append_def appendInlock_def)
qed

interpretation lf: log_sink "\<lambda>lf. disk_ok env \<and> lf_file lf \<noteq> None" lf_content "LogFile_append env"
  LogFile_flush for env
proof
  show "\<exists>s'. LogFile_append env t data s = Some (Inr s') \<and> (disk_ok env \<and> lf_file s' \<noteq> None) \<and>
      lf_content s' = lf_content s @ data" if "disk_ok env \<and> lf_file s \<noteq> None" for s t data
    using LogFile_append_ok that by blast
  show "\<exists>s'. LogFile_flush s = Inr s' \<and> (disk_ok env \<and> lf_file s' \<noteq> None) \<and>
      lf_content s' = lf_content s" if "disk_ok env \<and> lf_file s \<noteq> None" for s
    using LogFile_flush_ok that by blast
qed

text \<open>Any number of lines, each at times of its own.\<close>

fun append_lines ::
    "log_env \<Rightarrow> ((int \<times> int) \<times> string) list \<Rightarrow> log_file \<Rightarrow> log_file res option" where
  "append_lines env [] lf = Some (Inr lf)"
| "append_lines env ((t, data) # ls) lf =
     (case LogFile_append env t data lf of
        None \<Rightarrow> None
      | Some (Inl e) \<Rightarrow> Some (Inl e)
      | Some (Inr lf') \<Rightarrow> append_lines env ls lf')"

lemma append_lines_ok:
  "disk_ok env \<Longrightarrow> lf_file lf \<noteq> None \<Longrightarrow>
     \<exists>lf'. append_lines env ls lf = Some (Inr lf') \<and> lf_file lf' \<noteq> None \<and>
       lf_content lf' = lf_content lf @ concat (map snd ls)"
proof (induction ls arbitrary: lf)
  case (Cons l ls)
  obtain t data where l: "l = (t, data)" by (cases l)
  obtain lf1 where "LogFile_append env t data lf = Some (Inr lf1)" "lf_file lf1 \<noteq> None"
    "lf_content lf1 = lf_content lf @ data"
    using lf.emit_ok [of env lf t data] Cons.prems by blast
  with Cons.IH [OF Cons.prems(1), of lf1] l show ?case by auto
qed simp

section \<open>Properties\<close>

text \<open>
  The write loop of \<open>FileUtil\<close> ends. With an \<open>fwrite\<close> that sets the error indicator
  whenever it takes less than it is given, \<open>append\<close> returns: either all bytes are in the
  file and counted, or the bytes taken before the error are in the file but none of them
  is counted.
\<close>

theorem FileUtil_append_returns:
  assumes "fwrite_ok env"
  shows "\<exists>f' n. FileUtil_append env data f = Some f' \<and> n \<le> length data \<and>
    fu_name f' = fu_name f \<and> fu_buffered f' = fu_buffered f @ take n data \<and>
    fu_writtenBytes f' = fu_writtenBytes f + (if n = length data then length data else 0)"
proof -
  let ?n = "fst (le_fwrite env (fu_buffered f) data)"
  have "?n \<le> length data" using assms by (auto simp: fwrite_ok_def)
  then show ?thesis
    using FileUtil_append_cases [OF assms, of data f] by (auto simp: Let_def intro: exI [of _ ?n])
qed

definition full_disk_env :: log_env where
  "full_disk_env = \<lparr>le_fopen = (\<lambda>n. True), le_fwrite = (\<lambda>s d. (min 3 (length d), 3 < length d)),
     le_date = (\<lambda>t. ''2025-03-07'')\<rparr>"

theorem FileUtil_append_returns_witness:
  "\<exists>f' n. FileUtil_append full_disk_env ''abcdef'' \<lparr>fu_name = ''a'', fu_buffered = [], fu_writtenBytes = 0\<rparr> =
      Some f' \<and> n \<le> length ''abcdef'' \<and> fu_buffered f' = take n ''abcdef''"
proof -
  have "fwrite_ok full_disk_env" by (auto simp: fwrite_ok_def full_disk_env_def)
  from FileUtil_append_returns [OF this, of "''abcdef''"
      "\<lparr>fu_name = ''a'', fu_buffered = [], fu_writtenBytes = 0\<rparr>"]
  obtain f' n where "FileUtil_append full_disk_env ''abcdef''
      \<lparr>fu_name = ''a'', fu_buffered = [], fu_writtenBytes = 0\<rparr> = Some f'"
    "n \<le> length ''abcdef''" "fu_buffered f' = [] @ take n ''abcdef''"
    by auto
  then show ?thesis unfolding append_Nil by blast
qed

text \<open>
  C32: rolling loses nothing. On a disk with room, any sequence of lines appended to a
  log file, at any times, whatever rolls and flushes that causes, never fails, and the
  bytes on the disk followed by those still buffered are the earlier ones followed by
  the lines in order.
\<close>

theorem log_file_keeps_lines:
  assumes "disk_ok env" and "0 < now"
    and "LogFile_new env d count now basename rollsize flushInterval checkEveryN = Inr lf"
  shows "\<exists>lf'. append_lines env ls lf = Some (Inr lf') \<and>
    lf_content lf' = concat (map snd d) @ concat (map snd ls)"
proof -
  have "lf_file lf \<noteq> None" "lf_content lf = concat (map snd d)"
    using assms
    by (auto simp: LogFile_new_def rollFile_def Let_def FileUtil_new_def disk_ok_def lf_content_def)
  then show ?thesis using append_lines_ok [OF assms(1), of lf ls] by auto
qed

definition roomy_env :: log_env where
  "roomy_env = \<lparr>le_fopen = (\<lambda>n. True), le_fwrite = (\<lambda>s d. (length d, False)),
     le_date = (\<lambda>t. ''2025-03-07'')\<rparr>"

theorem log_file_keeps_lines_witness:
  "\<exists>lf lf'. LogFile_new roomy_env [] 0 100 ''web'' 4 3 1024 = Inr lf \<and>
    append_lines roomy_env [((101, 101), ''hello''), ((102, 102), ''world'')] lf = Some (Inr lf') \<and>
    lf_content lf' = ''helloworld''"
proof -
  obtain lf where lf: "LogFile_new roomy_env [] 0 100 ''web'' 4 3 1024 = Inr lf"
    by (simp add: LogFile_new_def rollFile_def FileUtil_new_def roomy_env_def Let_def)
  with log_file_keeps_lines [OF _ _ lf, of "[((101, 101), ''hello''), ((102, 102), ''world'')]"]
  show ?thesis by (auto simp: disk_ok_def roomy_env_def simp del: append_lines.simps)
qed

text \<open>
  Rolling by size does not limit the size of a file. The name of a log file only
  has the date, so when the size limit is exceeded and the file is rolled on the day it
  was opened, the same file is opened again for appending: it is longer than the limit,
  and goes on growing.
\<close>

theorem size_roll_reopens_same_file:
  assumes "disk_ok env" and "lf_file lf = Some f"
    and "fu_name f = getLogFileName env (lf_basename lf) t0" and "le_date env now' = le_date env t0"
    and "int (fu_writtenBytes f + length data) > lf_rollsize lf" and "now' > lf_lastRoll lf"
    and "length (disk_file (fu_name f) (lf_disk lf) @ fu_buffered f) \<ge> fu_writtenBytes f"
  shows "\<exists>lf' f'. LogFile_append env (now, now') data lf = Some (Inr lf') \<and>
    lf_file lf' = Some f' \<and> fu_name f' = fu_name f \<and> fu_writtenBytes f' = 0 \<and>
    int (length (disk_file (fu_name f) (lf_disk lf'))) > lf_rollsize lf"
proof -
  have "fwrite_ok env" using assms(1) by (auto simp: fwrite_ok_def disk_ok_def)
  then have a: "FileUtil_append env data f = Some (f\<lparr>fu_buffered := fu_buffered f @ data,
      fu_writtenBytes := fu_writtenBytes f + length data\<rparr>)"
    using assms(1) by (simp add: FileUtil_append_cases disk_ok_def)
  have name: "getLogFileName env (lf_basename lf) now' = fu_name f"
    using assms(3,4) by (simp add: getLogFileName_def)
  have "int (fu_writtenBytes f + length data) \<le>
      int (length (disk_file (fu_name f) (lf_disk lf) @ fu_buffered f @ data))"
    using assms(7) by simp
  then show ?thesis
    using assms(1,2,5,6) a name
    by (auto simp: LogFile_append_def appendInlock_def roll_if_due_def rollFile_def Let_def
        FileUtil_new_def disk_ok_def FileUtil_dtor_def FileUtil_flush_def flush_if_due_def
        LogFile_flush_def disk_file_def)
qed

theorem size_roll_reopens_same_file_witness:
  "\<exists>lf' f'. LogFile_append roomy_env (101, 101) ''hello'' \<lparr>lf_basename = ''web'', lf_rollsize = 4,
       lf_flushInterval = 3, lf_checkEveryN = 1024, lf_count = 0, lf_startOfPeriod = 0,
       lf_lastRoll = 100, lf_lastFlush = 100, lf_file = Some \<lparr>fu_name = ''web2025-03-07.log'',
         fu_buffered = [], fu_writtenBytes = 0\<rparr>, lf_disk = []\<rparr> = Some (Inr lf') \<and>
    lf_file lf' = Some f' \<and> fu_name f' = ''web2025-03-07.log'' \<and> fu_writtenBytes f' = 0 \<and>
    int (length (disk_file ''web2025-03-07.log'' (lf_disk lf'))) > 4"
  using size_roll_reopens_same_file [of roomy_env "\<lparr>lf_basename = ''web'', lf_rollsize = 4,
       lf_flushInterval = 3, lf_checkEveryN = 1024, lf_count = 0, lf_startOfPeriod = 0,
       lf_lastRoll = 100, lf_lastFlush = 100, lf_file = Some \<lparr>fu_name = ''web2025-03-07.log'',
         fu_buffered = [], fu_writtenBytes = 0\<rparr>, lf_disk = []\<rparr>"
      "\<lparr>fu_name = ''web2025-03-07.log'', fu_buffered = [], fu_writtenBytes = 0\<rparr>" 100 101 "''hello''" 101]
  by (simp add: disk_ok_def roomy_env_def getLogFileName_def)

end
