(* ===== verification/Async_Logging.thy ===== *)
theory Async_Logging
  imports Log_File
begin

text \<open>
  The class \<open>AsyncLogging\<close> (\<open>src/include/AsyncLogging.h\<close>,
  \<open>src/src/log/AsyncLogging.cpp\<close>): the front end appends log lines to a large buffer
  under a mutex; a back-end thread exchanges the full buffers for empty ones and writes
  them to a \<open>LogFile\<close>.

  A \<open>unique_ptr\<close> is an option, a section under the mutex is one step, and the threads
  interleave. The wait on the condition variable may end at any time (it has a time
  limit), so it puts no condition on the step after it.
\<close>

section \<open>Data and operations\<close>

text \<open>
  The back end: not started, at the opening of the log file, at the test of its loop,
  before the section under the mutex, writing, and ended.
\<close>

datatype backend_pc = BIdle | BOpen | BLoop | BLock | BWrite | BDone

record async_log =
  al_flushInterval :: int
  al_running :: bool
  al_basename :: string
  al_rollSize :: int
  al_current :: "fixed_buffer option"
  al_next :: "fixed_buffer option"
  al_buffers :: "fixed_buffer list"
  al_pc :: backend_pc
  al_new1 :: "fixed_buffer option"
  al_new2 :: "fixed_buffer option"
  al_toWrite :: "fixed_buffer list"
  al_index :: nat
  al_output :: "log_file option"

definition AsyncLogging_new :: "string \<Rightarrow> int \<Rightarrow> int \<Rightarrow> async_log" where
  "AsyncLogging_new basename rollSize flushInterval = \<lparr>al_flushInterval = flushInterval,
     al_running = False, al_basename = basename, al_rollSize = rollSize,
     al_current = Some (FixedBuffer_new kLargeBufferSize),
     al_next = Some (FixedBuffer_new kLargeBufferSize), al_buffers = [], al_pc = BIdle,
     al_new1 = None, al_new2 = None, al_toWrite = [], al_index = 0, al_output = None\<rparr>"

definition AsyncLogging_start :: "async_log \<Rightarrow> async_log" where
  "AsyncLogging_start a = a\<lparr>al_running := True, al_pc := BOpen\<rparr>"

text \<open>
  The beginning of \<open>threadFunc\<close>: \<open>output\<close> is a \<open>LogFile\<close> with the default arguments, and
  the two spare buffers are new.
\<close>

definition enter_thread :: "log_env \<Rightarrow> int \<Rightarrow> int \<Rightarrow> async_log \<Rightarrow> async_log res" where
  "enter_thread env count now a =
     res_bind (LogFile_new env [] count now (al_basename a) (al_rollSize a) 3 1024) (\<lambda>out.
       Inr (a\<lparr>al_output := Some out, al_new1 := Some (FixedBuffer_new kLargeBufferSize),
              al_new2 := Some (FixedBuffer_new kLargeBufferSize), al_toWrite := [], al_pc := BLoop\<rparr>))"

definition AsyncLogging_append :: "string \<Rightarrow> async_log \<Rightarrow> async_log res" where
  "AsyncLogging_append logline a =
     (case al_current a of
        None \<Rightarrow> Inl BadPointer
      | Some cur \<Rightarrow>
          if fb_avail cur > length logline then Inr (a\<lparr>al_current := Some (fb_append logline cur)\<rparr>)
          else
            (let cur' = (case al_next a of Some n \<Rightarrow> n | None \<Rightarrow> FixedBuffer_new kLargeBufferSize)
             in Inr (a\<lparr>al_buffers := al_buffers a @ [cur], al_next := None,
                       al_current := Some (fb_append logline cur')\<rparr>)))"

definition AsyncLogging_stop :: "async_log \<Rightarrow> async_log" where
  "AsyncLogging_stop a = a\<lparr>al_running := False\<rparr>"

definition AsyncLogging_dtor :: "async_log \<Rightarrow> async_log" where
  "AsyncLogging_dtor a = (if al_running a then AsyncLogging_stop a else a)"

text \<open>The section of \<open>threadFunc\<close> under the mutex.\<close>

definition collect :: "async_log \<Rightarrow> async_log res" where
  "collect a =
     (case al_current a of
        None \<Rightarrow> Inl BadPointer
      | Some cur \<Rightarrow>
          (let a1 = a\<lparr>al_buffers := al_buffers a @ [cur], al_current := al_new1 a, al_new1 := None\<rparr>;
               a2 = (if al_next a1 = None then a1\<lparr>al_next := al_new2 a1, al_new2 := None\<rparr> else a1)
           in Inr (a2\<lparr>al_toWrite := al_buffers a2, al_buffers := al_toWrite a2, al_pc := BWrite,
                      al_index := 0\<rparr>)))"

definition write_one :: "log_env \<Rightarrow> int \<times> int \<Rightarrow> async_log \<Rightarrow> async_log res option" where
  "write_one env t a =
     (case al_output a of
        None \<Rightarrow> Some (Inl BadPointer)
      | Some out \<Rightarrow>
          (case LogFile_append env t (fb_bytes (al_toWrite a ! al_index a)) out of
             None \<Rightarrow> None
           | Some (Inl e) \<Rightarrow> Some (Inl e)
           | Some (Inr out') \<Rightarrow> Some (Inr (a\<lparr>al_output := Some out', al_index := al_index a + 1\<rparr>))))"

text \<open>The call \<open>output.flush()\<close>.\<close>

definition flush_output :: "async_log \<Rightarrow> async_log res" where
  "flush_output a =
     (case al_output a of
        None \<Rightarrow> Inl BadPointer
      | Some out \<Rightarrow> res_bind (LogFile_flush out) (\<lambda>out'. Inr (a\<lparr>al_output := Some out'\<rparr>)))"

text \<open>A spare buffer is refilled from the back of the written ones, which must not be empty.\<close>

definition refill ::
    "fixed_buffer option \<Rightarrow> fixed_buffer list \<Rightarrow> (fixed_buffer option \<times> fixed_buffer list) res" where
  "refill spare bs =
     (case spare of
        Some b \<Rightarrow> Inr (Some b, bs)
      | None \<Rightarrow> if bs = [] then Inl OutOfBounds else Inr (Some (fb_reset (last bs)), butlast bs))"

definition recycle :: "async_log \<Rightarrow> async_log res" where
  "recycle a =
     (let kept = (if length (al_toWrite a) > 2 then take 2 (al_toWrite a) else al_toWrite a) in
      res_bind (refill (al_new1 a) kept) (\<lambda>(new1, kept1).
        res_bind (refill (al_new2 a) kept1) (\<lambda>(new2, kept2).
          res_bind (flush_output (a\<lparr>al_new1 := new1, al_new2 := new2, al_toWrite := [], al_index := 0\<rparr>))
            (\<lambda>a'. Inr (a'\<lparr>al_pc := BLoop\<rparr>)))))"

definition leave_loop :: "async_log \<Rightarrow> async_log res" where
  "leave_loop a = res_bind (flush_output a) (\<lambda>a'. Inr (a'\<lparr>al_pc := BDone\<rparr>))"

text \<open>
  The steps of the threads, with the lines logged so far. The log is started once, and the
  clock shows a time after the epoch when the file is opened.
\<close>

inductive log_step :: "log_env \<Rightarrow> async_log \<times> string list \<Rightarrow> async_log \<times> string list \<Rightarrow> bool"
  for env :: log_env where
  front_append:
    "AsyncLogging_append line a = Inr a' \<Longrightarrow> log_step env (a, ls) (a', ls @ [line])"
| front_start: "al_pc a = BIdle \<Longrightarrow> log_step env (a, ls) (AsyncLogging_start a, ls)"
| front_stop: "log_step env (a, ls) (AsyncLogging_stop a, ls)"
| back_enter:
    "al_pc a = BOpen \<Longrightarrow> 0 < now \<Longrightarrow> enter_thread env count now a = Inr a' \<Longrightarrow>
     log_step env (a, ls) (a', ls)"
| back_test:
    "al_pc a = BLoop \<Longrightarrow> al_running a \<Longrightarrow> log_step env (a, ls) (a\<lparr>al_pc := BLock\<rparr>, ls)"
| back_leave:
    "al_pc a = BLoop \<Longrightarrow> \<not> al_running a \<Longrightarrow> leave_loop a = Inr a' \<Longrightarrow> log_step env (a, ls) (a', ls)"
| back_collect: "al_pc a = BLock \<Longrightarrow> collect a = Inr a' \<Longrightarrow> log_step env (a, ls) (a', ls)"
| back_write:
    "al_pc a = BWrite \<Longrightarrow> al_index a < length (al_toWrite a) \<Longrightarrow>
     write_one env t a = Some (Inr a') \<Longrightarrow> log_step env (a, ls) (a', ls)"
| back_recycle:
    "al_pc a = BWrite \<Longrightarrow> al_index a = length (al_toWrite a) \<Longrightarrow> recycle a = Inr a' \<Longrightarrow>
     log_step env (a, ls) (a', ls)"

definition log_init :: "log_env \<Rightarrow> async_log \<times> string list \<Rightarrow> bool" where
  "log_init env s \<longleftrightarrow> disk_ok env \<and>
     (\<exists>basename rollSize flushInterval. s = (AsyncLogging_new basename rollSize flushInterval, []))"

section \<open>Invariant\<close>

text \<open>The lines that fit a buffer; the others are dropped.\<close>

definition accepted_lines :: "string list \<Rightarrow> string" where
  "accepted_lines ls = concat (filter (\<lambda>l. length l < kLargeBufferSize) ls)"

definition large :: "fixed_buffer \<Rightarrow> bool" where
  "large b \<longleftrightarrow> fb_capacity b = kLargeBufferSize"

definition fresh :: "fixed_buffer option \<Rightarrow> bool" where
  "fresh b \<longleftrightarrow> b = Some (FixedBuffer_new kLargeBufferSize)"

definition waiting_bytes :: "async_log \<Rightarrow> string" where
  "waiting_bytes a = concat (map fb_bytes (drop (al_index a) (al_toWrite a))) @
     concat (map fb_bytes (al_buffers a)) @ (case al_current a of None \<Rightarrow> [] | Some c \<Rightarrow> fb_bytes c)"

definition log_content :: "async_log \<Rightarrow> string" where
  "log_content a = (case al_output a of None \<Rightarrow> [] | Some out \<Rightarrow> lf_content out)"

definition output_ok :: "async_log \<Rightarrow> bool" where
  "output_ok a \<longleftrightarrow>
     (case al_output a of
        None \<Rightarrow> al_pc a = BIdle \<or> al_pc a = BOpen
      | Some out \<Rightarrow> lf_file out \<noteq> None \<and> al_pc a \<noteq> BIdle \<and> al_pc a \<noteq> BOpen)"

definition spare_ok :: "async_log \<Rightarrow> bool" where
  "spare_ok a \<longleftrightarrow>
     (case al_pc a of
        BWrite \<Rightarrow> al_new1 a = None \<and> al_toWrite a \<noteq> [] \<and> list_all large (al_toWrite a) \<and>
          al_index a \<le> length (al_toWrite a) \<and>
          (fresh (al_new2 a) \<or> al_new2 a = None \<and> 2 \<le> length (al_toWrite a))
      | BIdle \<Rightarrow> al_toWrite a = [] \<and> al_index a = 0
      | BOpen \<Rightarrow> al_toWrite a = [] \<and> al_index a = 0
      | BDone \<Rightarrow> True
      | _ \<Rightarrow> fresh (al_new1 a) \<and> fresh (al_new2 a) \<and> al_toWrite a = [])"

definition log_inv :: "log_env \<Rightarrow> async_log \<times> string list \<Rightarrow> bool" where
  "log_inv env s \<longleftrightarrow> (case s of (a, ls) \<Rightarrow>
     disk_ok env \<and> output_ok a \<and> spare_ok a \<and>
     (\<exists>cur. al_current a = Some cur \<and> large cur) \<and> list_all large (al_buffers a) \<and>
     (fresh (al_next a) \<or> al_next a = None \<and> al_buffers a \<noteq> []) \<and>
     log_content a @ waiting_bytes a = accepted_lines ls)"

section \<open>Lemmas\<close>

lemma fb_append_fresh:
  "fb_bytes (fb_append l (FixedBuffer_new kLargeBufferSize)) = (if length l < kLargeBufferSize then l else [])"
  by (simp add: fb_append_def FixedBuffer_new_def fb_avail_def)

lemma fb_append_room: "fb_avail b > length l \<Longrightarrow> fb_bytes (fb_append l b) = fb_bytes b @ l"
  by (simp add: fb_append_def)

lemma large_append [simp]: "large (fb_append l b) = large b"
  by (simp add: large_def fb_append_def)

lemma large_new [simp]: "large (FixedBuffer_new kLargeBufferSize)"
  by (simp add: large_def FixedBuffer_new_def)

lemma fresh_reset: "large b \<Longrightarrow> fresh (Some (fb_reset b))"
  by (cases b) (simp add: fresh_def large_def fb_reset_def FixedBuffer_new_def)

lemma accepted_lines_snoc:
  "accepted_lines (ls @ [l]) = accepted_lines ls @ (if length l < kLargeBufferSize then l else [])"
  by (simp add: accepted_lines_def)

lemmas log_inv_parts = output_ok_def spare_ok_def log_content_def waiting_bytes_def

lemma LogFile_new_ok:
  assumes "disk_ok env" and "0 < now"
  shows "\<exists>out. LogFile_new env [] count now basename rollSize i n = Inr out \<and> lf_file out \<noteq> None \<and>
    lf_content out = []"
  using assms
  by (auto simp: LogFile_new_def rollFile_def Let_def FileUtil_new_def disk_ok_def lf_content_def)

lemma enter_inv:
  assumes inv: "log_inv env (a, ls)" and pc: "al_pc a = BOpen" and now: "0 < now"
  shows "\<exists>a'. enter_thread env count now a = Inr a' \<and> log_inv env (a', ls) \<and> al_pc a' = BLoop"
proof -
  have "disk_ok env" "al_output a = None" "al_toWrite a = []" "al_index a = 0"
    using inv pc by (auto simp: log_inv_def log_inv_parts split: option.splits)
  moreover obtain out where "LogFile_new env [] count now (al_basename a) (al_rollSize a) 3 1024 = Inr out"
    "lf_file out \<noteq> None" "lf_content out = []"
    using LogFile_new_ok [OF \<open>disk_ok env\<close> now] by blast
  ultimately show ?thesis
    using inv by (auto simp: enter_thread_def log_inv_def log_inv_parts fresh_def)
qed

lemma append_inv:
  assumes inv: "log_inv env (a, ls)" and r: "AsyncLogging_append l a = Inr a'"
  shows "log_inv env (a', ls @ [l])"
proof -
  obtain cur where cur: "al_current a = Some cur" "large cur" using inv by (auto simp: log_inv_def)
  show ?thesis
  proof (cases "fb_avail cur > length l")
    case True
    then have "length l < kLargeBufferSize" using cur(2) by (simp add: fb_avail_def large_def)
    moreover have "a' = a\<lparr>al_current := Some (fb_append l cur)\<rparr>"
      using r cur True by (simp add: AsyncLogging_append_def)
    ultimately show ?thesis
      using inv cur True fb_append_room [OF True]
      by (auto simp: log_inv_def log_inv_parts accepted_lines_snoc split: backend_pc.splits option.splits)
  next
    case False
    have n: "(case al_next a of Some n \<Rightarrow> n | None \<Rightarrow> FixedBuffer_new kLargeBufferSize) =
        FixedBuffer_new kLargeBufferSize"
      using inv by (auto simp: log_inv_def fresh_def)
    have "a' = a\<lparr>al_buffers := al_buffers a @ [cur], al_next := None,
        al_current := Some (fb_append l (FixedBuffer_new kLargeBufferSize))\<rparr>"
      using r cur False n by (simp add: AsyncLogging_append_def)
    then show ?thesis
      using inv cur fb_append_fresh [of l]
      by (auto simp: log_inv_def log_inv_parts accepted_lines_snoc split: backend_pc.splits option.splits)
  qed
qed

lemma collect_ok:
  assumes inv: "log_inv env (a, ls)" and pc: "al_pc a = BLock"
  shows "\<exists>a'. collect a = Inr a' \<and> log_inv env (a', ls) \<and> al_pc a' = BWrite \<and> al_index a' = 0 \<and>
    al_current a' = Some (FixedBuffer_new kLargeBufferSize) \<and>
    al_buffers a' = []"
proof -
  obtain cur where cur: "al_current a = Some cur" "large cur" using inv by (auto simp: log_inv_def)
  have sp: "fresh (al_new1 a)" "fresh (al_new2 a)" "al_toWrite a = []"
    using inv pc by (auto simp: log_inv_def spare_ok_def)
  show ?thesis
    using inv pc cur sp
    by (auto simp: collect_def Let_def log_inv_def log_inv_parts fresh_def
        FixedBuffer_new_def large_def Suc_le_eq split: option.splits)
qed

lemma write_one_ok:
  assumes inv: "log_inv env (a, ls)" and pc: "al_pc a = BWrite" and i: "al_index a < length (al_toWrite a)"
  shows "\<exists>a'. write_one env t a = Some (Inr a') \<and> log_inv env (a', ls) \<and> al_pc a' = BWrite \<and>
    al_index a' = Suc (al_index a) \<and> al_toWrite a' = al_toWrite a \<and>
    al_current a' = al_current a \<and> al_buffers a' = al_buffers a"
proof -
  obtain o1 where o1: "al_output a = Some o1" "disk_ok env \<and> lf_file o1 \<noteq> None"
    using inv pc by (auto simp: log_inv_def output_ok_def split: option.splits)
  from lf.emit_ok [OF o1(2), of t "fb_bytes (al_toWrite a ! al_index a)"] obtain out where
    out: "LogFile_append env t (fb_bytes (al_toWrite a ! al_index a)) o1 = Some (Inr out)"
    "lf_file out \<noteq> None" "lf_content out = lf_content o1 @ fb_bytes (al_toWrite a ! al_index a)"
    by blast
  let ?a = "a\<lparr>al_output := Some out, al_index := Suc (al_index a)\<rparr>"
  have "drop (al_index a) (al_toWrite a) =
      al_toWrite a ! al_index a # drop (Suc (al_index a)) (al_toWrite a)"
    using i by (simp add: Cons_nth_drop_Suc)
  then have "log_content ?a @ waiting_bytes ?a = log_content a @ waiting_bytes a"
    using out(3) o1(1) by (simp add: waiting_bytes_def log_content_def)
  then have "log_inv env (?a, ls)"
    using inv pc i out(2) by (simp add: log_inv_def spare_ok_def output_ok_def)
  moreover have "write_one env t a = Some (Inr ?a)" using o1(1) out(1) by (simp add: write_one_def)
  ultimately show ?thesis using pc by simp
qed

text \<open>Flushing the file changes neither its contents nor the rest of the state.\<close>

lemma flush_output_ok:
  assumes "disk_ok env" and "output_ok a" and "al_pc a \<noteq> BIdle" and "al_pc a \<noteq> BOpen"
  shows "\<exists>out. flush_output a = Inr (a\<lparr>al_output := Some out\<rparr>) \<and> lf_file out \<noteq> None \<and>
    lf_content out = log_content a"
proof -
  obtain o1 where o1: "al_output a = Some o1" "disk_ok env \<and> lf_file o1 \<noteq> None"
    using assms by (auto simp: output_ok_def split: option.splits)
  then show ?thesis using lf.sync_ok [OF o1(2)] by (auto simp: flush_output_def log_content_def)
qed

lemma refill_ok:
  "list_all large bs \<Longrightarrow> bs \<noteq> [] \<or> fresh spare \<Longrightarrow> fresh spare \<or> spare = None \<Longrightarrow>
     \<exists>b bs'. refill spare bs = Inr (b, bs') \<and> fresh b \<and> list_all large bs' \<and>
       (if spare = None then length bs' + 1 = length bs else bs' = bs)"
  by (auto simp: refill_def fresh_reset list_all_iff in_set_butlastD) (auto simp: fresh_def)

lemma recycle_ok:
  assumes inv: "log_inv env (a, ls)" and pc: "al_pc a = BWrite" and i: "al_index a = length (al_toWrite a)"
  shows "\<exists>a'. recycle a = Inr a' \<and> log_inv env (a', ls) \<and> al_pc a' = BLoop \<and>
    al_current a' = al_current a \<and> al_buffers a' = al_buffers a \<and> al_toWrite a' = []"
proof -
  let ?k = "if length (al_toWrite a) > 2 then take 2 (al_toWrite a) else al_toWrite a"
  have sp: "al_new1 a = None" "al_toWrite a \<noteq> []" "list_all large (al_toWrite a)"
    "fresh (al_new2 a) \<or> al_new2 a = None \<and> 2 \<le> length (al_toWrite a)"
    using inv pc by (auto simp: log_inv_def spare_ok_def)
  have k: "list_all large ?k" "?k \<noteq> []" "al_new2 a = None \<Longrightarrow> length ?k = 2"
    using sp by (auto simp: list_all_iff fresh_def dest: in_set_takeD)
  obtain b1 k1 where r1: "refill (al_new1 a) ?k = Inr (b1, k1)" "fresh b1" "list_all large k1"
    "length k1 + 1 = length ?k"
    using refill_ok [OF k(1), of "al_new1 a"] k(2) sp(1) by auto
  then have "k1 \<noteq> [] \<or> fresh (al_new2 a)" using sp(4) k(3) by (cases k1) auto
  then obtain b2 k2 where r2: "refill (al_new2 a) k1 = Inr (b2, k2)" "fresh b2"
    using refill_ok [OF r1(3), of "al_new2 a"] sp(4) by auto
  let ?b = "a\<lparr>al_new1 := b1, al_new2 := b2, al_toWrite := [], al_index := 0\<rparr>"
  have "disk_ok env" "output_ok ?b" using inv pc by (auto simp: log_inv_def output_ok_def split: option.splits)
  then obtain out where out: "flush_output ?b = Inr (?b\<lparr>al_output := Some out\<rparr>)"
    "lf_file out \<noteq> None" "lf_content out = log_content a"
    using flush_output_ok [of env ?b] pc by (auto simp: log_content_def)
  let ?a = "?b\<lparr>al_output := Some out, al_pc := BLoop\<rparr>"
  have "log_content ?a @ waiting_bytes ?a = log_content a @ waiting_bytes a"
    using out(3) i by (simp add: log_content_def waiting_bytes_def)
  then have "log_inv env (?a, ls)"
    using inv r1(2) r2(2) out(2) by (simp add: log_inv_def spare_ok_def output_ok_def)
  moreover have "recycle a = Inr ?a" using r1(1) r2(1) out(1) by (simp add: recycle_def Let_def)
  ultimately show ?thesis by simp
qed

lemma leave_inv:
  assumes inv: "log_inv env (a, ls)" and r: "leave_loop a = Inr a'" and pc: "al_pc a = BLoop"
  shows "log_inv env (a', ls)"
proof -
  have "disk_ok env" "output_ok a" using inv by (simp_all add: log_inv_def)
  then obtain out where "a' = a\<lparr>al_output := Some out, al_pc := BDone\<rparr>" "lf_file out \<noteq> None"
    "lf_content out = log_content a"
    using flush_output_ok [of env a] pc r by (auto simp: leave_loop_def)
  then show ?thesis using inv by (auto simp: log_inv_def log_inv_parts)
qed

interpretation al: inductive_invariant "log_init env" "log_step env" "log_inv env" for env
proof
  show "log_inv env s" if "log_init env s" for s
    using that by (auto simp: log_init_def log_inv_def AsyncLogging_new_def log_inv_parts fresh_def
        accepted_lines_def) (simp add: FixedBuffer_new_def)
  show "log_inv env t" if inv: "log_inv env s" and st: "log_step env s t" for s t
    using st
  proof cases
    case (front_append line a a' ls)
    then show ?thesis using inv append_inv by blast
  next
    case (front_start a ls)
    then show ?thesis
      using inv by (auto simp: log_inv_def AsyncLogging_start_def log_inv_parts split: option.splits)
  next
    case (front_stop a ls)
    then show ?thesis
      using inv by (auto simp: log_inv_def AsyncLogging_stop_def log_inv_parts
          split: backend_pc.splits option.splits)
  next
    case (back_enter a now count a' ls)
    then show ?thesis using inv enter_inv [of env a ls now count] by auto
  next
    case (back_test a ls)
    then show ?thesis
      using inv by (auto simp: log_inv_def log_inv_parts split: option.splits)
  next
    case (back_leave a a' ls)
    then show ?thesis using inv leave_inv by blast
  next
    case (back_collect a a' ls)
    then show ?thesis using inv collect_ok [of env a ls] by auto
  next
    case (back_write a t a' ls)
    then show ?thesis using inv write_one_ok [of env a ls t] by auto
  next
    case (back_recycle a a' ls)
    then show ?thesis using inv recycle_ok [of env a ls] by auto
  qed
qed

text \<open>A round of the back end, while the front end is idle.\<close>

lemma write_rest:
  assumes "log_inv env (a, ls)" and "al_pc a = BWrite"
  shows "\<exists>a'. (log_step env)\<^sup>*\<^sup>* (a, ls) (a', ls) \<and> log_inv env (a', ls) \<and> al_pc a' = BWrite \<and>
    al_index a' = length (al_toWrite a') \<and> al_current a' = al_current a \<and> al_buffers a' = al_buffers a"
  using assms
proof (induction "length (al_toWrite a) - al_index a" arbitrary: a)
  case 0
  then have "al_index a = length (al_toWrite a)" by (auto simp: log_inv_def spare_ok_def)
  with 0 show ?case by blast
next
  case (Suc n)
  then have i: "al_index a < length (al_toWrite a)" by simp
  from write_one_ok [OF Suc.prems i, of "(0, 0)"] obtain a1 where
    a1: "write_one env (0, 0) a = Some (Inr a1)" "log_inv env (a1, ls)" "al_pc a1 = BWrite"
    "al_index a1 = Suc (al_index a)" "al_toWrite a1 = al_toWrite a"
    "al_current a1 = al_current a" "al_buffers a1 = al_buffers a" by blast
  have st: "log_step env (a, ls) (a1, ls)" using back_write [OF Suc.prems(2) i a1(1)] .
  have "n = length (al_toWrite a1) - al_index a1" using Suc.hyps(2) a1(4,5) by simp
  from Suc.hyps(1) [OF this a1(2,3)] st a1(6,7) show ?case
    by (metis converse_rtranclp_into_rtranclp)
qed

lemma round_ok:
  assumes inv: "log_inv env (a, ls)" and pc: "al_pc a = BLock"
  shows "\<exists>a'. (log_step env)\<^sup>*\<^sup>* (a, ls) (a', ls) \<and> al_pc a' = BLoop \<and>
    log_content a' = accepted_lines ls"
proof -
  obtain a1 where a1: "collect a = Inr a1" "log_inv env (a1, ls)" "al_pc a1 = BWrite"
    "al_current a1 = Some (FixedBuffer_new kLargeBufferSize)" "al_buffers a1 = []"
    using collect_ok [OF inv pc] by blast
  obtain a2 where a2: "(log_step env)\<^sup>*\<^sup>* (a1, ls) (a2, ls)" "log_inv env (a2, ls)" "al_pc a2 = BWrite"
    "al_index a2 = length (al_toWrite a2)" "al_current a2 = al_current a1" "al_buffers a2 = al_buffers a1"
    using write_rest [OF a1(2,3)] by blast
  obtain a3 where a3: "recycle a2 = Inr a3" "log_inv env (a3, ls)" "al_pc a3 = BLoop"
    "al_current a3 = al_current a2" "al_buffers a3 = al_buffers a2" "al_toWrite a3 = []"
    using recycle_ok [OF a2(2-4)] by blast
  have "log_step env (a, ls) (a1, ls)" using back_collect [OF pc a1(1)] .
  also have "(log_step env)\<^sup>*\<^sup>* (a1, ls) (a2, ls)" by (rule a2(1))
  also have "log_step env (a2, ls) (a3, ls)" using back_recycle [OF a2(3,4) a3(1)] .
  finally have "(log_step env)\<^sup>*\<^sup>* (a, ls) (a3, ls)" .
  moreover have "waiting_bytes a3 = []"
    using a3(4-6) a2(5,6) a1(4,5) by (simp add: waiting_bytes_def FixedBuffer_new_def)
  then have "log_content a3 = accepted_lines ls" using a3(2) by (simp add: log_inv_def)
  ultimately show ?thesis using a3(3) by blast
qed

lemma append_total: "log_inv env (a, ls) \<Longrightarrow> \<exists>a'. AsyncLogging_append line a = Inr a'"
  by (auto simp: log_inv_def AsyncLogging_append_def Let_def)

section \<open>Properties\<close>

text \<open>
  C12: no log line is lost, repeated or reordered by the double buffering. In every
  interleaving of front ends and back end, on a disk with room, the bytes in the log file
  followed by those in the buffers are exactly the lines logged so far, in order, less
  those too long for a buffer. No thread ever meets a null buffer, takes a spare buffer
  from an empty vector, or is stuck in the write loop of the file.
\<close>

theorem async_logging_no_loss:
  assumes "reach (log_init env) (log_step env) (a, ls)"
  shows "log_content a @ waiting_bytes a = accepted_lines ls \<and>
    (\<exists>a'. AsyncLogging_append line a = Inr a') \<and>
    (al_pc a = BOpen \<longrightarrow> 0 < now \<longrightarrow> (\<exists>a'. enter_thread env count now a = Inr a')) \<and>
    (al_pc a = BLoop \<longrightarrow> (\<exists>a'. leave_loop a = Inr a')) \<and>
    (al_pc a = BLock \<longrightarrow> (\<exists>a'. collect a = Inr a')) \<and>
    (al_pc a = BWrite \<longrightarrow>
       (if al_index a < length (al_toWrite a) then \<exists>a'. write_one env t a = Some (Inr a')
        else \<exists>a'. recycle a = Inr a'))"
proof -
  have inv: "log_inv env (a, ls)" using al.reach_inv [OF assms] .
  have "\<exists>a'. AsyncLogging_append line a = Inr a'" using append_total [OF inv] .
  moreover have "\<exists>a'. enter_thread env count now a = Inr a'" if "al_pc a = BOpen" "0 < now"
    using enter_inv [OF inv that] by blast
  moreover have "\<exists>a'. leave_loop a = Inr a'" if "al_pc a = BLoop"
    using inv that flush_output_ok [of env a] by (auto simp: log_inv_def leave_loop_def)
  moreover have "\<exists>a'. collect a = Inr a'" if "al_pc a = BLock"
    using collect_ok [OF inv that] by blast
  moreover have "\<exists>a'. write_one env t a = Some (Inr a')"
    if "al_pc a = BWrite" "al_index a < length (al_toWrite a)"
    using write_one_ok [OF inv that] by blast
  moreover have "\<exists>a'. recycle a = Inr a'"
    if "al_pc a = BWrite" "\<not> al_index a < length (al_toWrite a)"
  proof -
    have "al_index a = length (al_toWrite a)"
      using inv that by (auto simp: log_inv_def spare_ok_def)
    then show ?thesis using recycle_ok [OF inv that(1)] by blast
  qed
  ultimately show ?thesis using inv by (simp add: log_inv_def)
qed

text \<open>A log with one line, before and after the back end has entered its loop.\<close>

definition logged_one :: async_log where
  "logged_one = (AsyncLogging_start (AsyncLogging_new ''web'' 1000 3))\<lparr>al_current :=
     Some (fb_append ''x'' (FixedBuffer_new kLargeBufferSize))\<rparr>"

definition looping_one :: async_log where
  "looping_one = (case enter_thread roomy_env 0 100 logged_one of Inr a \<Rightarrow> a | Inl e \<Rightarrow> logged_one)"

lemma roomy_disk_ok: "disk_ok roomy_env"
  by (simp add: disk_ok_def roomy_env_def)

lemma new_log_init: "log_init roomy_env (AsyncLogging_new ''web'' 1000 3, [])"
  using roomy_disk_ok by (auto simp: log_init_def)

lemma looping_one_enter: "enter_thread roomy_env 0 100 logged_one = Inr looping_one"
  by (simp add: looping_one_def enter_thread_def LogFile_new_def rollFile_def Let_def FileUtil_new_def
      roomy_env_def)

lemma logged_one_steps:
  "(log_step roomy_env)\<^sup>*\<^sup>* (AsyncLogging_new ''web'' 1000 3, []) (logged_one, [''x''])"
proof -
  let ?a = "AsyncLogging_new ''web'' 1000 3"
  have "(log_step roomy_env)\<^sup>*\<^sup>* (?a, []) (AsyncLogging_start ?a, [])"
    by (rule r_into_rtranclp, rule front_start) (simp add: AsyncLogging_new_def)
  also have "log_step roomy_env (AsyncLogging_start ?a, []) (logged_one, [] @ [''x''])"
    by (rule front_append)
      (simp add: AsyncLogging_append_def AsyncLogging_new_def AsyncLogging_start_def logged_one_def
        fb_avail_def FixedBuffer_new_def kLargeBufferSize_def)
  finally show ?thesis by simp
qed

lemma logged_one_reachable: "reach (log_init roomy_env) (log_step roomy_env) (logged_one, [''x''])"
  using reach_steps [of "log_step roomy_env" "(AsyncLogging_new ''web'' 1000 3, [])" _ "log_init roomy_env"]
    reach_init [of "log_init roomy_env" "(AsyncLogging_new ''web'' 1000 3, [])", OF new_log_init]
    logged_one_steps by blast

lemma looping_one_reachable: "reach (log_init roomy_env) (log_step roomy_env) (looping_one, [''x''])"
proof (rule reach_step [OF logged_one_reachable])
  show "log_step roomy_env (logged_one, [''x'']) (looping_one, [''x''])"
    by (rule back_enter [OF _ _ looping_one_enter])
      (simp_all add: logged_one_def AsyncLogging_new_def AsyncLogging_start_def)
qed

lemmas looping_one_eval = looping_one_def enter_thread_def LogFile_new_def rollFile_def Let_def
  FileUtil_new_def roomy_env_def logged_one_def AsyncLogging_new_def AsyncLogging_start_def

theorem async_logging_no_loss_witness:
  "log_content logged_one @ waiting_bytes logged_one = ''x'' \<and>
   (\<exists>a'. AsyncLogging_append ''y'' logged_one = Inr a')"
  using async_logging_no_loss [OF logged_one_reachable, of "''y''"]
  by (simp add: accepted_lines_def kLargeBufferSize_def)

text \<open>
  C33: one round of the back end writes everything. From any state in which the back end
  holds the mutex, its own steps lead to the end of the round with every line that was
  logged, less those too long for a buffer, in the log file.
\<close>

theorem backend_round_writes_all:
  assumes "reach (log_init env) (log_step env) (a, ls)" and "al_pc a = BLock"
  shows "\<exists>a'. (log_step env)\<^sup>*\<^sup>* (a, ls) (a', ls) \<and> al_pc a' = BLoop \<and>
    log_content a' = accepted_lines ls"
  using round_ok [OF al.reach_inv [OF assms(1)] assms(2)] .

theorem backend_round_writes_all_witness:
  "\<exists>a'. (log_step roomy_env)\<^sup>*\<^sup>* (looping_one\<lparr>al_pc := BLock\<rparr>, [''x'']) (a', [''x'']) \<and>
     al_pc a' = BLoop \<and> log_content a' = ''x''"
proof -
  have "log_step roomy_env (looping_one, [''x'']) (looping_one\<lparr>al_pc := BLock\<rparr>, [''x''])"
    by (rule back_test) (simp_all add: looping_one_eval)
  from backend_round_writes_all [OF reach_step [OF looping_one_reachable this]] show ?thesis
    by (simp add: accepted_lines_def kLargeBufferSize_def)
qed

text \<open>Nothing is written once the back end has ended.\<close>

lemma done_steps:
  "(log_step env)\<^sup>*\<^sup>* s t \<Longrightarrow> al_pc (fst s) = BDone \<Longrightarrow>
     al_pc (fst t) = BDone \<and> log_content (fst t) = log_content (fst s)"
proof (induction rule: rtranclp_induct)
  case (step t u)
  then have "al_pc (fst t) = BDone" by simp
  then have "al_pc (fst u) = BDone \<and> log_content (fst u) = log_content (fst t)"
    using step.hyps(2)
    by (auto simp: AsyncLogging_stop_def AsyncLogging_append_def log_content_def Let_def
        elim!: log_step.cases split: option.splits if_splits)
  with step show ?case by simp
qed simp

text \<open>
  Stopping loses log lines. There is a run in which a line is logged, the log is
  stopped, and the back end leaves its loop and flushes the file without the line: it
  stays in the front end's buffer, and no continuation of the run writes anything to the
  file any more.
\<close>

theorem stop_loses_lines:
  "\<exists>env a. reach (log_init env) (log_step env) (a, [''x'']) \<and> al_pc a = BDone \<and>
     log_content a = [] \<and> waiting_bytes a = ''x'' \<and> accepted_lines [''x''] = ''x'' \<and>
     \<not> (\<exists>b ls. (log_step env)\<^sup>*\<^sup>* (a, [''x'']) (b, ls) \<and> log_content b \<noteq> [])"
proof -
  let ?a1 = "AsyncLogging_stop looping_one"
  have s1: "log_step roomy_env (looping_one, [''x'']) (?a1, [''x''])" by (rule front_stop)
  obtain a2 where a2: "leave_loop ?a1 = Inr a2" "al_pc a2 = BDone" "log_content a2 = []"
    "waiting_bytes a2 = ''x''"
    by (simp add: leave_loop_def flush_output_def AsyncLogging_stop_def looping_one_eval
        LogFile_flush_def FileUtil_flush_def lf_content_def log_content_def waiting_bytes_def
        fb_append_def fb_avail_def FixedBuffer_new_def kLargeBufferSize_def)
  have s2: "log_step roomy_env (?a1, [''x'']) (a2, [''x''])"
    by (rule back_leave [OF _ _ a2(1)]) (simp_all add: AsyncLogging_stop_def looping_one_eval)
  have "reach (log_init roomy_env) (log_step roomy_env) (a2, [''x''])"
    by (rule reach_step [OF reach_step [OF looping_one_reachable s1] s2])
  moreover have "log_content b = []" if "(log_step roomy_env)\<^sup>*\<^sup>* (a2, [''x'']) (b, ls)" for b ls
    using done_steps [OF that] a2(2,3) by simp
  ultimately show ?thesis
    using a2 by (intro exI [of _ roomy_env] exI [of _ a2])
      (auto simp: accepted_lines_def kLargeBufferSize_def)
qed

text \<open>
  The destructor does not wait for the back end: it can return while the thread is still
  at the test of its loop, and the thread then goes on to use the members.
\<close>

lemma destructor_leaves_back_end:
  "\<exists>env a b. reach (log_init env) (log_step env) (a, [''x'']) \<and> al_running a \<and>
     al_pc (AsyncLogging_dtor a) = BLoop \<and> log_step env (AsyncLogging_dtor a, [''x'']) (b, [''x'']) \<and> al_pc b = BDone"
proof -
  let ?a1 = "AsyncLogging_dtor looping_one"
  have r: "al_running looping_one" "al_pc ?a1 = BLoop" "\<not> al_running ?a1"
    by (simp_all add: looping_one_eval AsyncLogging_dtor_def AsyncLogging_stop_def)
  obtain b where b: "leave_loop ?a1 = Inr b" "al_pc b = BDone"
    by (simp add: leave_loop_def flush_output_def AsyncLogging_dtor_def AsyncLogging_stop_def looping_one_eval
        LogFile_flush_def FileUtil_flush_def)
  have "log_step roomy_env (?a1, [''x'']) (b, [''x''])" by (rule back_leave [OF r(2,3) b(1)])
  with looping_one_reachable r(1,2) b(2) show ?thesis by blast
qed

end
