(* ===== verification/Log_Output.thy ===== *)
theory Log_Output
  imports Log_Stream Async_Logging
begin

text \<open>
  Where the lines of \<open>Logger\<close> go (\<open>src/src/Logger.cpp\<close>): the global output and flush
  functions, which write to the standard output by default, and a log statement with the
  output function set to \<open>AsyncLogging::append\<close>, so that its line joins the queue of the
  back end.
\<close>

section \<open>Operations\<close>

text \<open>The functions \<open>g_output\<close> and \<open>g_flush\<close> act on a state of their own.\<close>

record 'w log_functions =
  g_output :: "string \<Rightarrow> 'w \<Rightarrow> 'w res"
  g_flush :: "'w \<Rightarrow> 'w res"

text \<open>The standard output: what has been flushed and what is buffered.\<close>

definition defaultOutput :: "string \<Rightarrow> string \<times> string \<Rightarrow> (string \<times> string) res" where
  "defaultOutput data w = Inr (fst w, snd w @ data)"

definition defaultFlush :: "string \<times> string \<Rightarrow> (string \<times> string) res" where
  "defaultFlush w = Inr (fst w @ snd w, [])"

definition default_sink :: "(string \<times> string) log_functions" where
  "default_sink = \<lparr>g_output = defaultOutput, g_flush = defaultFlush\<rparr>"

definition setOutput :: "(string \<Rightarrow> 'w \<Rightarrow> 'w res) \<Rightarrow> 'w log_functions \<Rightarrow> 'w log_functions" where
  "setOutput out sk = sk\<lparr>g_output := out\<rparr>"

definition setFlush :: "('w \<Rightarrow> 'w res) \<Rightarrow> 'w log_functions \<Rightarrow> 'w log_functions" where
  "setFlush flush sk = sk\<lparr>g_flush := flush\<rparr>"

text \<open>The end of the destructor: output, and for a fatal line flush and abort.\<close>

definition emit :: "'w log_functions \<Rightarrow> string \<times> log_end \<Rightarrow> 'w \<Rightarrow> ('w \<times> log_end) res" where
  "emit sk r w =
     res_bind (g_output sk (fst r) w) (\<lambda>w1.
       if snd r = Aborted then res_bind (g_flush sk w1) (\<lambda>w2. Inr (w2, Aborted)) else Inr (w1, Continue))"

definition log_to ::
    "'w log_functions \<Rightarrow> (int \<Rightarrow> tm) \<Rightarrow> int \<Rightarrow> string \<Rightarrow> int \<Rightarrow> log_level \<Rightarrow> log_item list \<Rightarrow> 'w \<Rightarrow> ('w \<times> log_end) res" where
  "log_to sk localtime now filename line level xs w =
     res_bind (log_statement localtime now filename line level xs) (\<lambda>r. emit sk r w)"

text \<open>
  The asynchronous log as output; its flush function is the default one, which does
  nothing to the log.
\<close>

definition async_sink :: "async_log log_functions" where
  "async_sink = setOutput AsyncLogging_append \<lparr>g_output = \<lambda>_. Inr, g_flush = Inr\<rparr>"

section \<open>Properties\<close>

text \<open>
  C40: a log statement adds its line to the log, whole and at the end. In every reachable
  state of the asynchronous log a statement with any items succeeds; the state after it is
  again one of the runs of the log, in which the bytes of file and buffers have grown by
  exactly the line of the statement, and the line is shorter than a buffer. Nothing is
  written to the file by the statement itself: when the level is FATAL, the process ends
  with the line still in a buffer.
\<close>

theorem log_statement_reaches_log:
  assumes "reach (log_init env) (log_step env) (a, ls)"
    and "tm_ok (localtime (now sdiv kMicroSecondsPerSecond))" and "0 \<le> now"
    and "\<bar>line\<bar> < 2 ^ 31" and "list_all item_ok xs"
  shows "\<exists>a' out. log_to async_sink localtime now filename line level xs a =
      Inr (a', if level = FATAL then Aborted else Continue) \<and>
    log_statement localtime now filename line level xs = Inr (out, if level = FATAL then Aborted else Continue) \<and>
    reach (log_init env) (log_step env) (a', ls @ [out]) \<and> length out < kLargeBufferSize \<and>
    log_content a' @ waiting_bytes a' = (log_content a @ waiting_bytes a) @ out \<and>
    log_content a' = log_content a"
proof -
  obtain out where out: "log_statement localtime now filename line level xs =
      Inr (out, if level = FATAL then Aborted else Continue)" "length out < 4096"
    using log_line_bounded [of localtime now, OF assms(2-5)] by blast
  obtain a' where a': "AsyncLogging_append out a = Inr a'"
    using append_total [OF al.reach_inv [OF assms(1)]] by blast
  then have r: "reach (log_init env) (log_step env) (a', ls @ [out])"
    by (intro reach_step [OF assms(1)] front_append)
  have "log_content a' @ waiting_bytes a' = accepted_lines (ls @ [out])"
    "log_content a @ waiting_bytes a = accepted_lines ls"
    using al.reach_inv [OF r] al.reach_inv [OF assms(1)] by (simp_all add: log_inv_def)
  moreover have "length out < kLargeBufferSize" using out(2) by (simp add: kLargeBufferSize_def)
  moreover have "log_content a' = log_content a"
    using a' by (auto simp: AsyncLogging_append_def log_content_def Let_def split: option.splits if_splits)
  ultimately show ?thesis
    using out(1) a' r by (simp add: log_to_def emit_def async_sink_def setOutput_def accepted_lines_def)
qed

theorem log_statement_reaches_log_witness:
  "\<exists>a' out. log_to async_sink (\<lambda>_. noon) 7 ''a.cpp'' 1 FATAL [LStr ''bind fail!''] logged_one = Inr (a', Aborted) \<and>
     log_content a' @ waiting_bytes a' = (log_content logged_one @ waiting_bytes logged_one) @ out \<and>
     log_content a' = log_content logged_one"
  using log_statement_reaches_log [OF logged_one_reachable, of "\<lambda>_. noon" 7 1 "[LStr ''bind fail!'']" "''a.cpp''" FATAL]
  by (simp add: noon_def tm_ok_def) blast

end
