(* ===== verification/Time_Stamp.thy ===== *)
theory Time_Stamp
  imports Log_Stream "HOL-Library.List_Lexorder" "HOL-Library.Char_ord"
begin

text \<open>
  The order of timestamps (\<open>src/include/Timestamp.h\<close>) and of their texts
  (\<open>src/src/Timestamp.cpp\<close>): the comparison operators as an instance of the library's
  linear orders, the arithmetic of timers, and that formatted times sort like the times.
\<close>

section \<open>Operations\<close>

datatype timestamp = Timestamp (microSecondsSinceEpoch: int)

definition Timestamp_invalid :: timestamp where
  "Timestamp_invalid = Timestamp 0"

definition timestamp_less :: "timestamp \<Rightarrow> timestamp \<Rightarrow> bool" where
  "timestamp_less lhs rhs \<longleftrightarrow> microSecondsSinceEpoch lhs < microSecondsSinceEpoch rhs"

definition timestamp_equal :: "timestamp \<Rightarrow> timestamp \<Rightarrow> bool" where
  "timestamp_equal lhs rhs \<longleftrightarrow> microSecondsSinceEpoch lhs = microSecondsSinceEpoch rhs"

text \<open>
  \<open>addTime\<close>: the conversion of the floating-point seconds to an integer number of
  microseconds is a parameter.
\<close>

definition check_int64 :: "int \<Rightarrow> int res" where
  "check_int64 x = (if - (2 ^ 63) \<le> x \<and> x < 2 ^ 63 then Inr x else Inl IntOverflow)"

definition addTime :: "('d \<Rightarrow> int) \<Rightarrow> timestamp \<Rightarrow> 'd \<Rightarrow> timestamp res" where
  "addTime to_micros t seconds =
     (let delta = to_micros seconds
      in res_bind (check_int64 (microSecondsSinceEpoch t + delta)) (\<lambda>n. Inr (Timestamp n)))"

instantiation timestamp :: linorder
begin

definition "a < b \<longleftrightarrow> timestamp_less a b"
definition "a \<le> b \<longleftrightarrow> timestamp_less a b \<or> timestamp_equal a b"

instance
  by standard (auto simp: less_timestamp_def less_eq_timestamp_def timestamp_less_def timestamp_equal_def
      intro: timestamp.expand)

end

lemma timestamp_order [simp]:
  "Timestamp a < Timestamp b \<longleftrightarrow> a < b" "Timestamp a \<le> Timestamp b \<longleftrightarrow> a \<le> b"
  by (auto simp: less_timestamp_def less_eq_timestamp_def timestamp_less_def timestamp_equal_def)

lemma timestamp_equal_iff: "timestamp_equal a b \<longleftrightarrow> a = b"
  by (auto simp: timestamp_equal_def intro: timestamp.expand)

text \<open>A timer that is moved forward fires later.\<close>

lemma addTime_later:
  assumes "addTime to_micros t seconds = Inr t'" and "0 < to_micros seconds"
  shows "t < t'"
  using assms by (cases t) (auto simp: addTime_def Let_def check_int64_def split: if_splits)

section \<open>Numbers of a fixed width\<close>

lemma less_append:
  fixes a b :: string
  assumes "length a = length b"
  shows "a @ x < b @ y \<longleftrightarrow> a < b \<or> a = b \<and> x < y"
  using assms by (induction a b rule: list_induct2) auto

fun digits_of :: "nat \<Rightarrow> nat \<Rightarrow> string" where
  "digits_of 0 i = []"
| "digits_of (Suc n) i = digits_of n (i div 10) @ [dec_digit (i mod 10)]"

lemma length_digits_of [simp]: "length (digits_of n i) = n"
  by (induction n arbitrary: i) simp_all

lemma dec_digit_less: "a < 10 \<Longrightarrow> b < 10 \<Longrightarrow> dec_digit a < dec_digit b \<longleftrightarrow> a < b"
  by (simp add: less_char_def of_char_dec_digit)

lemma dec_digit_eq: "a < 10 \<Longrightarrow> b < 10 \<Longrightarrow> dec_digit a = dec_digit b \<longleftrightarrow> a = b"
  by (metis of_char_dec_digit add_left_cancel)

lemma digits_of_eq: "a < 10 ^ n \<Longrightarrow> b < 10 ^ n \<Longrightarrow> digits_of n a = digits_of n b \<longleftrightarrow> a = b"
proof (induction n arbitrary: a b)
  case (Suc n)
  then have "digits_of n (a div 10) = digits_of n (b div 10) \<longleftrightarrow> a div 10 = b div 10" by simp
  moreover have "a = b \<longleftrightarrow> a div 10 = b div 10 \<and> a mod 10 = b mod 10" by (metis div_mult_mod_eq)
  ultimately show ?case by (simp add: dec_digit_eq)
qed simp

lemma less_div_mod_10: "a < b \<longleftrightarrow> a div 10 < b div 10 \<or> a div 10 = b div 10 \<and> a mod 10 < b mod (10 :: nat)"
proof -
  have "10 * q + r < 10 * q' + r' \<longleftrightarrow> q < q' \<or> q = q' \<and> r < r'" if "r < 10" "r' < 10" for q r q' r' :: nat
    using that by auto
  from this [of "a mod 10" "b mod 10" "a div 10" "b div 10"] show ?thesis by simp
qed

lemma digits_of_less: "a < 10 ^ n \<Longrightarrow> b < 10 ^ n \<Longrightarrow> digits_of n a < digits_of n b \<longleftrightarrow> a < b"
proof (induction n arbitrary: a b)
  case (Suc n)
  then have "digits_of n (a div 10) < digits_of n (b div 10) \<longleftrightarrow> a div 10 < b div 10"
    "digits_of n (a div 10) = digits_of n (b div 10) \<longleftrightarrow> a div 10 = b div 10"
    by (simp_all add: digits_of_eq)
  then show ?case using less_div_mod_10 [of a b] by (simp add: less_append dec_digit_less)
qed simp

lemma digits_of_0: "digits_of n 0 = replicate n (CHR ''0'')"
  by (induction n) (simp_all add: replicate_append_same dec_digit_def char_of_def bit_0)

lemma padded_dec: "i < 10 ^ Suc n \<Longrightarrow> replicate (Suc n - length (dec i)) (CHR ''0'') @ dec i = digits_of (Suc n) i"
proof (induction n arbitrary: i)
  case 0
  then show ?case by (simp add: dec.simps)
next
  case (Suc n)
  show ?case
  proof (cases "i < 10")
    case True
    then show ?thesis using digits_of_0 [of "Suc n"] by (simp add: dec.simps [of i])
  next
    case False
    then have "dec i = dec (i div 10) @ [dec_digit (i mod 10)]" by (simp add: dec.simps [of i])
    moreover have "i div 10 < 10 ^ Suc n" using Suc.prems by auto
    ultimately show ?thesis using Suc.IH [of "i div 10"] by simp
  qed
qed

lemma zero_padded_digits: "0 \<le> i \<Longrightarrow> i < 10 ^ Suc n \<Longrightarrow> zero_padded (Suc n) i = digits_of (Suc n) (nat i)"
  using padded_dec [of "nat i" n] by (simp add: zero_padded_def nat_less_iff)

lemma length_dec_ge: "10 ^ k \<le> n \<Longrightarrow> k < length (dec n)"
proof (induction k arbitrary: n)
  case (Suc k)
  have "10 * 10 ^ k \<le> n" "1 \<le> (10 :: nat) ^ k" using Suc.prems by simp_all
  then have "\<not> n < 10" "10 ^ k \<le> n div 10" by linarith+
  then show ?case using Suc.IH [of "n div 10"] by (simp add: dec.simps [of n])
qed simp

text \<open>A number written with its full width, as \<open>%02d\<close>, \<open>%06d\<close>, or \<open>%4d\<close> from 1000 on.\<close>

lemma zero_padded_order:
  assumes "0 \<le> i" "i < 10 ^ n" "0 \<le> j" "j < 10 ^ n" "0 < n"
  shows "length (zero_padded n i) = n" "zero_padded n i < zero_padded n j \<longleftrightarrow> i < j"
    "zero_padded n i = zero_padded n j \<longleftrightarrow> i = j"
proof -
  obtain m where m: "n = Suc m" using assms(5) gr0_implies_Suc by blast
  have "nat i < 10 ^ n" "nat j < 10 ^ n" using assms by (simp_all add: nat_less_iff)
  then show "length (zero_padded n i) = n" "zero_padded n i < zero_padded n j \<longleftrightarrow> i < j"
    "zero_padded n i = zero_padded n j \<longleftrightarrow> i = j"
    using assms zero_padded_digits [of i m] zero_padded_digits [of j m] digits_of_less digits_of_eq m
    by (auto simp del: digits_of.simps)
qed

lemma field_less:
  assumes "0 \<le> i" "i < 10 ^ n" "0 \<le> j" "j < 10 ^ n" "0 < n"
  shows "zero_padded n i @ x < zero_padded n j @ y \<longleftrightarrow> i < j \<or> i = j \<and> x < y"
  using zero_padded_order [OF assms] zero_padded_order(1) [OF assms(3,4,3,4,5)] by (simp add: less_append)

lemma blank_padded_full: "1000 \<le> i \<Longrightarrow> i < 10000 \<Longrightarrow> blank_padded 4 i = zero_padded 4 i"
proof -
  assume i: "1000 \<le> i" "i < 10000"
  then have "10 ^ 3 \<le> nat i" by simp
  then have "3 < length (dec (nat i))" by (rule length_dec_ge)
  then show ?thesis using i by (simp add: blank_padded_def zero_padded_def dec_int_def)
qed

section \<open>The order of formatted times\<close>

text \<open>The fields of a calendar time, most significant first.\<close>

definition calendar :: "tm \<Rightarrow> int list" where
  "calendar t = [tm_year t, tm_mon t, tm_mday t, tm_hour t, tm_min t, tm_sec t]"

text \<open>
  What the order relies on: before \<open>limit\<close> the clock gives calendar times of four-digit
  years, later ones for later seconds (a zone that does not set the clock back).
\<close>

definition clock_forward :: "(int \<Rightarrow> tm) \<Rightarrow> int \<Rightarrow> bool" where
  "clock_forward localtime limit \<longleftrightarrow>
     (\<forall>s\<in>{0..<limit}. tm_ok (localtime s) \<and> 1000 \<le> tm_year (localtime s) + 1900) \<and>
     (\<forall>s\<in>{0..<limit}. \<forall>s'\<in>{0..<limit}. s < s' \<longrightarrow> calendar (localtime s) < calendar (localtime s'))"

lemma time_text_order:
  assumes "tm_ok a" "1000 \<le> tm_year a + 1900" "tm_ok b" "1000 \<le> tm_year b + 1900"
  shows "time_text ''/'' a @ x < time_text ''/'' b @ y \<longleftrightarrow> calendar a < calendar b \<or> calendar a = calendar b \<and> x < y"
proof -
  have four: "blank_padded 4 (tm_year t + 1900) = zero_padded 4 (tm_year t + 1900)"
    if "tm_ok t" "1000 \<le> tm_year t + 1900" for t
    using that by (intro blank_padded_full) (simp_all add: tm_ok_def)
  have two: "zero_padded 2 i @ u < zero_padded 2 j @ v \<longleftrightarrow> i < j \<or> i = j \<and> u < v"
    if "0 \<le> i" "i < 100" "0 \<le> j" "j < 100" for i j u v
    using field_less [of i 2 j] that by simp
  have "zero_padded 4 (tm_year a + 1900) @ u < zero_padded 4 (tm_year b + 1900) @ v \<longleftrightarrow>
      tm_year a < tm_year b \<or> tm_year a = tm_year b \<and> u < v" for u v
    using field_less [of "tm_year a + 1900" 4 "tm_year b + 1900"] assms(1,3) by (simp add: tm_ok_def)
  moreover have "zero_padded 2 (tm_mon a + 1) @ u < zero_padded 2 (tm_mon b + 1) @ v \<longleftrightarrow>
      tm_mon a < tm_mon b \<or> tm_mon a = tm_mon b \<and> u < v" for u v
    using two [of "tm_mon a + 1" "tm_mon b + 1"] assms(1,3) by (simp add: tm_ok_def add1_zle_eq)
  moreover have "zero_padded 2 (f a) @ u < zero_padded 2 (f b) @ v \<longleftrightarrow> f a < f b \<or> f a = f b \<and> u < v"
    if "f \<in> {tm_mday, tm_hour, tm_min, tm_sec}" for f u v
    using two [of "f a" "f b"] assms(1,3) that by (auto simp: tm_ok_def)
  ultimately show ?thesis
    by (simp add: time_text_def four assms calendar_def) blast
qed

lemma seconds_micros:
  assumes "0 \<le> t"
  shows "t sdiv kMicroSecondsPerSecond = t div 1000000" "t smod kMicroSecondsPerSecond = t mod 1000000"
  using assms
  by (cases "t = 0"; simp add: kMicroSecondsPerSecond_def signed_divide_int_def signed_modulo_int_def)+

lemma less_seconds_micros:
  "a < b \<longleftrightarrow> a div 1000000 < b div 1000000 \<or> a div 1000000 = b div 1000000 \<and> a mod 1000000 < b mod (1000000 :: int)"
proof -
  have "1000000 * q + r < 1000000 * q' + r' \<longleftrightarrow> q < q' \<or> q = q' \<and> r < r'"
    if "0 \<le> r" "r < 1000000" "0 \<le> r'" "r' < 1000000" for q r q' r' :: int
    using that by (cases q q' rule: linorder_cases) auto
  from this [of "a mod 1000000" "b mod 1000000" "a div 1000000" "b div 1000000"] show ?thesis by simp
qed

lemma formatted_text:
  assumes "tm_ok (localtime (t sdiv kMicroSecondsPerSecond))" and "0 \<le> t"
  shows "toFormattedString localtime True t = time_text ''/'' (localtime (t div 1000000)) @ CHR ''.'' # zero_padded 6 (t mod 1000000)"
    and "toFormattedString localtime False t = time_text ''/'' (localtime (t div 1000000))"
proof -
  note s = seconds_micros [OF assms(2)]
  have "length (time_text ''/'' (localtime (t div 1000000))) = 19"
    using assms(1) s by (simp add: time_text_minute length_minute_text length_zero_padded_2 tm_ok_def)
  moreover have "length (zero_padded 6 (t mod 1000000)) = 6" by (simp add: length_zero_padded_6)
  ultimately show "toFormattedString localtime True t = time_text ''/'' (localtime (t div 1000000)) @ CHR ''.'' # zero_padded 6 (t mod 1000000)"
    "toFormattedString localtime False t = time_text ''/'' (localtime (t div 1000000))"
    by (simp_all add: toFormattedString_def s Let_def)
qed

section \<open>Properties\<close>

text \<open>
  C37: formatted times sort like the times. With a clock that does not go back, the texts
  of two timestamps with their microseconds compare in lexicographic order exactly as
  the operator \<open><\<close> compares the timestamps, and the texts without them as their
  seconds do; so sorting lines by their time stamp sorts them by time.
\<close>

theorem formatted_order:
  assumes "clock_forward localtime limit" and "0 \<le> a" "a div 1000000 < limit" and "0 \<le> b" "b div 1000000 < limit"
  shows "(toFormattedString localtime True a < toFormattedString localtime True b \<longleftrightarrow> Timestamp a < Timestamp b) \<and>
    (toFormattedString localtime False a < toFormattedString localtime False b \<longleftrightarrow> secondsSinceEpoch a < secondsSinceEpoch b)"
proof -
  let ?s = "\<lambda>t :: int. t div 1000000"
  have range: "?s a \<in> {0..<limit}" "?s b \<in> {0..<limit}" using assms(2-5) by auto
  have sec: "secondsSinceEpoch t = ?s t" if "0 \<le> t" for t
    using that by (simp add: secondsSinceEpoch_def seconds_micros)
  have ok: "tm_ok (localtime (?s a))" "1000 \<le> tm_year (localtime (?s a)) + 1900"
    "tm_ok (localtime (?s b))" "1000 \<le> tm_year (localtime (?s b)) + 1900"
    using assms(1) range unfolding clock_forward_def by blast+
  have fmt: "toFormattedString localtime True t = time_text ''/'' (localtime (?s t)) @ CHR ''.'' # zero_padded 6 (t mod 1000000)"
    "toFormattedString localtime False t = time_text ''/'' (localtime (?s t))"
    if "tm_ok (localtime (?s t))" "0 \<le> t" for t
    using formatted_text [of localtime t] that sec [OF that(2)] by (simp_all add: secondsSinceEpoch_def)
  have cal: "calendar (localtime (?s a)) < calendar (localtime (?s b)) \<longleftrightarrow> ?s a < ?s b"
    "calendar (localtime (?s a)) = calendar (localtime (?s b)) \<longleftrightarrow> ?s a = ?s b"
    using assms(1) range unfolding clock_forward_def by (metis less_asym less_irrefl linorder_neqE)+
  have "a < b \<longleftrightarrow> ?s a < ?s b \<or> ?s a = ?s b \<and> a mod 1000000 < b mod 1000000" by (rule less_seconds_micros)
  moreover have "zero_padded 6 (a mod 1000000) < zero_padded 6 (b mod 1000000) \<longleftrightarrow> a mod 1000000 < b mod 1000000"
    using zero_padded_order(2) [of "a mod 1000000" 6 "b mod 1000000"] by simp
  ultimately show ?thesis
    using time_text_order [OF ok, of "CHR ''.'' # zero_padded 6 (a mod 1000000)" "CHR ''.'' # zero_padded 6 (b mod 1000000)"]
      time_text_order [OF ok, of "[]" "[]"] fmt [OF ok(1) assms(2)] fmt [OF ok(3) assms(4)] cal sec assms(2,4)
    by simp
qed

text \<open>A minute of a clock.\<close>

definition demo_clock :: "int \<Rightarrow> tm" where
  "demo_clock s = \<lparr>tm_year = 124, tm_mon = 4, tm_mday = 17, tm_hour = 9, tm_min = 30, tm_sec = s\<rparr>"

theorem formatted_order_witness:
  "toFormattedString demo_clock True 1999999 < toFormattedString demo_clock True 2000000 \<and>
   toFormattedString demo_clock False 9000000 < toFormattedString demo_clock False 10000000"
proof -
  have c: "clock_forward demo_clock 60"
    by (auto simp: clock_forward_def demo_clock_def tm_ok_def calendar_def)
  show ?thesis
    using formatted_order [OF c, of 1999999 2000000] formatted_order [OF c, of 9000000 10000000]
    by (simp add: secondsSinceEpoch_def kMicroSecondsPerSecond_def signed_divide_int_def)
qed

end
