(* ===== verification/Memory_Pool.thy ===== *)
theory Memory_Pool
  imports Prelude "HOL-Library.Word"
begin

text \<open>
  The classes \<open>MemoryPool\<close> and \<open>HashBucket\<close> (\<open>src/include/MemoryPool.h\<close>,
  \<open>src/src/memorypool/MemoryPool.cpp\<close>): slots of one size cut from blocks of 4096 bytes,
  with a list of the freed slots that is threaded through the slots themselves, and 64
  such pools for the sizes 8, 16, ..., 512.

  Memory is a function from the address of an aligned word to its contents, and a word
  may be read or written only inside a block that \<open>operator new\<close> has returned; 0 is the
  null pointer. \<open>operator new\<close> is a parameter: the address of the next block, with what
  the standard promises of it (\<open>new_ok\<close>). Addresses are natural numbers, since a block
  does not wrap around the address space; the difference in \<open>padPointer\<close> does wrap and
  is computed on 64 bits. The mutex of the free list and the mutex of the current block do
  not exclude each other, and \<open>freeList_\<close> is cleared under the second: what one thread
  does under either mutex is therefore cut into steps at every access to \<open>freeList_\<close>,
  and the threads interleave between these steps, also with stores to the slots they own.
  The unlocked accesses are taken in one order (sequential consistency).
\<close>

section \<open>Data and operations\<close>

subsection \<open>Pools\<close>

type_synonym addr = nat

definition MEMORY_POOL_NUM :: nat where "MEMORY_POOL_NUM = 64"
definition SLOT_BASE_SIZE :: nat where "SLOT_BASE_SIZE = 8"
definition MAX_SLOT_SIZE :: nat where "MAX_SLOT_SIZE = 512"

definition sizeof_Slot :: nat where "sizeof_Slot = 8"

record mem_pool =
  mp_BlockSize :: nat
  mp_SlotSize :: nat
  mp_firstBlock :: addr
  mp_curSlot :: addr
  mp_freeList :: addr
  mp_lastSlot :: addr

record pool_world =
  pw_pool :: mem_pool
  pw_mem :: "addr \<Rightarrow> addr"
  pw_blocks :: "addr list"

text \<open>The field \<open>next\<close> of the slot at an address.\<close>

definition valid_word :: "pool_world \<Rightarrow> addr \<Rightarrow> bool" where
  "valid_word w a \<longleftrightarrow>
     list_ex (\<lambda>b. b \<le> a \<and> a + sizeof_Slot \<le> b + mp_BlockSize (pw_pool w)) (pw_blocks w)"

definition load_next :: "addr \<Rightarrow> pool_world \<Rightarrow> addr res" where
  "load_next a w = (if valid_word w a then Inr (pw_mem w a) else Inl BadPointer)"

definition store_next :: "addr \<Rightarrow> addr \<Rightarrow> pool_world \<Rightarrow> pool_world res" where
  "store_next a v w =
     (if valid_word w a then Inr (w\<lparr>pw_mem := (pw_mem w)(a := v)\<rparr>) else Inl BadPointer)"

text \<open>
  The constructor sets the block size only; \<open>garbage\<close> stands for the members that it
  leaves uninitialised.
\<close>

definition MemoryPool_new :: "mem_pool \<Rightarrow> nat \<Rightarrow> mem_pool" where
  "MemoryPool_new garbage BlockSize = garbage\<lparr>mp_BlockSize := BlockSize\<rparr>"

definition pool_init :: "nat \<Rightarrow> mem_pool \<Rightarrow> mem_pool res" where
  "pool_init sz p =
     (if sz > 0 then
        Inr (p\<lparr>mp_SlotSize := sz, mp_firstBlock := 0, mp_curSlot := 0, mp_freeList := 0,
               mp_lastSlot := 0\<rparr>)
      else Inl AssertFail)"

definition padPointer :: "addr \<Rightarrow> nat \<Rightarrow> nat" where
  "padPointer p align = unat ((of_nat align - of_nat p :: 64 word) mod of_nat align)"

text \<open>
  \<open>allocateNewBlock\<close> up to its last statement, which clears the free list, and as a whole.
\<close>

definition set_freeList :: "addr \<Rightarrow> pool_world \<Rightarrow> pool_world" where
  "set_freeList v w = w\<lparr>pw_pool := (pw_pool w)\<lparr>mp_freeList := v\<rparr>\<rparr>"

definition cutNewBlock :: "addr \<Rightarrow> pool_world \<Rightarrow> pool_world res" where
  "cutNewBlock newBlock w =
     res_bind
       (store_next newBlock (mp_firstBlock (pw_pool w)) (w\<lparr>pw_blocks := newBlock # pw_blocks w\<rparr>))
       (\<lambda>w1.
          (let p = pw_pool w1; body = newBlock + sizeof_Slot;
               paddingSize = padPointer body (mp_SlotSize p)
           in Inr (w1\<lparr>pw_pool := p\<lparr>mp_firstBlock := newBlock, mp_curSlot := body + paddingSize,
                mp_lastSlot := newBlock + mp_BlockSize p - mp_SlotSize p + 1\<rparr>\<rparr>)))"

definition allocateNewBlock :: "addr \<Rightarrow> pool_world \<Rightarrow> pool_world res" where
  "allocateNewBlock newBlock w = res_bind (cutNewBlock newBlock w) (\<lambda>w1. Inr (set_freeList 0 w1))"

text \<open>
  The sections of \<open>allocate\<close> and \<open>deallocate\<close>, run by one thread without interruption:
  on the free list, where \<open>freeList_\<close> is read anew for its field \<open>next\<close>, and on the
  current block.
\<close>

definition allocate_free :: "pool_world \<Rightarrow> (addr option \<times> pool_world) res" where
  "allocate_free w =
     (if mp_freeList (pw_pool w) \<noteq> 0 then
        (let temp = mp_freeList (pw_pool w)
         in res_bind (load_next (mp_freeList (pw_pool w)) w) (\<lambda>next. Inr (Some temp, set_freeList next w)))
      else Inr (None, w))"

definition take_slot :: "pool_world \<Rightarrow> addr \<times> pool_world" where
  "take_slot w =
     (let p = pw_pool w; temp = mp_curSlot p
      in (temp, w\<lparr>pw_pool := p\<lparr>mp_curSlot := temp + mp_SlotSize p div sizeof_Slot * sizeof_Slot\<rparr>\<rparr>))"

definition allocate_block :: "addr \<Rightarrow> pool_world \<Rightarrow> (addr \<times> pool_world) res" where
  "allocate_block newBlock w =
     res_bind
       (if mp_curSlot (pw_pool w) \<ge> mp_lastSlot (pw_pool w) then allocateNewBlock newBlock w else Inr w)
       (\<lambda>w1. Inr (take_slot w1))"

definition allocate :: "addr \<Rightarrow> pool_world \<Rightarrow> (addr \<times> pool_world) res" where
  "allocate newBlock w =
     res_bind (allocate_free w) (\<lambda>(r, w1).
       case r of Some p \<Rightarrow> Inr (p, w1) | None \<Rightarrow> allocate_block newBlock w1)"

definition deallocate :: "addr \<Rightarrow> pool_world \<Rightarrow> pool_world res" where
  "deallocate ptr w =
     (if ptr \<noteq> 0 then
        res_bind (store_next ptr (mp_freeList (pw_pool w)) w) (\<lambda>w1. Inr (set_freeList ptr w1))
      else Inr w)"

text \<open>The destructor; \<open>operator delete\<close> takes only a block that has not been deleted.\<close>

definition delete_block :: "addr \<Rightarrow> pool_world \<Rightarrow> pool_world res" where
  "delete_block b w =
     (if b \<in> set (pw_blocks w) then Inr (w\<lparr>pw_blocks := remove1 b (pw_blocks w)\<rparr>) else Inl BadPointer)"

partial_function (option) dtor_loop :: "addr \<Rightarrow> pool_world \<Rightarrow> pool_world res option" where
  "dtor_loop cur w =
     (if cur \<noteq> 0 then
        (case res_bind (load_next cur w) (\<lambda>next. res_bind (delete_block cur w) (\<lambda>w1. Inr (next, w1))) of
           Inl e \<Rightarrow> Some (Inl e)
         | Inr (next, w1) \<Rightarrow> dtor_loop next w1)
      else Some (Inr w))"

definition MemoryPool_dtor :: "pool_world \<Rightarrow> pool_world res option" where
  "MemoryPool_dtor w = dtor_loop (mp_firstBlock (pw_pool w)) w"

subsection \<open>Buckets\<close>

text \<open>
  Each pool has its own blocks, so each has a memory of its own here; \<open>hb_big\<close> holds the
  addresses that \<open>operator new\<close> returned for the sizes above 512.
\<close>

record hash_bucket =
  hb_pools :: "pool_world list"
  hb_big :: "addr list"

definition pool_index :: "nat \<Rightarrow> int" where
  "pool_index sz = int ((sz + 7) div SLOT_BASE_SIZE) - 1"

definition getMemoryPool :: "int \<Rightarrow> hash_bucket \<Rightarrow> pool_world res" where
  "getMemoryPool index hb =
     (if 0 \<le> index \<and> nat index < length (hb_pools hb) then Inr (hb_pools hb ! nat index) else Inl OutOfBounds)"

definition putMemoryPool :: "int \<Rightarrow> pool_world \<Rightarrow> hash_bucket \<Rightarrow> hash_bucket" where
  "putMemoryPool index w hb = hb\<lparr>hb_pools := (hb_pools hb)[nat index := w]\<rparr>"

fun init_pools :: "nat \<Rightarrow> hash_bucket \<Rightarrow> hash_bucket res" where
  "init_pools 0 hb = Inr hb"
| "init_pools (Suc i) hb =
     res_bind (init_pools i hb) (\<lambda>hb1.
       res_bind (getMemoryPool (int i) hb1) (\<lambda>w.
         res_bind (pool_init ((i + 1) * SLOT_BASE_SIZE) (pw_pool w)) (\<lambda>p.
           Inr (putMemoryPool (int i) (w\<lparr>pw_pool := p\<rparr>) hb1))))"

definition initMemoryPool :: "hash_bucket \<Rightarrow> hash_bucket res" where
  "initMemoryPool hb = init_pools MEMORY_POOL_NUM hb"

definition useMemory :: "addr \<Rightarrow> nat \<Rightarrow> hash_bucket \<Rightarrow> (addr \<times> hash_bucket) res" where
  "useMemory newMem sz hb =
     (if sz = 0 then Inr (0, hb)
      else if sz > MAX_SLOT_SIZE then Inr (newMem, hb\<lparr>hb_big := newMem # hb_big hb\<rparr>)
      else
        res_bind (getMemoryPool (pool_index sz) hb) (\<lambda>w.
          res_bind (allocate newMem w) (\<lambda>(p, w1).
            Inr (p, putMemoryPool (pool_index sz) w1 hb))))"

definition freeMemory :: "addr \<Rightarrow> nat \<Rightarrow> hash_bucket \<Rightarrow> hash_bucket res" where
  "freeMemory ptr sz hb =
     (if ptr = 0 then Inr hb
      else if sz > MAX_SLOT_SIZE then
        (if ptr \<in> set (hb_big hb) then Inr (hb\<lparr>hb_big := remove1 ptr (hb_big hb)\<rparr>) else Inl BadPointer)
      else
        res_bind (getMemoryPool (pool_index sz) hb) (\<lambda>w.
          res_bind (deallocate ptr w) (\<lambda>w1. Inr (putMemoryPool (pool_index sz) w1 hb))))"

text \<open>
  The templates \<open>newElement\<close> and \<open>deleteElement\<close>: \<open>sz\<close> is \<open>sizeof(T)\<close>, and what the
  constructor and the destructor of \<open>T\<close> do at an address are parameters.
\<close>

definition newElement ::
    "(addr \<Rightarrow> hash_bucket \<Rightarrow> hash_bucket res) \<Rightarrow> addr \<Rightarrow> nat \<Rightarrow> hash_bucket \<Rightarrow> (addr \<times> hash_bucket) res" where
  "newElement construct newMem sz hb =
     res_bind (useMemory newMem sz hb) (\<lambda>(p, hb1).
       if p \<noteq> 0 then res_bind (construct p hb1) (\<lambda>hb2. Inr (p, hb2)) else Inr (p, hb1))"

definition deleteElement ::
    "(addr \<Rightarrow> hash_bucket \<Rightarrow> hash_bucket res) \<Rightarrow> addr \<Rightarrow> nat \<Rightarrow> hash_bucket \<Rightarrow> hash_bucket res" where
  "deleteElement destruct p sz hb =
     (if p \<noteq> 0 then res_bind (destruct p hb) (freeMemory p sz) else Inr hb)"

subsection \<open>Threads\<close>

text \<open>
  What \<open>operator new\<close> promises of a block: it is not null, aligned for every type, does
  not wrap around the address space and does not overlap a block in use.
\<close>

definition new_ok :: "addr \<Rightarrow> pool_world \<Rightarrow> bool" where
  "new_ok b w \<longleftrightarrow> 0 < b \<and> b mod 16 = 0 \<and> b + mp_BlockSize (pw_pool w) < 2 ^ 64 \<and>
     list_all (\<lambda>b'. b + mp_BlockSize (pw_pool w) \<le> b' \<or> b' + mp_BlockSize (pw_pool w) \<le> b) (pw_blocks w)"

text \<open>
  Where the holder of \<open>mutexForFreeList_\<close> is: nobody holds it; in \<open>allocate\<close> before
  \<open>temp = freeList_\<close>, before \<open>freeList_->next\<close> is read, and before what was read is written
  to \<open>freeList_\<close>; in \<open>deallocate\<close> before \<open>freeList_ = ptr\<close>.
\<close>

datatype list_pc = ListFree | AtTemp | AtNext addr | AtStore addr addr | AtPush addr

text \<open>
  The pool with the slots that its users hold and the number of threads in \<open>allocate\<close>
  that have passed the free list and not yet taken a slot of the block. \<open>ps_clearing\<close>: one
  of them has cut a new block, holds \<open>mutexForBlock_\<close> and is about to clear the free list.
  \<open>ps_cleared\<close> is a history variable: the free list has been cleared since the holder of
  \<open>mutexForFreeList_\<close> found it not empty.
\<close>

record pool_state =
  ps_world :: pool_world
  ps_live :: "addr list"
  ps_missed :: nat
  ps_list :: list_pc
  ps_clearing :: bool
  ps_cleared :: bool

text \<open>
  \<open>alloc_miss\<close> is the check without the lock that finds the list empty, or the one with
  the lock; a thread that enters the section has passed both. The load in \<open>alloc_next\<close>
  may fail: then the program is at the dereference of a pointer to no slot. Where an access
  to \<open>freeList_\<close> is followed by one to a slot that no other thread may change then (the
  field \<open>next\<close> of a listed slot or of the one to be released), the two are one step.
\<close>

inductive pool_step :: "pool_state \<Rightarrow> pool_state \<Rightarrow> bool" where
  alloc_miss:
    "mp_freeList (pw_pool (ps_world s)) = 0 \<Longrightarrow>
     pool_step s (s\<lparr>ps_missed := ps_missed s + 1\<rparr>)"
| alloc_lock:
    "ps_list s = ListFree \<Longrightarrow> mp_freeList (pw_pool (ps_world s)) \<noteq> 0 \<Longrightarrow>
     pool_step s (s\<lparr>ps_list := AtTemp, ps_cleared := False\<rparr>)"
| alloc_temp:
    "ps_list s = AtTemp \<Longrightarrow>
     pool_step s (s\<lparr>ps_list := AtNext (mp_freeList (pw_pool (ps_world s)))\<rparr>)"
| alloc_next:
    "ps_list s = AtNext temp \<Longrightarrow>
     load_next (mp_freeList (pw_pool (ps_world s))) (ps_world s) = Inr next \<Longrightarrow>
     pool_step s (s\<lparr>ps_list := AtStore temp next\<rparr>)"
| alloc_store:
    "ps_list s = AtStore temp next \<Longrightarrow>
     pool_step s (s\<lparr>ps_world := set_freeList next (ps_world s), ps_live := temp # ps_live s,
       ps_list := ListFree\<rparr>)"
| block_slot:
    "0 < ps_missed s \<Longrightarrow> \<not> ps_clearing s \<Longrightarrow>
     mp_curSlot (pw_pool (ps_world s)) < mp_lastSlot (pw_pool (ps_world s)) \<Longrightarrow>
     take_slot (ps_world s) = (p, w) \<Longrightarrow>
     pool_step s (s\<lparr>ps_world := w, ps_live := p # ps_live s, ps_missed := ps_missed s - 1\<rparr>)"
| block_cut:
    "0 < ps_missed s \<Longrightarrow> \<not> ps_clearing s \<Longrightarrow>
     mp_curSlot (pw_pool (ps_world s)) \<ge> mp_lastSlot (pw_pool (ps_world s)) \<Longrightarrow>
     new_ok newBlock (ps_world s) \<Longrightarrow> cutNewBlock newBlock (ps_world s) = Inr w \<Longrightarrow>
     pool_step s (s\<lparr>ps_world := w, ps_clearing := True\<rparr>)"
| block_clear:
    "ps_clearing s \<Longrightarrow> take_slot (set_freeList 0 (ps_world s)) = (p, w) \<Longrightarrow>
     pool_step s (s\<lparr>ps_world := w, ps_live := p # ps_live s, ps_missed := ps_missed s - 1,
       ps_clearing := False, ps_cleared := True\<rparr>)"
| free_lock:
    "ps_list s = ListFree \<Longrightarrow> p \<in> set (ps_live s) \<Longrightarrow>
     store_next p (mp_freeList (pw_pool (ps_world s))) (ps_world s) = Inr w \<Longrightarrow>
     pool_step s (s\<lparr>ps_world := w, ps_live := remove1 p (ps_live s), ps_list := AtPush p\<rparr>)"
| free_push:
    "ps_list s = AtPush p \<Longrightarrow>
     pool_step s (s\<lparr>ps_world := set_freeList p (ps_world s), ps_list := ListFree\<rparr>)"
| use_slot:
    "p \<in> set (ps_live s) \<Longrightarrow> p \<le> a \<Longrightarrow> a + 8 \<le> p + mp_SlotSize (pw_pool (ps_world s)) \<Longrightarrow>
     a mod 8 = 0 \<Longrightarrow> store_next a v (ps_world s) = Inr w \<Longrightarrow>
     pool_step s (s\<lparr>ps_world := w\<rparr>)"

text \<open>A pool of the bucket after \<open>initMemoryPool\<close>.\<close>

definition pool_start :: "pool_state \<Rightarrow> bool" where
  "pool_start s \<longleftrightarrow> (\<exists>i garbage. i < MEMORY_POOL_NUM \<and>
     pool_init ((i + 1) * SLOT_BASE_SIZE) (MemoryPool_new garbage 4096) = Inr (pw_pool (ps_world s)) \<and>
     pw_blocks (ps_world s) = [] \<and> ps_live s = [] \<and> ps_missed s = 0 \<and> ps_list s = ListFree \<and>
     \<not> ps_clearing s)"

section \<open>Invariant\<close>

text \<open>Lists that are linked through the memory, from an address to null.\<close>

primrec chain :: "(addr \<Rightarrow> addr) \<Rightarrow> addr \<Rightarrow> addr list \<Rightarrow> bool" where
  "chain m p [] \<longleftrightarrow> p = 0"
| "chain m p (a # as) \<longleftrightarrow> p = a \<and> a \<noteq> 0 \<and> chain m (m a) as"

definition apart :: "nat \<Rightarrow> addr \<Rightarrow> addr \<Rightarrow> bool" where
  "apart n a b \<longleftrightarrow> a + n \<le> b \<or> b + n \<le> a"

definition size_ok :: "pool_world \<Rightarrow> bool" where
  "size_ok w \<longleftrightarrow> mp_BlockSize (pw_pool w) = 4096 \<and> 8 dvd mp_SlotSize (pw_pool w) \<and>
     8 \<le> mp_SlotSize (pw_pool w) \<and> mp_SlotSize (pw_pool w) \<le> 512"

definition blocks_ok :: "pool_world \<Rightarrow> bool" where
  "blocks_ok w \<longleftrightarrow> chain (pw_mem w) (mp_firstBlock (pw_pool w)) (pw_blocks w) \<and>
     distinct (pw_blocks w) \<and> pairwise (apart 4096) (set (pw_blocks w)) \<and>
     (\<forall>b \<in> set (pw_blocks w). 8 dvd b \<and> b + 4096 < 2 ^ 64)"

definition in_block :: "pool_world \<Rightarrow> addr \<Rightarrow> bool" where
  "in_block w a \<longleftrightarrow>
     (\<exists>b \<in> set (pw_blocks w). b + 8 \<le> a \<and> a + mp_SlotSize (pw_pool w) \<le> b + 4096)"

definition slots_ok :: "pool_world \<Rightarrow> addr set \<Rightarrow> bool" where
  "slots_ok w A \<longleftrightarrow> pairwise (apart (mp_SlotSize (pw_pool w))) A \<and> (\<forall>a \<in> A. 8 dvd a \<and> in_block w a)"

text \<open>The rest of the newest block, from \<open>curSlot_\<close> on, holds no slot.\<close>

definition rest_ok :: "pool_world \<Rightarrow> addr set \<Rightarrow> bool" where
  "rest_ok w A \<longleftrightarrow>
     (case pw_blocks w of
        [] \<Rightarrow> mp_curSlot (pw_pool w) = 0 \<and> mp_lastSlot (pw_pool w) = 0
      | b # bs \<Rightarrow> mp_lastSlot (pw_pool w) = b + 4096 - mp_SlotSize (pw_pool w) + 1 \<and>
          b + 8 \<le> mp_curSlot (pw_pool w) \<and> 8 dvd mp_curSlot (pw_pool w) \<and>
          (\<forall>a \<in> A. a + mp_SlotSize (pw_pool w) \<le> mp_curSlot (pw_pool w) \<or> b + 4096 \<le> a))"

definition pool_ok :: "pool_world \<Rightarrow> addr list \<Rightarrow> addr list \<Rightarrow> bool" where
  "pool_ok w fl live \<longleftrightarrow> size_ok w \<and> blocks_ok w \<and> chain (pw_mem w) (mp_freeList (pw_pool w)) fl \<and>
     distinct (fl @ live) \<and> slots_ok w (set fl \<union> set live) \<and> rest_ok w (set fl \<union> set live)"

text \<open>
  The free list that the holder of the mutex works on: the slots on it stay out of use
  even when \<open>freeList_\<close> has been cleared meanwhile.
\<close>

fun list_head :: "list_pc \<Rightarrow> addr \<Rightarrow> addr" where
  "list_head ListFree h = h"
| "list_head AtTemp h = h"
| "list_head (AtNext temp) h = temp"
| "list_head (AtStore temp next) h = temp"
| "list_head (AtPush p) h = p"

fun pc_ok :: "list_pc \<Rightarrow> bool \<Rightarrow> addr \<Rightarrow> (addr \<Rightarrow> addr) \<Rightarrow> bool" where
  "pc_ok ListFree cl h m \<longleftrightarrow> True"
| "pc_ok AtTemp cl h m \<longleftrightarrow> (h = 0 \<longleftrightarrow> cl)"
| "pc_ok (AtNext temp) cl h m \<longleftrightarrow> h = (if cl then 0 else temp) \<and> (temp = 0 \<longrightarrow> cl)"
| "pc_ok (AtStore temp next) cl h m \<longleftrightarrow> temp \<noteq> 0 \<and> next = m temp"
| "pc_ok (AtPush p) cl h m \<longleftrightarrow> True"

definition pool_view :: "pool_state \<Rightarrow> pool_world" where
  "pool_view s = set_freeList (list_head (ps_list s) (mp_freeList (pw_pool (ps_world s)))) (ps_world s)"

definition pool_inv :: "pool_state \<Rightarrow> bool" where
  "pool_inv s \<longleftrightarrow> (\<exists>fl. pool_ok (pool_view s) fl (ps_live s)) \<and>
     pc_ok (ps_list s) (ps_cleared s) (mp_freeList (pw_pool (ps_world s))) (pw_mem (ps_world s)) \<and>
     (ps_clearing s \<longrightarrow> mp_curSlot (pw_pool (ps_world s)) < mp_lastSlot (pw_pool (ps_world s)))"

section \<open>Lemmas\<close>

lemma chain_update [simp]: "a \<notin> set as \<Longrightarrow> chain (m(a := v)) p as = chain m p as"
  by (induction as arbitrary: p) auto

lemma chain_null [simp]: "chain m 0 as \<longleftrightarrow> as = []"
  by (cases as) auto

lemma chain_nonnull: "p \<noteq> 0 \<Longrightarrow> chain m p as \<longleftrightarrow> (\<exists>bs. as = p # bs \<and> chain m (m p) bs)"
  by (cases as) auto

lemma apart_sym: "apart n a b = apart n b a"
  by (auto simp: apart_def)

lemma padPointer_less: "0 < align \<Longrightarrow> align < 2 ^ 64 \<Longrightarrow> padPointer p align < align"
  by (simp add: padPointer_def unat_mod take_bit_nat_eq_self_iff unsigned_of_nat take_bit_nat_eq_self)

text \<open>The wrap-around is harmless for 8-byte alignment, since 8 divides the modulus.\<close>

lemma padPointer_dvd:
  assumes "8 dvd align" and "8 dvd p" and "align < 2 ^ 64" and "p < 2 ^ 64"
  shows "8 dvd padPointer p align"
proof -
  have "unat (of_nat align :: 64 word) = align" "unat (of_nat p :: 64 word) = p"
    using assms(3,4) by (simp_all add: unsigned_of_nat take_bit_nat_eq_self)
  moreover have "8 dvd align + (18446744073709551616 - p)"
    using assms(1,2) by (intro dvd_add dvd_diff_nat) simp_all
  ultimately show ?thesis
    using assms by (auto simp: padPointer_def unat_mod unat_sub_if' dvd_mod)
qed

lemma in_block_valid:
  assumes "size_ok w" and "in_block w p" and "p \<le> a" and "a + 8 \<le> p + mp_SlotSize (pw_pool w)"
  shows "valid_word w a"
proof -
  obtain b where b: "b \<in> set (pw_blocks w)" "b + 8 \<le> p" "p + mp_SlotSize (pw_pool w) \<le> b + 4096"
    using assms(2) by (auto simp: in_block_def)
  then have "b \<le> a \<and> a + 8 \<le> b + 4096" using assms(3,4) by linarith
  with b(1) assms(1) show ?thesis by (auto simp: size_ok_def valid_word_def list_ex_iff sizeof_Slot_def)
qed

text \<open>What the parts of the invariant do not depend on.\<close>

lemma pool_parts_mem [simp]:
  "size_ok (w\<lparr>pw_mem := m\<rparr>) = size_ok w" "slots_ok (w\<lparr>pw_mem := m\<rparr>) A = slots_ok w A"
  "rest_ok (w\<lparr>pw_mem := m\<rparr>) A = rest_ok w A"
  by (simp_all add: size_ok_def slots_ok_def in_block_def rest_ok_def split: list.split)

lemma set_freeList_fields [simp]:
  "mp_BlockSize (pw_pool (set_freeList x w)) = mp_BlockSize (pw_pool w)"
  "mp_SlotSize (pw_pool (set_freeList x w)) = mp_SlotSize (pw_pool w)"
  "mp_firstBlock (pw_pool (set_freeList x w)) = mp_firstBlock (pw_pool w)"
  "mp_curSlot (pw_pool (set_freeList x w)) = mp_curSlot (pw_pool w)"
  "mp_lastSlot (pw_pool (set_freeList x w)) = mp_lastSlot (pw_pool w)"
  "mp_freeList (pw_pool (set_freeList x w)) = x"
  "pw_mem (set_freeList x w) = pw_mem w" "pw_blocks (set_freeList x w) = pw_blocks w"
  "set_freeList y (set_freeList x w) = set_freeList y w"
  "set_freeList x w\<lparr>pw_mem := m\<rparr> = set_freeList x (w\<lparr>pw_mem := m\<rparr>)"
  "set_freeList (mp_freeList (pw_pool w)) w = w"
  by (simp_all add: set_freeList_def)

lemma pool_parts_free [simp]:
  "size_ok (set_freeList x w) = size_ok w" "blocks_ok (set_freeList x w) = blocks_ok w"
  "slots_ok (set_freeList x w) A = slots_ok w A" "rest_ok (set_freeList x w) A = rest_ok w A"
  "in_block (set_freeList x w) a = in_block w a" "valid_word (set_freeList x w) a = valid_word w a"
  "new_ok b (set_freeList x w) = new_ok b w"
  by (simp_all add: size_ok_def blocks_ok_def slots_ok_def in_block_def rest_ok_def valid_word_def new_ok_def
      split: list.split)

text \<open>Which list \<open>freeList_\<close> heads does not matter to the operations that do not read it.\<close>

lemma set_freeList_commute:
  "cutNewBlock b (set_freeList x w) = res_bind (cutNewBlock b w) (\<lambda>w1. Inr (set_freeList x w1))"
  "take_slot (set_freeList x w) = (fst (take_slot w), set_freeList x (snd (take_slot w)))"
  "store_next a v (set_freeList x w) = res_bind (store_next a v w) (\<lambda>w1. Inr (set_freeList x w1))"
  by (simp_all add: cutNewBlock_def take_slot_def store_next_def set_freeList_def valid_word_def Let_def)

lemma freeList_unchanged:
  "cutNewBlock b w = Inr w' \<Longrightarrow> mp_freeList (pw_pool w') = mp_freeList (pw_pool w)"
  "mp_freeList (pw_pool (snd (take_slot w))) = mp_freeList (pw_pool w)"
  "store_next a v w = Inr w' \<Longrightarrow> mp_freeList (pw_pool w') = mp_freeList (pw_pool w)"
  by (auto simp: cutNewBlock_def take_slot_def store_next_def Let_def split: if_splits)

lemma take_slot_mem [simp]: "pw_mem (snd (take_slot w)) = pw_mem w"
  by (simp add: take_slot_def Let_def)

lemma rest_ok_subset: "rest_ok w A \<Longrightarrow> B \<subseteq> A \<Longrightarrow> rest_ok w B"
  by (auto simp: rest_ok_def split: list.splits)

lemma slots_ok_subset: "slots_ok w A \<Longrightarrow> B \<subseteq> A \<Longrightarrow> slots_ok w B"
  by (auto simp: slots_ok_def intro: pairwise_subset)

text \<open>No aligned word of a slot is the header of a block or belongs to another slot.\<close>

lemma slot_word_not_block:
  assumes "size_ok w" and "blocks_ok w" and "in_block w p" and "p \<le> a" and "a + 8 \<le> p + mp_SlotSize (pw_pool w)"
  shows "a \<notin> set (pw_blocks w)"
proof
  assume a: "a \<in> set (pw_blocks w)"
  obtain b where b: "b \<in> set (pw_blocks w)" "b + 8 \<le> p" "p + mp_SlotSize (pw_pool w) \<le> b + 4096"
    using assms(3) by (auto simp: in_block_def)
  then have "a \<noteq> b" using assms(4) by auto
  then have "apart 4096 a b" using assms(2) a b(1) by (auto simp: blocks_ok_def pairwise_def)
  then show False using assms(4,5) b by (auto simp: apart_def)
qed

lemma slot_word_other:
  "pairwise (apart n) A \<Longrightarrow> p \<in> A \<Longrightarrow> q \<in> A \<Longrightarrow> p \<noteq> q \<Longrightarrow> p \<le> a \<Longrightarrow> a + 8 \<le> p + n \<Longrightarrow> a \<noteq> q"
  by (fastforce simp: pairwise_def apart_def)

text \<open>A store into a slot that is in use.\<close>

lemma store_ok:
  assumes ok: "pool_ok w fl live" and p: "p \<in> set live" and a: "p \<le> a" "a + 8 \<le> p + mp_SlotSize (pw_pool w)"
  shows "valid_word w a \<and> a \<notin> set fl \<and> pool_ok (w\<lparr>pw_mem := (pw_mem w)(a := v)\<rparr>) fl live"
proof -
  have sz: "size_ok w" and bl: "blocks_ok w" and sl: "slots_ok w (set fl \<union> set live)"
    using ok by (auto simp: pool_ok_def)
  have ib: "in_block w p" using sl p by (auto simp: slots_ok_def)
  have "a \<notin> set (pw_blocks w)" using slot_word_not_block [OF sz bl ib a] .
  moreover have "a \<notin> set fl"
  proof
    assume "a \<in> set fl"
    moreover from this have "a \<noteq> p" using ok p by (auto simp: pool_ok_def)
    ultimately show False
      using slot_word_other [of _ "set fl \<union> set live" p a a] sl p a by (auto simp: slots_ok_def)
  qed
  moreover have "valid_word w a" using in_block_valid [OF sz ib a] .
  ultimately show ?thesis
    using ok by (simp add: pool_ok_def blocks_ok_def)
qed

text \<open>Taking the first slot of the free list, and dropping the list.\<close>

lemma pop_ok:
  assumes ok: "pool_ok w (p # fl) live"
  shows "pool_ok (set_freeList (pw_mem w p) w) fl (p # live)"
proof -
  have "set fl \<union> set (p # live) = set (p # fl) \<union> set live" by auto
  then show ?thesis using ok unfolding pool_ok_def by simp
qed

lemma clear_ok:
  assumes ok: "pool_ok w fl live"
  shows "pool_ok (set_freeList 0 w) [] live"
  using ok slots_ok_subset [of w "set fl \<union> set live" "set live"] rest_ok_subset [of w "set fl \<union> set live" "set live"]
  by (simp add: pool_ok_def)

lemma free_slot_valid: "pool_ok w fl live \<Longrightarrow> p \<in> set fl \<Longrightarrow> valid_word w p"
  using in_block_valid [of w p p] by (auto simp: pool_ok_def slots_ok_def size_ok_def)

lemma null_not_valid: "blocks_ok w \<Longrightarrow> \<not> valid_word w 0"
proof -
  have "chain m q as \<Longrightarrow> 0 \<notin> set as" for m q as by (induction as arbitrary: q) auto
  then show "blocks_ok w \<Longrightarrow> \<not> valid_word w 0" by (auto simp: blocks_ok_def valid_word_def list_ex_iff)
qed

lemma allocate_free_ok:
  assumes ok: "pool_ok w fl live"
  shows "(case fl of
      [] \<Rightarrow> allocate_free w = Inr (None, w)
    | p # fl' \<Rightarrow> \<exists>w'. allocate_free w = Inr (Some p, w') \<and> pool_ok w' fl' (p # live))"
proof (cases fl)
  case Nil
  then show ?thesis using ok by (simp add: pool_ok_def allocate_free_def)
next
  case (Cons p fl')
  have "allocate_free w = Inr (Some p, set_freeList (pw_mem w p) w)"
    using ok Cons free_slot_valid [OF ok, of p] by (auto simp: pool_ok_def allocate_free_def load_next_def Let_def)
  then show ?thesis using pop_ok [of w p fl' live] ok Cons by simp
qed

text \<open>The two steps of a release.\<close>

lemma push_ok:
  assumes ok: "pool_ok w fl live" and p: "p \<in> set live"
  shows "p \<noteq> 0 \<and> (\<exists>w'. store_next p (mp_freeList (pw_pool w)) w = Inr w' \<and>
    pool_ok (set_freeList p w') (p # fl) (remove1 p live))"
proof -
  let ?m = "w\<lparr>pw_mem := (pw_mem w)(p := mp_freeList (pw_pool w))\<rparr>"
  have "in_block w p" using ok p by (auto simp: pool_ok_def slots_ok_def)
  then have p0: "p \<noteq> 0" by (auto simp: in_block_def)
  have st: "valid_word w p" "pool_ok ?m fl live"
    using store_ok [OF ok p, of p "mp_freeList (pw_pool w)"] ok by (auto simp: pool_ok_def size_ok_def)
  have "p \<notin> set fl" "distinct live" using ok p by (auto simp: pool_ok_def)
  moreover from this have "set (p # fl) \<union> set (remove1 p live) = set fl \<union> set live"
    using p by (auto simp: set_remove1_eq)
  ultimately have "pool_ok (set_freeList p ?m) (p # fl) (remove1 p live)"
    using st(2) p p0 pool_parts_free [where w = ?m and x = p] unfolding pool_ok_def
    by (simp add: set_remove1_eq) auto
  then show ?thesis using st(1) p0 by (simp add: store_next_def)
qed

lemma deallocate_ok:
  assumes ok: "pool_ok w fl live" and p: "p \<in> set live"
  shows "p \<noteq> 0 \<and> (\<exists>w'. deallocate p w = Inr w' \<and> pool_ok w' (p # fl) (remove1 p live))"
  using push_ok [OF ok p] by (auto simp: deallocate_def)

text \<open>A new block: the slots in use and on the free list stay where they are.\<close>

lemma cutNewBlock_ok:
  assumes ok: "pool_ok w fl live" and new: "new_ok b w"
  shows "\<exists>w'. cutNewBlock b w = Inr w' \<and> pool_ok w' fl live \<and>
    mp_curSlot (pw_pool w') < mp_lastSlot (pw_pool w') \<and> (\<forall>p \<in> set fl. pw_mem w' p = pw_mem w p)"
proof -
  let ?S = "mp_SlotSize (pw_pool w)" and ?pad = "padPointer (b + 8) (mp_SlotSize (pw_pool w))"
    and ?A = "set fl \<union> set live"
  have sz: "mp_BlockSize (pw_pool w) = 4096" "8 dvd ?S" "8 \<le> ?S" "?S \<le> 512"
    and bl: "blocks_ok w" and sl: "slots_ok w ?A"
    using ok by (auto simp: pool_ok_def size_ok_def)
  have b: "0 < b" "8 dvd b" "b + 4096 < 2 ^ 64" "\<forall>b' \<in> set (pw_blocks w). apart 4096 b b'"
    using new sz(1) by (auto simp: new_ok_def apart_def list_all_iff)
  have nb: "b \<notin> set (pw_blocks w)" using b(4) by (auto simp: apart_def)
  have pad: "?pad < ?S" "8 dvd ?pad"
    using padPointer_less [of ?S "b + 8"] padPointer_dvd [of ?S "b + 8"] sz b by auto
  let ?w = "w\<lparr>pw_blocks := b # pw_blocks w, pw_mem := (pw_mem w)(b := mp_firstBlock (pw_pool w)),
    pw_pool := (pw_pool w)\<lparr>mp_firstBlock := b, mp_curSlot := b + 8 + ?pad,
      mp_lastSlot := b + 4096 - ?S + 1\<rparr>\<rparr>"
  have cut: "cutNewBlock b w = Inr ?w"
    using sz(1) by (simp add: cutNewBlock_def store_next_def valid_word_def sizeof_Slot_def Let_def)
  have "blocks_ok ?w"
    using bl b nb by (auto simp: blocks_ok_def pairwise_insert apart_sym)
  moreover have "slots_ok ?w ?A" using sl by (auto simp: slots_ok_def in_block_def)
  moreover have out: "a + ?S \<le> b \<or> b + 4096 \<le> a" if a: "a \<in> ?A" for a
  proof -
    obtain b' where b': "b' \<in> set (pw_blocks w)" "b' + 8 \<le> a" "a + ?S \<le> b' + 4096"
      using sl a by (auto simp: slots_ok_def in_block_def)
    then have "apart 4096 b b'" using b(4) by blast
    then show ?thesis using b'(2,3) by (auto simp: apart_def)
  qed
  then have "rest_ok ?w ?A" using b(2) pad(2) by (fastforce simp: rest_ok_def)
  moreover have "b \<notin> ?A" using out [of b] sz(3) by auto
  moreover have "chain (pw_mem w) (mp_freeList (pw_pool w)) fl" "distinct (fl @ live)" using ok by (simp_all add: pool_ok_def)
  ultimately have "pool_ok ?w fl live" using sz by (simp add: pool_ok_def size_ok_def)
  moreover have "b + 8 + ?pad < b + 4096 - ?S + 1" using pad(1) sz by linarith
  moreover have "\<forall>p \<in> set fl. pw_mem ?w p = pw_mem w p" using \<open>b \<notin> ?A\<close> by auto
  ultimately show ?thesis using cut by simp
qed

text \<open>The next slot of the newest block.\<close>

lemma take_slot_ok:
  assumes ok: "pool_ok w fl live" and lt: "mp_curSlot (pw_pool w) < mp_lastSlot (pw_pool w)"
  shows "pool_ok (snd (take_slot w)) fl (fst (take_slot w) # live)"
proof -
  let ?S = "mp_SlotSize (pw_pool w)" and ?c = "mp_curSlot (pw_pool w)" and ?A = "set fl \<union> set live"
  let ?w = "w\<lparr>pw_pool := (pw_pool w)\<lparr>mp_curSlot := ?c + ?S\<rparr>\<rparr>"
  have sz: "8 dvd ?S" "8 \<le> ?S" "?S \<le> 512" using ok by (auto simp: pool_ok_def size_ok_def)
  have rest: "rest_ok w ?A" and sl: "slots_ok w ?A" using ok by (auto simp: pool_ok_def)
  obtain b bs where bs: "pw_blocks w = b # bs" using rest lt by (cases "pw_blocks w") (auto simp: rest_ok_def)
  then have c: "b + 8 \<le> ?c" "?c + ?S \<le> b + 4096" "8 dvd ?c"
    and free: "\<And>a. a \<in> ?A \<Longrightarrow> a + ?S \<le> ?c \<or> b + 4096 \<le> a"
    using rest lt sz by (auto simp: rest_ok_def)
  then have "?c \<notin> ?A" and ap: "\<And>a. a \<in> ?A \<Longrightarrow> apart ?S ?c a"
    using sz by (force simp: apart_def)+
  have "pairwise (apart ?S) (insert ?c ?A)"
    using sl ap apart_sym unfolding slots_ok_def pairwise_insert by blast
  moreover have "in_block w ?c" using c bs by (auto simp: in_block_def)
  ultimately have "slots_ok ?w (insert ?c ?A)"
    using sl c(3) by (simp add: slots_ok_def in_block_def)
  moreover have "rest_ok ?w (insert ?c ?A)"
    using rest bs free c(3) sz(1) by (fastforce simp: rest_ok_def)
  moreover have "blocks_ok ?w" "size_ok ?w" using ok by (simp_all add: pool_ok_def blocks_ok_def size_ok_def)
  ultimately have "pool_ok ?w fl (?c # live)" using ok \<open>?c \<notin> ?A\<close> by (simp add: pool_ok_def)
  then show ?thesis using sz(1) by (simp add: take_slot_def Let_def sizeof_Slot_def)
qed

lemma allocate_block_ok:
  assumes ok: "pool_ok w fl live" and new: "new_ok b w"
  shows "\<exists>p w' fl'. allocate_block b w = Inr (p, w') \<and> pool_ok w' fl' (p # live)"
proof -
  have "\<exists>w1 fl1. (if mp_curSlot (pw_pool w) \<ge> mp_lastSlot (pw_pool w) then allocateNewBlock b w else Inr w) =
      Inr w1 \<and> pool_ok w1 fl1 live \<and> mp_curSlot (pw_pool w1) < mp_lastSlot (pw_pool w1)"
  proof (cases "mp_curSlot (pw_pool w) \<ge> mp_lastSlot (pw_pool w)")
    case True
    obtain w' where "cutNewBlock b w = Inr w'" "pool_ok w' fl live"
      "mp_curSlot (pw_pool w') < mp_lastSlot (pw_pool w')"
      using cutNewBlock_ok [OF ok new] by blast
    then show ?thesis using True clear_ok [of w' fl live] by (auto simp: allocateNewBlock_def)
  next
    case False
    then show ?thesis using ok by auto
  qed
  then obtain w1 fl1 where
    w1: "(if mp_curSlot (pw_pool w) \<ge> mp_lastSlot (pw_pool w) then allocateNewBlock b w else Inr w) = Inr w1"
    "pool_ok w1 fl1 live" "mp_curSlot (pw_pool w1) < mp_lastSlot (pw_pool w1)" by blast
  then show ?thesis
    using take_slot_ok [OF w1(2,3)] by (cases "take_slot w1") (auto simp: allocate_block_def)
qed

text \<open>The fields that the steps of one mutex leave to the other.\<close>

lemma pool_view_fields [simp]:
  "mp_curSlot (pw_pool (pool_view s)) = mp_curSlot (pw_pool (ps_world s))"
  "mp_lastSlot (pw_pool (pool_view s)) = mp_lastSlot (pw_pool (ps_world s))"
  "pw_mem (pool_view s) = pw_mem (ps_world s)" "valid_word (pool_view s) a = valid_word (ps_world s) a"
  "new_ok b (pool_view s) = new_ok b (ps_world s)"
  "mp_freeList (pw_pool (pool_view s)) = list_head (ps_list s) (mp_freeList (pw_pool (ps_world s)))"
  "mp_SlotSize (pw_pool (pool_view s)) = mp_SlotSize (pw_pool (ps_world s))"
  "slots_ok (pool_view s) A = slots_ok (ps_world s) A" "blocks_ok (pool_view s) = blocks_ok (ps_world s)"
  "size_ok (pool_view s) = size_ok (ps_world s)"
  by (simp_all add: pool_view_def)

text \<open>The invariant under the steps of the free list's mutex, of the block's mutex and of the users.\<close>

lemma pool_inv_list_steps:
  assumes ok: "pool_ok (pool_view s) fl (ps_live s)"
    and pc: "pc_ok (ps_list s) (ps_cleared s) (mp_freeList (pw_pool (ps_world s))) (pw_mem (ps_world s))"
  shows "ps_list s = AtNext temp \<Longrightarrow>
      load_next (mp_freeList (pw_pool (ps_world s))) (ps_world s) = Inr nxt \<Longrightarrow>
      \<not> ps_cleared s \<and> temp \<noteq> 0 \<and> nxt = pw_mem (ps_world s) temp"
    and "ps_list s = AtStore temp nxt \<Longrightarrow> \<exists>fl'. pool_ok (set_freeList nxt (ps_world s)) fl' (temp # ps_live s)"
proof -
  assume a: "ps_list s = AtNext temp" "load_next (mp_freeList (pw_pool (ps_world s))) (ps_world s) = Inr nxt"
  have "blocks_ok (ps_world s)" using ok by (simp add: pool_ok_def)
  moreover have "valid_word (ps_world s) (mp_freeList (pw_pool (ps_world s)))"
    using a(2) by (simp add: load_next_def split: if_splits)
  ultimately have "mp_freeList (pw_pool (ps_world s)) \<noteq> 0" using null_not_valid by metis
  then show "\<not> ps_cleared s \<and> temp \<noteq> 0 \<and> nxt = pw_mem (ps_world s) temp"
    using pc a by (auto simp: load_next_def split: if_splits)
next
  assume a: "ps_list s = AtStore temp nxt"
  then obtain fl' where fl: "fl = temp # fl'"
    using ok pc by (auto simp: pool_ok_def chain_nonnull)
  then have "pool_ok (set_freeList (pw_mem (pool_view s) temp) (pool_view s)) fl' (temp # ps_live s)"
    using pop_ok [of "pool_view s" temp fl' "ps_live s"] ok by simp
  then show "\<exists>fl'. pool_ok (set_freeList nxt (ps_world s)) fl' (temp # ps_live s)"
    using pc a by (auto simp: pool_view_def)
qed

text \<open>The slot at \<open>AtStore\<close> is still the first of the list that the holder works on.\<close>

lemma held_slot_listed:
  assumes "pool_ok (pool_view s) fl live" and "ps_list s = AtStore temp nxt" and "temp \<noteq> 0"
  shows "temp \<in> set fl"
  using assms by (auto simp: pool_ok_def chain_nonnull)

lemma pool_inv_block_steps:
  assumes ok: "pool_ok (pool_view s) fl (ps_live s)"
    and pc: "pc_ok (ps_list s) (ps_cleared s) (mp_freeList (pw_pool (ps_world s))) (pw_mem (ps_world s))"
  shows "mp_curSlot (pw_pool (ps_world s)) < mp_lastSlot (pw_pool (ps_world s)) \<Longrightarrow>
      take_slot (ps_world s) = (p, w) \<Longrightarrow>
      pool_inv (s\<lparr>ps_world := w, ps_live := p # ps_live s, ps_missed := n, ps_clearing := False\<rparr>)"
    and "new_ok b (ps_world s) \<Longrightarrow> cutNewBlock b (ps_world s) = Inr w \<Longrightarrow>
      pool_inv (s\<lparr>ps_world := w, ps_clearing := True\<rparr>)"
    and "mp_curSlot (pw_pool (ps_world s)) < mp_lastSlot (pw_pool (ps_world s)) \<Longrightarrow>
      take_slot (set_freeList 0 (ps_world s)) = (p, w) \<Longrightarrow>
      pool_inv (s\<lparr>ps_world := w, ps_live := p # ps_live s, ps_missed := n, ps_clearing := False,
        ps_cleared := True\<rparr>)"
proof -
  assume a: "mp_curSlot (pw_pool (ps_world s)) < mp_lastSlot (pw_pool (ps_world s))"
    "take_slot (ps_world s) = (p, w)"
  have "pool_ok (snd (take_slot (pool_view s))) fl (fst (take_slot (pool_view s)) # ps_live s)"
    using take_slot_ok [OF ok] a(1) by simp
  then show "pool_inv (s\<lparr>ps_world := w, ps_live := p # ps_live s, ps_missed := n, ps_clearing := False\<rparr>)"
    using pc a(2) freeList_unchanged(2) [of "ps_world s"] take_slot_mem [of "ps_world s"]
    by (auto simp: pool_inv_def pool_view_def set_freeList_commute)
next
  assume a: "new_ok b (ps_world s)" "cutNewBlock b (ps_world s) = Inr w"
  obtain w' where w': "cutNewBlock b (pool_view s) = Inr w'" "pool_ok w' fl (ps_live s)"
    "mp_curSlot (pw_pool w') < mp_lastSlot (pw_pool w')" "\<forall>p \<in> set fl. pw_mem w' p = pw_mem (pool_view s) p"
    using cutNewBlock_ok [OF ok, of b] a(1) by auto
  moreover from this have "w' = set_freeList (list_head (ps_list s) (mp_freeList (pw_pool (ps_world s)))) w"
    using a(2) by (simp add: pool_view_def set_freeList_commute)
  ultimately show "pool_inv (s\<lparr>ps_world := w, ps_clearing := True\<rparr>)"
    using pc freeList_unchanged(1) [OF a(2)] held_slot_listed [OF ok]
    by (cases "ps_list s") (auto simp: pool_inv_def pool_view_def)
next
  assume a: "mp_curSlot (pw_pool (ps_world s)) < mp_lastSlot (pw_pool (ps_world s))"
    "take_slot (set_freeList 0 (ps_world s)) = (p, w)"
  have w: "p = fst (take_slot (ps_world s))" "w = set_freeList 0 (snd (take_slot (ps_world s)))"
    using a(2) by (simp_all add: set_freeList_commute)
  have 1: "pool_ok (snd (take_slot (pool_view s))) fl (fst (take_slot (pool_view s)) # ps_live s)"
    using take_slot_ok [OF ok] a(1) by simp
  have 2: "pool_ok (set_freeList 0 (snd (take_slot (pool_view s)))) [] (fst (take_slot (pool_view s)) # ps_live s)"
    by (rule clear_ok [OF 1])
  show "pool_inv (s\<lparr>ps_world := w, ps_live := p # ps_live s, ps_missed := n, ps_clearing := False,
      ps_cleared := True\<rparr>)"
    using 1 2 pc w by (cases "ps_list s") (auto simp: pool_inv_def pool_view_def set_freeList_commute split: if_splits)
qed

lemma pool_inv_user_steps:
  assumes ok: "pool_ok (pool_view s) fl (ps_live s)"
    and pc: "pc_ok (ps_list s) (ps_cleared s) (mp_freeList (pw_pool (ps_world s))) (pw_mem (ps_world s))"
    and cl: "ps_clearing s \<longrightarrow> mp_curSlot (pw_pool (ps_world s)) < mp_lastSlot (pw_pool (ps_world s))"
    and p: "p \<in> set (ps_live s)"
  shows "ps_list s = ListFree \<Longrightarrow> store_next p (mp_freeList (pw_pool (ps_world s))) (ps_world s) = Inr w \<Longrightarrow>
      pool_inv (s\<lparr>ps_world := w, ps_live := remove1 p (ps_live s), ps_list := AtPush p\<rparr>)"
    and "p \<le> a \<Longrightarrow> a + 8 \<le> p + mp_SlotSize (pw_pool (ps_world s)) \<Longrightarrow>
      store_next a v (ps_world s) = Inr w \<Longrightarrow> pool_inv (s\<lparr>ps_world := w\<rparr>)"
proof -
  assume a: "ps_list s = ListFree" "store_next p (mp_freeList (pw_pool (ps_world s))) (ps_world s) = Inr w"
  then have "pool_view s = ps_world s" by (simp add: pool_view_def)
  then have "pool_ok (set_freeList p w) (p # fl) (remove1 p (ps_live s))"
    using push_ok [OF ok p] a(2) by simp
  then show "pool_inv (s\<lparr>ps_world := w, ps_live := remove1 p (ps_live s), ps_list := AtPush p\<rparr>)"
    using a(2) cl by (auto simp: pool_inv_def pool_view_def store_next_def split: if_splits)
next
  assume a: "p \<le> a" "a + 8 \<le> p + mp_SlotSize (pw_pool (ps_world s))" "store_next a v (ps_world s) = Inr w"
  let ?v = "pool_view s"
  have *: "a \<notin> set fl" "pool_ok (?v\<lparr>pw_mem := (pw_mem ?v)(a := v)\<rparr>) fl (ps_live s)"
    using store_ok [OF ok p, of a v] a by auto
  moreover have w: "w = (ps_world s)\<lparr>pw_mem := (pw_mem (ps_world s))(a := v)\<rparr>"
    using a(3) by (simp add: store_next_def split: if_splits)
  then have "pool_view (s\<lparr>ps_world := w\<rparr>) = ?v\<lparr>pw_mem := (pw_mem ?v)(a := v)\<rparr>"
    by (simp add: pool_view_def)
  ultimately have "pool_ok (pool_view (s\<lparr>ps_world := w\<rparr>)) fl (ps_live s)" by simp
  then show "pool_inv (s\<lparr>ps_world := w\<rparr>)"
    using pc cl held_slot_listed [OF ok] w *(1)
    by (cases "ps_list s") (auto simp: pool_inv_def)
qed

interpretation mp: inductive_invariant pool_start pool_step pool_inv
proof
  show "pool_inv s" if init: "pool_start s" for s
  proof -
    obtain i garbage where i: "i < 64"
      "pw_pool (ps_world s) = garbage\<lparr>mp_BlockSize := 4096, mp_SlotSize := 8 + i * 8, mp_firstBlock := 0,
         mp_curSlot := 0, mp_freeList := 0, mp_lastSlot := 0\<rparr>"
      and e: "pw_blocks (ps_world s) = []" "ps_live s = []" "ps_list s = ListFree" "\<not> ps_clearing s"
      using init that unfolding pool_start_def pool_init_def MemoryPool_new_def SLOT_BASE_SIZE_def
        MEMORY_POOL_NUM_def by (auto dest: sym)
    then have "pool_ok (pool_view s) [] (ps_live s)"
      by (simp add: pool_view_def pool_ok_def size_ok_def blocks_ok_def slots_ok_def rest_ok_def)
    then show ?thesis using e by (auto simp: pool_inv_def)
  qed
  show "pool_inv t" if inv: "pool_inv s" and st: "pool_step s t" for s t
  proof -
    obtain fl where ok: "pool_ok (pool_view s) fl (ps_live s)"
      and pc: "pc_ok (ps_list s) (ps_cleared s) (mp_freeList (pw_pool (ps_world s))) (pw_mem (ps_world s))"
      and cl: "ps_clearing s \<longrightarrow> mp_curSlot (pw_pool (ps_world s)) < mp_lastSlot (pw_pool (ps_world s))"
      using inv by (auto simp: pool_inv_def)
    note block = pool_inv_block_steps [OF ok pc]
    show ?thesis
      using st
    proof cases
      case (alloc_next temp nxt)
      then show ?thesis
        using pool_inv_list_steps(1) [OF ok pc alloc_next(2,3)] ok cl by (auto simp: pool_inv_def pool_view_def)
    next
      case (alloc_store temp nxt)
      then show ?thesis
        using pool_inv_list_steps(2) [OF ok pc alloc_store(2)] cl by (auto simp: pool_inv_def pool_view_def)
    next
      case (block_slot p w)
      then have "t = s\<lparr>ps_world := w, ps_live := p # ps_live s, ps_missed := ps_missed s - 1, ps_clearing := False\<rparr>"
        by simp
      then show ?thesis using block(1) [OF block_slot(4,5)] by simp
    next
      case (block_cut b w)
      then show ?thesis using block(2) by simp
    next
      case (block_clear p w)
      then show ?thesis using block(3) [of p w] cl by simp
    next
      case (free_lock p w)
      then show ?thesis using pool_inv_user_steps(1) [OF ok pc cl free_lock(3,2,4)] by simp
    next
      case (free_push p)
      then show ?thesis using ok cl by (auto simp: pool_inv_def pool_view_def)
    next
      case (use_slot p a v w)
      then show ?thesis using pool_inv_user_steps(2) [OF ok pc cl use_slot(2,3,4,6)] by simp
    qed (use ok cl pc in \<open>auto simp: pool_inv_def pool_view_def\<close>)
  qed
qed

text \<open>The destructor walks along the blocks.\<close>

lemma dtor_loop_ok:
  assumes "chain (pw_mem w) cur (pw_blocks w)" and "8 \<le> mp_BlockSize (pw_pool w)"
  shows "dtor_loop cur w = Some (Inr (w\<lparr>pw_blocks := []\<rparr>))"
  using assms
proof (induction "pw_blocks w" arbitrary: cur w)
  case Nil
  then show ?case by (simp add: dtor_loop.simps)
next
  case (Cons b bs)
  then have c: "cur = b" "b \<noteq> 0" "chain (pw_mem w) (pw_mem w b) bs" by (auto simp: Cons.hyps(2) [symmetric])
  let ?w = "w\<lparr>pw_blocks := bs\<rparr>"
  have "load_next b w = Inr (pw_mem w b)" "delete_block b w = Inr ?w"
    using Cons.prems(2)
    by (simp_all add: load_next_def valid_word_def delete_block_def Cons.hyps(2) [symmetric] sizeof_Slot_def)
  then have "dtor_loop cur w = dtor_loop (pw_mem w b) ?w" using c(1,2) by (simp add: dtor_loop.simps [of b w])
  also have "\<dots> = Some (Inr (?w\<lparr>pw_blocks := []\<rparr>))" using Cons.hyps(1) [of ?w "pw_mem w b"] c(3) Cons.prems(2) by simp
  finally show ?case by simp
qed

text \<open>Buckets whose pool number \<open>i\<close> has slots of \<open>8 (i + 1)\<close> bytes and is in order.\<close>

definition bucket_ok :: "hash_bucket \<Rightarrow> bool" where
  "bucket_ok hb \<longleftrightarrow> length (hb_pools hb) = 64 \<and>
     (\<forall>i < 64. mp_SlotSize (pw_pool (hb_pools hb ! i)) = 8 * (i + 1) \<and>
        (\<exists>fl live. pool_ok (hb_pools hb ! i) fl live))"

lemma init_pools_ok:
  assumes "n \<le> length (hb_pools hb)"
  shows "\<exists>hb1. init_pools n hb = Inr hb1 \<and> hb_big hb1 = hb_big hb \<and> length (hb_pools hb1) = length (hb_pools hb) \<and>
    (\<forall>i < length (hb_pools hb). hb_pools hb1 ! i =
       (if i < n then (hb_pools hb ! i)\<lparr>pw_pool := (pw_pool (hb_pools hb ! i))\<lparr>mp_SlotSize := 8 * (i + 1),
          mp_firstBlock := 0, mp_curSlot := 0, mp_freeList := 0, mp_lastSlot := 0\<rparr>\<rparr>
        else hb_pools hb ! i))"
  using assms
proof (induction n)
  case (Suc n)
  then obtain hb1 where hb1: "init_pools n hb = Inr hb1" "hb_big hb1 = hb_big hb"
    "length (hb_pools hb1) = length (hb_pools hb)"
    "\<And>i. i < length (hb_pools hb) \<Longrightarrow> hb_pools hb1 ! i =
       (if i < n then (hb_pools hb ! i)\<lparr>pw_pool := (pw_pool (hb_pools hb ! i))\<lparr>mp_SlotSize := 8 * (i + 1),
          mp_firstBlock := 0, mp_curSlot := 0, mp_freeList := 0, mp_lastSlot := 0\<rparr>\<rparr>
        else hb_pools hb ! i)" by auto
  then show ?case
    using Suc.prems
    by (auto simp: getMemoryPool_def putMemoryPool_def pool_init_def SLOT_BASE_SIZE_def nth_list_update
        less_Suc_eq)
qed simp

lemma fresh_pool_ok:
  "mp_BlockSize (pw_pool w) = 4096 \<Longrightarrow> pw_blocks w = [] \<Longrightarrow> i < 64 \<Longrightarrow>
   pool_ok (w\<lparr>pw_pool := (pw_pool w)\<lparr>mp_SlotSize := 8 * (i + 1), mp_firstBlock := 0, mp_curSlot := 0,
     mp_freeList := 0, mp_lastSlot := 0\<rparr>\<rparr>) [] []"
  by (simp add: pool_ok_def size_ok_def blocks_ok_def slots_ok_def rest_ok_def)

lemma pool_index_range:
  assumes "0 < sz" and "sz \<le> 512"
  obtains i where "pool_index sz = int i" "i < 64" "sz \<le> 8 * (i + 1)" "8 * (i + 1) < sz + 8"
proof -
  obtain m where m: "sz = Suc m" using assms(1) by (cases sz) auto
  have "pool_index sz = int (m div 8)" using m by (simp add: pool_index_def SLOT_BASE_SIZE_def)
  moreover have "m div 8 < 64" "sz \<le> 8 * (m div 8 + 1)" "8 * (m div 8 + 1) < sz + 8"
    using assms(2) m by presburger+
  ultimately show ?thesis using that by blast
qed

text \<open>A slot that is handed out by a whole call of \<open>allocate\<close>.\<close>

lemma allocate_ok:
  assumes ok: "pool_ok w fl live" and new: "new_ok b w"
  shows "\<exists>p w' fl'. allocate b w = Inr (p, w') \<and> pool_ok w' fl' (p # live)"
  using allocate_free_ok [OF ok] allocate_block_ok [OF ok new]
  by (cases fl) (auto simp: allocate_def)

lemma allocate_slot_size:
  "allocate b w = Inr (p, w') \<Longrightarrow> mp_SlotSize (pw_pool w') = mp_SlotSize (pw_pool w)"
  by (auto simp: allocate_def allocate_free_def allocate_block_def allocateNewBlock_def cutNewBlock_def
      take_slot_def store_next_def Let_def split: if_splits option.splits)

text \<open>The slot that was freed last is the next to be handed out.\<close>

lemma reuse_ok:
  assumes ok: "pool_ok w fl live" and p: "p \<in> set live"
  shows "\<exists>w1 w2. deallocate p w = Inr w1 \<and> pool_ok w1 (p # fl) (remove1 p live) \<and>
    allocate b w1 = Inr (p, w2) \<and> pw_pool w2 = pw_pool w \<and> pool_ok w2 fl (p # remove1 p live)"
proof -
  obtain w1 where w1: "p \<noteq> 0" "deallocate p w = Inr w1" "pool_ok w1 (p # fl) (remove1 p live)"
    using deallocate_ok [OF ok p] by blast
  from allocate_free_ok [OF w1(3)] obtain w2 where
    w2: "allocate_free w1 = Inr (Some p, w2)" "pool_ok w2 fl (p # remove1 p live)" by auto
  have "pw_pool w1 = (pw_pool w)\<lparr>mp_freeList := p\<rparr>" "pw_mem w1 p = mp_freeList (pw_pool w)"
    using w1(1,2) by (auto simp: deallocate_def store_next_def set_freeList_def split: if_splits)
  moreover from this have "pw_pool w2 = (pw_pool w1)\<lparr>mp_freeList := mp_freeList (pw_pool w)\<rparr>"
    using w2(1) w1(1) by (auto simp: allocate_free_def load_next_def set_freeList_def split: if_splits)
  ultimately have "pw_pool w2 = pw_pool w" by simp
  then show ?thesis using w1 w2 by (auto simp: allocate_def)
qed

text \<open>An object writes words of its own, at offsets inside it.\<close>

fun store_words :: "addr \<Rightarrow> (nat \<times> addr) list \<Rightarrow> pool_world \<Rightarrow> pool_world res" where
  "store_words p [] w = Inr w"
| "store_words p ((off, v) # xs) w = res_bind (store_next (p + off) v w) (store_words p xs)"

definition object_stores :: "nat \<Rightarrow> (nat \<times> addr) list \<Rightarrow> addr \<Rightarrow> hash_bucket \<Rightarrow> hash_bucket res" where
  "object_stores sz xs p hb =
     res_bind (getMemoryPool (pool_index sz) hb) (\<lambda>w.
       res_bind (store_words p xs w) (\<lambda>w1. Inr (putMemoryPool (pool_index sz) w1 hb)))"

definition inside :: "nat \<Rightarrow> (nat \<times> addr) list \<Rightarrow> bool" where
  "inside sz xs \<longleftrightarrow> list_all (\<lambda>(off, v). off mod 8 = 0 \<and> off + 8 \<le> sz) xs"

lemma store_words_ok:
  assumes "pool_ok w fl live" and "p \<in> set live" and "inside sz xs" and "sz \<le> mp_SlotSize (pw_pool w)"
  shows "\<exists>m. store_words p xs w = Inr (w\<lparr>pw_mem := m\<rparr>) \<and> pool_ok (w\<lparr>pw_mem := m\<rparr>) fl live"
  using assms
proof (induction xs arbitrary: w)
  case Nil
  then show ?case by (intro exI [of _ "pw_mem w"]) simp
next
  case (Cons x xs)
  obtain off v where x: "x = (off, v)" by (cases x)
  let ?w = "w\<lparr>pw_mem := (pw_mem w)(p + off := v)\<rparr>"
  have "valid_word w (p + off)" "pool_ok ?w fl live"
    using store_ok [OF Cons.prems(1,2), of "p + off" v] Cons.prems(3,4) x by (auto simp: inside_def)
  then show ?case using Cons.IH [of ?w] Cons.prems x by (simp add: inside_def store_next_def)
qed

text \<open>
  An object is made, deleted and made again: the first gets a slot of the pool with the
  smallest slots that are large enough, and the last gets the same slot. The constructor
  and the destructor write what they like inside the object.
\<close>

definition pool_cycle :: "addr \<Rightarrow> nat \<Rightarrow> (nat \<times> addr) list \<Rightarrow> (nat \<times> addr) list \<Rightarrow> hash_bucket \<Rightarrow> bool" where
  "pool_cycle b sz xs ys hb \<longleftrightarrow>
     (\<exists>p hb1 hb2 hb3 w1. newElement (object_stores sz xs) b sz hb = Inr (p, hb1) \<and> p \<noteq> 0 \<and>
        getMemoryPool (pool_index sz) hb1 = Inr w1 \<and> in_block w1 p \<and>
        sz \<le> mp_SlotSize (pw_pool w1) \<and> mp_SlotSize (pw_pool w1) < sz + 8 \<and>
        deleteElement (object_stores sz ys) p sz hb1 = Inr hb2 \<and>
        newElement (object_stores sz xs) b sz hb2 = Inr (p, hb3))"

text \<open>The calls on the bucket are those on the pool of the size.\<close>

lemma bucket_calls:
  assumes "length (hb_pools h) = 64" and "pool_index sz = int i" and "i < 64" and "0 < sz" and "sz \<le> MAX_SLOT_SIZE"
  shows "useMemory b sz h = res_bind (allocate b (hb_pools h ! i)) (\<lambda>(q, w). Inr (q, putMemoryPool (int i) w h))"
    and "p \<noteq> 0 \<Longrightarrow> freeMemory p sz h =
      res_bind (deallocate p (hb_pools h ! i)) (\<lambda>w. Inr (putMemoryPool (int i) w h))"
    and "object_stores sz xs p h =
      res_bind (store_words p xs (hb_pools h ! i)) (\<lambda>w. Inr (putMemoryPool (int i) w h))"
    and "getMemoryPool (pool_index sz) h = Inr (hb_pools h ! i)"
  using assms by (simp_all add: useMemory_def freeMemory_def getMemoryPool_def object_stores_def)

lemma bucket_put [simp]:
  "length (hb_pools (putMemoryPool j w h)) = length (hb_pools h)"
  "i < length (hb_pools h) \<Longrightarrow> hb_pools (putMemoryPool (int i) w h) ! i = w"
  "putMemoryPool (int i) v (putMemoryPool (int i) w h) = putMemoryPool (int i) v h"
  by (simp_all add: putMemoryPool_def)

lemma bucket_cycle:
  assumes len: "length (hb_pools hb) = 64" and ok: "pool_ok (hb_pools hb ! i) fl live"
    and new: "new_ok b (hb_pools hb ! i)" and sz: "0 < sz" "sz \<le> MAX_SLOT_SIZE"
    and i: "pool_index sz = int i" "i < 64" "sz \<le> mp_SlotSize (pw_pool (hb_pools hb ! i))"
      "mp_SlotSize (pw_pool (hb_pools hb ! i)) < sz + 8"
    and xy: "inside sz xs" "inside sz ys"
  shows "pool_cycle b sz xs ys hb"
proof -
  note calls = bucket_calls [OF _ i(1,2) sz]
  obtain p w0 fl1 where a: "allocate b (hb_pools hb ! i) = Inr (p, w0)" "pool_ok w0 fl1 (p # live)"
    using allocate_ok [OF ok new] by blast
  have s0: "sz \<le> mp_SlotSize (pw_pool w0)" using allocate_slot_size [OF a(1)] i(3) by simp
  obtain m where m: "store_words p xs w0 = Inr (w0\<lparr>pw_mem := m\<rparr>)" "pool_ok (w0\<lparr>pw_mem := m\<rparr>) fl1 (p # live)"
    using store_words_ok [OF a(2) _ xy(1) s0, of p] by auto
  obtain m' where m': "store_words p ys (w0\<lparr>pw_mem := m\<rparr>) = Inr (w0\<lparr>pw_mem := m'\<rparr>)"
    "pool_ok (w0\<lparr>pw_mem := m'\<rparr>) fl1 (p # live)"
    using store_words_ok [OF m(2) _ xy(2), of p] s0 by auto
  have p: "p \<noteq> 0" "in_block (w0\<lparr>pw_mem := m\<rparr>) p"
    using m(2) deallocate_ok [OF m(2), of p] by (auto simp: pool_ok_def slots_ok_def)
  obtain w2 w3 where r: "deallocate p (w0\<lparr>pw_mem := m'\<rparr>) = Inr w2" "allocate b w2 = Inr (p, w3)"
    "pw_pool w3 = pw_pool w0" "pool_ok w3 fl1 (p # live)"
    using reuse_ok [OF m'(2), of p b] by auto
  obtain m3 where "store_words p xs w3 = Inr (w3\<lparr>pw_mem := m3\<rparr>)"
    using store_words_ok [OF r(4) _ xy(1), of p] r(3) s0 by auto
  then show ?thesis
    using a(1) p m(1) m'(1) r(1,2) i len s0 allocate_slot_size [OF a(1)]
    by (simp add: pool_cycle_def newElement_def deleteElement_def calls) (simp add: getMemoryPool_def)
qed

text \<open>
  For a slot size that is not a power of two the first slot need not be aligned to the
  slot size: the block at 32 starts its slots of 24 bytes at 40.
\<close>

lemma padPointer_misaligned: "padPointer 40 24 = 0 \<and> \<not> 24 dvd 40 + padPointer 40 24"
  by (simp add: padPointer_def)

text \<open>The read of \<open>freeList_->next\<close>: what the history variable says of it.\<close>

lemma next_read_iff:
  assumes ok: "pool_ok (pool_view s) fl (ps_live s)"
    and pc: "pc_ok (ps_list s) (ps_cleared s) (mp_freeList (pw_pool (ps_world s))) (pw_mem (ps_world s))"
    and at: "ps_list s = AtNext temp"
  shows "((\<exists>n. load_next (mp_freeList (pw_pool (ps_world s))) (ps_world s) = Inr n) \<longleftrightarrow> \<not> ps_cleared s) \<and>
    (mp_freeList (pw_pool (ps_world s)) = 0 \<longleftrightarrow> ps_cleared s)"
proof (cases "ps_cleared s")
  case True
  moreover have "blocks_ok (ps_world s)" using ok by (simp add: pool_ok_def)
  ultimately show ?thesis using pc at null_not_valid [of "ps_world s"] by (simp add: load_next_def)
next
  case False
  then have "temp \<noteq> 0" "mp_freeList (pw_pool (ps_world s)) = temp" using pc at by auto
  moreover from this obtain fl' where "fl = temp # fl'" using ok at by (auto simp: pool_ok_def chain_nonnull)
  ultimately show ?thesis
    using False free_slot_valid [OF ok, of temp] by (simp add: load_next_def)
qed

section \<open>Properties\<close>

text \<open>
  C13: the memory pool never hands out a slot twice and never leaves its blocks. In every
  interleaving of the threads at the accesses to \<open>freeList_\<close>, with the block section and
  with stores of the users to their slots, the slots in use are distinct and do not
  overlap, each lies inside one block behind the header that links the blocks, and is
  aligned for 8 bytes; releasing a slot and cutting a new block write valid memory only.
  The one access that can fail is the read of \<open>freeList_->next\<close> in \<open>allocate\<close>: it
  succeeds exactly when no thread has cut a new block, and so cleared \<open>freeList_\<close>, since
  the list was found not empty; otherwise it dereferences the null pointer.
\<close>

theorem memory_pool_safe:
  assumes "reach pool_start pool_step s"
  shows "distinct (ps_live s) \<and> pairwise (apart (mp_SlotSize (pw_pool (ps_world s)))) (set (ps_live s)) \<and>
    (\<forall>p \<in> set (ps_live s). p \<noteq> 0 \<and> 8 dvd p \<and> in_block (ps_world s) p \<and>
       (\<exists>w. deallocate p (ps_world s) = Inr w)) \<and>
    (new_ok b (ps_world s) \<longrightarrow> (\<exists>w. cutNewBlock b (ps_world s) = Inr w)) \<and>
    (\<forall>temp. ps_list s = AtNext temp \<longrightarrow>
       ((\<exists>n. load_next (mp_freeList (pw_pool (ps_world s))) (ps_world s) = Inr n) \<longleftrightarrow> \<not> ps_cleared s) \<and>
       (mp_freeList (pw_pool (ps_world s)) = 0 \<longleftrightarrow> ps_cleared s))"
proof -
  obtain fl where ok: "pool_ok (pool_view s) fl (ps_live s)"
    and pc: "pc_ok (ps_list s) (ps_cleared s) (mp_freeList (pw_pool (ps_world s))) (pw_mem (ps_world s))"
    using mp.reach_inv [OF assms] by (auto simp: pool_inv_def)
  then have "slots_ok (ps_world s) (set (ps_live s))" "distinct (ps_live s)"
    by (auto simp: pool_ok_def intro: slots_ok_subset)
  moreover have "p \<noteq> 0 \<and> (\<exists>w. deallocate p (ps_world s) = Inr w)" if "p \<in> set (ps_live s)" for p
    using deallocate_ok [OF ok that] store_ok [OF ok that, of p] ok
    by (auto simp: deallocate_def store_next_def pool_ok_def size_ok_def)
  moreover have "\<exists>w. cutNewBlock b (ps_world s) = Inr w" if "new_ok b (ps_world s)"
    using cutNewBlock_ok [OF ok, of b] that by (auto simp: pool_view_def set_freeList_commute)
  ultimately show ?thesis
    using next_read_iff [OF ok pc] by (auto simp: slots_ok_def)
qed

text \<open>A pool with slots of 24 bytes from which one slot has been taken.\<close>

definition demo_pool :: pool_state where
  "demo_pool = \<lparr>ps_world = \<lparr>pw_pool = \<lparr>mp_BlockSize = 4096, mp_SlotSize = 24, mp_firstBlock = 0,
     mp_curSlot = 0, mp_freeList = 0, mp_lastSlot = 0\<rparr>, pw_mem = (\<lambda>_. 0), pw_blocks = []\<rparr>,
     ps_live = [], ps_missed = 0, ps_list = ListFree, ps_clearing = False, ps_cleared = True\<rparr>"

definition demo_taken :: pool_state where
  "demo_taken = \<lparr>ps_world = \<lparr>pw_pool = \<lparr>mp_BlockSize = 4096, mp_SlotSize = 24, mp_firstBlock = 32,
     mp_curSlot = 64, mp_freeList = 0, mp_lastSlot = 4105\<rparr>, pw_mem = (\<lambda>_. 0)(32 := 0), pw_blocks = [32]\<rparr>,
     ps_live = [40], ps_missed = 0, ps_list = ListFree, ps_clearing = False, ps_cleared = True\<rparr>"

lemmas pool_run_simps = allocate_block_def allocateNewBlock_def new_ok_def cutNewBlock_def take_slot_def set_freeList_def store_next_def load_next_def
  valid_word_def sizeof_Slot_def Let_def

lemma demo_pool_start: "pool_start demo_pool"
  unfolding pool_start_def
  by (rule exI [of _ 2], rule exI [of _ "pw_pool (ps_world demo_pool)"])
    (simp add: demo_pool_def pool_init_def MemoryPool_new_def SLOT_BASE_SIZE_def MEMORY_POOL_NUM_def)

text \<open>
  The steps of a thread on a block that has no slot left, run without interruption, are
  the section as a whole.
\<close>

lemma run_new_block:
  assumes "0 < ps_missed s" and "\<not> ps_clearing s"
    and "mp_curSlot (pw_pool (ps_world s)) \<ge> mp_lastSlot (pw_pool (ps_world s))"
    and "new_ok b (ps_world s)" and all: "allocate_block b (ps_world s) = Inr (p, w)"
  shows "pool_step\<^sup>*\<^sup>* s (s\<lparr>ps_world := w, ps_live := p # ps_live s, ps_missed := ps_missed s - 1,
    ps_clearing := False, ps_cleared := True\<rparr>)"
proof -
  obtain w1 where w1: "cutNewBlock b (ps_world s) = Inr w1" "take_slot (set_freeList 0 w1) = (p, w)"
    using all assms(3) by (auto simp: allocate_block_def allocateNewBlock_def)
  let ?s = "s\<lparr>ps_world := w1, ps_clearing := True\<rparr>"
  have "pool_step s ?s" using block_cut [of s b w1] assms w1(1) by simp
  moreover have "pool_step ?s (?s\<lparr>ps_world := w, ps_live := p # ps_live ?s, ps_missed := ps_missed ?s - 1,
      ps_clearing := False, ps_cleared := True\<rparr>)"
    using w1(2) by (intro block_clear) simp_all
  ultimately show ?thesis by (simp add: converse_rtranclp_into_rtranclp)
qed

lemma demo_taken_reachable: "reach pool_start pool_step demo_taken"
proof -
  have "reach pool_start pool_step (demo_pool\<lparr>ps_missed := 1\<rparr>)"
    using reach_step [OF reach_init [of pool_start demo_pool pool_step, OF demo_pool_start] alloc_miss [of demo_pool]]
    by (simp add: demo_pool_def)
  moreover have "pool_step\<^sup>*\<^sup>* (demo_pool\<lparr>ps_missed := 1\<rparr>) demo_taken"
    using run_new_block [of "demo_pool\<lparr>ps_missed := 1\<rparr>" 32 40 "ps_world demo_taken"]
    by (simp add: demo_pool_def demo_taken_def padPointer_misaligned pool_run_simps)
  ultimately show ?thesis by (rule reach_steps [rotated])
qed

theorem memory_pool_safe_witness:
  "in_block (ps_world demo_taken) 40 \<and> (\<exists>w. deallocate 40 (ps_world demo_taken) = Inr w)"
  using memory_pool_safe [OF demo_taken_reachable] by (simp add: demo_taken_def)

text \<open>
  The failure can occur: seven slots of 512 bytes fill a block, one of them is released,
  and between \<open>temp = freeList_\<close> and \<open>freeList_ = freeList_->next\<close> of a thread that takes
  it again another thread, which found the list empty before, cuts the next block.
\<close>

definition race_slots :: "nat \<Rightarrow> pool_state" where
  "race_slots n = \<lparr>ps_world = \<lparr>pw_pool = \<lparr>mp_BlockSize = 4096, mp_SlotSize = 512, mp_firstBlock = 32,
     mp_curSlot = 512 * (n + 1), mp_freeList = 0, mp_lastSlot = 3617\<rparr>, pw_mem = (\<lambda>_. 0)(32 := 0),
     pw_blocks = [32]\<rparr>, ps_live = rev (map (\<lambda>i. 512 * (i + 1)) [0..<n]), ps_missed = 8 - n, ps_list = ListFree,
     ps_clearing = False, ps_cleared = True\<rparr>"

definition race_start :: "nat \<Rightarrow> pool_state" where
  "race_start k = \<lparr>ps_world = \<lparr>pw_pool = \<lparr>mp_BlockSize = 4096, mp_SlotSize = 512, mp_firstBlock = 0,
     mp_curSlot = 0, mp_freeList = 0, mp_lastSlot = 0\<rparr>, pw_mem = (\<lambda>_. 0), pw_blocks = []\<rparr>,
     ps_live = [], ps_missed = k, ps_list = ListFree, ps_clearing = False, ps_cleared = True\<rparr>"

lemma race_misses: "reach pool_start pool_step (race_start k)"
proof (induction k)
  case 0
  have "pool_start (race_start 0)"
    unfolding pool_start_def
    by (rule exI [of _ 63], rule exI [of _ "pw_pool (ps_world (race_start 0))"])
      (simp add: race_start_def pool_init_def MemoryPool_new_def SLOT_BASE_SIZE_def MEMORY_POOL_NUM_def)
  then show ?case by (rule reach_init)
next
  case (Suc k)
  then show ?case using reach_step [OF Suc.IH alloc_miss [of "race_start k"]] by (simp add: race_start_def)
qed

lemma race_fill: "n < 7 \<Longrightarrow> reach pool_start pool_step (race_slots (Suc n))"
proof (induction n)
  case 0
  have "padPointer 40 512 = 472" by (simp add: padPointer_def)
  then have "pool_step\<^sup>*\<^sup>* (race_start 8) (race_slots 1)"
    using run_new_block [of "race_start 8" 32 512 "ps_world (race_slots 1)"]
    by (simp add: race_start_def race_slots_def pool_run_simps)
  from reach_steps [OF this race_misses] show ?case by simp
next
  case (Suc n)
  have "pool_step (race_slots (Suc n)) (race_slots (Suc (Suc n)))"
    using block_slot [of "race_slots (Suc n)" "512 * (n + 2)" "ps_world (race_slots (Suc (Suc n)))"] Suc.prems
    by (simp add: race_slots_def pool_run_simps)
  then show ?case using Suc by (intro reach_step [OF Suc.IH]) auto
qed

lemma free_list_race:
  "\<exists>s temp. reach pool_start pool_step s \<and> ps_list s = AtNext temp \<and> temp \<noteq> 0 \<and>
     load_next (mp_freeList (pw_pool (ps_world s))) (ps_world s) = Inl BadPointer"
proof -
  let ?s = "race_slots 7"
  let ?w = "(ps_world ?s)\<lparr>pw_mem := (pw_mem (ps_world ?s))(512 := 0)\<rparr>"
  let ?s1 = "?s\<lparr>ps_world := set_freeList 512 ?w, ps_live := remove1 512 (ps_live ?s)\<rparr>"
  let ?s2 = "?s1\<lparr>ps_list := AtNext 512, ps_cleared := False\<rparr>"
  have "pool_step\<^sup>*\<^sup>* ?s ?s1"
    using free_lock [of ?s 512 ?w] free_push [of "?s\<lparr>ps_world := ?w, ps_live := remove1 512 (ps_live ?s), ps_list := AtPush 512\<rparr>" 512]
    by (simp add: race_slots_def pool_run_simps upt_rec converse_rtranclp_into_rtranclp)
  moreover have "pool_step\<^sup>*\<^sup>* ?s1 ?s2"
    using alloc_lock [of ?s1] alloc_temp [of "?s1\<lparr>ps_list := AtTemp, ps_cleared := False\<rparr>"]
    by (simp add: race_slots_def pool_run_simps upt_rec converse_rtranclp_into_rtranclp)
  ultimately have reach: "reach pool_start pool_step ?s2"
    using race_fill [of 6] by (auto intro: reach_steps)
  obtain p w where cut: "new_ok 4128 (ps_world ?s2)" "allocate_block 4128 (ps_world ?s2) = Inr (p, w)"
    "load_next (mp_freeList (pw_pool w)) w = Inl BadPointer"
    by (simp add: race_slots_def pool_run_simps)
  have "reach pool_start pool_step (?s2\<lparr>ps_world := w, ps_live := p # ps_live ?s2, ps_missed := ps_missed ?s2 - 1,
      ps_clearing := False, ps_cleared := True\<rparr>)"
    using cut(1,2) by (intro reach_steps [OF run_new_block reach]) (simp_all add: race_slots_def set_freeList_def)
  then show ?thesis using cut(3) by (intro exI [of _ "?s2\<lparr>ps_world := w, ps_live := p # ps_live ?s2,
      ps_missed := ps_missed ?s2 - 1, ps_clearing := False, ps_cleared := True\<rparr>"] exI [of _ 512]) simp
qed

text \<open>
  C34: the destructor returns and deletes every block of the pool exactly once, whatever
  has been allocated, released and written before.
\<close>

theorem dtor_deletes_all_blocks:
  assumes "reach pool_start pool_step s"
  shows "\<exists>w. MemoryPool_dtor (ps_world s) = Some (Inr w) \<and> pw_blocks w = []"
proof -
  obtain fl where ok: "pool_ok (pool_view s) fl (ps_live s)"
    using mp.reach_inv [OF assms] by (auto simp: pool_inv_def)
  then have "blocks_ok (ps_world s)" "size_ok (ps_world s)" by (simp_all add: pool_ok_def)
  then show ?thesis
    using dtor_loop_ok [of "ps_world s"] by (auto simp: MemoryPool_dtor_def pool_ok_def blocks_ok_def size_ok_def)
qed

theorem dtor_deletes_all_blocks_witness:
  "\<exists>w. MemoryPool_dtor (ps_world demo_taken) = Some (Inr w) \<and> pw_blocks w = []"
  by (rule dtor_deletes_all_blocks [OF demo_taken_reachable])

text \<open>
  The buckets. \<open>initMemoryPool\<close> succeeds; then an object of 1 to 512 bytes is placed
  by \<open>newElement\<close> in a slot of the pool whose slots are the smallest that hold it, inside
  one of its blocks, whatever the constructor and the destructor write inside the object;
  \<open>deleteElement\<close> succeeds and the next object of the size gets this slot again.
\<close>

theorem bucket_serves_and_reuses:
  assumes "length (hb_pools hb) = MEMORY_POOL_NUM"
    and "list_all (\<lambda>w. mp_BlockSize (pw_pool w) = 4096 \<and> pw_blocks w = []) (hb_pools hb)"
    and "0 < sz" and "sz \<le> MAX_SLOT_SIZE"
  shows "\<exists>hb0. initMemoryPool hb = Inr hb0 \<and> bucket_ok hb0 \<and>
    (\<forall>b xs ys. new_ok b (hb_pools hb ! nat (pool_index sz)) \<longrightarrow> inside sz xs \<longrightarrow> inside sz ys \<longrightarrow>
       pool_cycle b sz xs ys hb0)"
proof -
  have len: "length (hb_pools hb) = 64" using assms(1) by (simp add: MEMORY_POOL_NUM_def)
  obtain hb0 where hb0: "init_pools 64 hb = Inr hb0" "length (hb_pools hb0) = 64"
    "\<And>i. i < 64 \<Longrightarrow> hb_pools hb0 ! i = (hb_pools hb ! i)\<lparr>pw_pool := (pw_pool (hb_pools hb ! i))\<lparr>mp_SlotSize := 8 * (i + 1),
       mp_firstBlock := 0, mp_curSlot := 0, mp_freeList := 0, mp_lastSlot := 0\<rparr>\<rparr>"
    using init_pools_ok [of 64 hb] len by auto
  have ok: "pool_ok (hb_pools hb0 ! i) [] []" "mp_SlotSize (pw_pool (hb_pools hb0 ! i)) = 8 * (i + 1)"
    if "i < 64" for i
    using hb0(3) [OF that] fresh_pool_ok [of "hb_pools hb ! i" i] assms(2) that len
    by (simp_all add: list_all_length)
  obtain i where i: "pool_index sz = int i" "i < 64" "sz \<le> 8 * (i + 1)" "8 * (i + 1) < sz + 8"
    using pool_index_range assms(3,4) unfolding MAX_SLOT_SIZE_def by blast
  have "pool_cycle b sz xs ys hb0"
    if "new_ok b (hb_pools hb ! nat (pool_index sz))" "inside sz xs" "inside sz ys" for b xs ys
    using bucket_cycle [OF hb0(2) ok(1) [OF i(2)], of b sz] that ok(2) [OF i(2)] hb0(3) [OF i(2)] i assms(3,4)
    by (simp add: new_ok_def)
  moreover have "bucket_ok hb0" using hb0(2) ok unfolding bucket_ok_def MEMORY_POOL_NUM_def by auto
  ultimately show ?thesis using hb0(1) by (auto simp: initMemoryPool_def MEMORY_POOL_NUM_def)
qed

definition demo_bucket :: hash_bucket where
  "demo_bucket = \<lparr>hb_pools = replicate 64 (ps_world demo_pool), hb_big = []\<rparr>"

theorem bucket_serves_and_reuses_witness:
  "\<exists>hb0. initMemoryPool demo_bucket = Inr hb0 \<and> bucket_ok hb0 \<and> pool_cycle 32 17 [(0, 5), (8, 6)] [] hb0"
proof -
  have "nat (pool_index 17) = 2" by (simp add: pool_index_def SLOT_BASE_SIZE_def)
  moreover have "new_ok 32 (hb_pools demo_bucket ! 2)" "inside 17 [(0, 5), (8, 6)]" "inside 17 []"
    by (simp_all add: new_ok_def demo_bucket_def demo_pool_def inside_def)
  ultimately show ?thesis
    using bucket_serves_and_reuses [of demo_bucket 17]
    by (auto simp: demo_bucket_def demo_pool_def MEMORY_POOL_NUM_def MAX_SLOT_SIZE_def list_all_length)
qed

end
