(* ===== verification/Lfu_Cache.thy ===== *)
theory Lfu_Cache
  imports Prelude "HOL-Library.Signed_Division"
begin

text \<open>
  The cache of \<open>src/include/LFU.h\<close> and its interface \<open>src/include/CachePolicy.h\<close>: the
  doubly linked lists \<open>FreqList\<close>, one for each access count, the cache \<open>LfuCache\<close> over
  them and the sharded cache \<open>HashLfuCache\<close>.

  The nodes live in a heap with one function for each field, \<open>None\<close> is the null pointer,
  and a dereference of null is an error value. The maps are association lists; the order
  in which the loop of \<open>handleOverMaxAverageNum\<close> visits an \<open>unordered_map\<close> is a
  parameter. \<open>int\<close> counters are integers, with the overflow of the one that grows without
  bound, \<open>curTotalNum_\<close>, as an error value. The mutex makes each call one step.
\<close>

section \<open>Data and operations\<close>

subsection \<open>Lists of nodes\<close>

record freq_list =
  fl_freq :: int
  fl_head :: nat
  fl_tail :: nat

record ('k, 'v) lfu_cache =
  lc_capacity :: int
  lc_minFreq :: int
  lc_maxAverageNum :: int
  lc_curAverageNum :: int
  lc_curTotalNum :: int
  lc_nodeMap :: "('k \<times> nat) list"
  lc_freqToFreqList :: "(int \<times> freq_list) list"
  nd_freq :: "nat \<Rightarrow> int"
  nd_key :: "nat \<Rightarrow> 'k"
  nd_value :: "nat \<Rightarrow> 'v"
  nd_pre :: "nat \<Rightarrow> nat option"
  nd_next :: "nat \<Rightarrow> nat option"
  nd_alloc :: nat

text \<open>The two constructors of \<open>Node\<close>, at a new address.\<close>

definition Node_default :: "('k, 'v) lfu_cache \<Rightarrow> nat \<times> ('k, 'v) lfu_cache" where
  "Node_default c =
     (let n = nd_alloc c
      in (n, c\<lparr>nd_alloc := n + 1, nd_freq := (nd_freq c)(n := 1), nd_pre := (nd_pre c)(n := None),
               nd_next := (nd_next c)(n := None)\<rparr>))"

definition Node_new :: "'k \<Rightarrow> 'v \<Rightarrow> ('k, 'v) lfu_cache \<Rightarrow> nat \<times> ('k, 'v) lfu_cache" where
  "Node_new k v c =
     (let n = nd_alloc c
      in (n, c\<lparr>nd_alloc := n + 1, nd_freq := (nd_freq c)(n := 1), nd_key := (nd_key c)(n := k),
               nd_value := (nd_value c)(n := v), nd_pre := (nd_pre c)(n := None),
               nd_next := (nd_next c)(n := None)\<rparr>))"

definition FreqList_new :: "int \<Rightarrow> ('k, 'v) lfu_cache \<Rightarrow> freq_list \<times> ('k, 'v) lfu_cache" where
  "FreqList_new f c =
     (let (h, c1) = Node_default c; (t, c2) = Node_default c1
      in (\<lparr>fl_freq = f, fl_head = h, fl_tail = t\<rparr>,
          c2\<lparr>nd_next := (nd_next c2)(h := Some t), nd_pre := (nd_pre c2)(t := Some h)\<rparr>))"

definition isEmpty :: "freq_list \<Rightarrow> ('k, 'v) lfu_cache \<Rightarrow> bool" where
  "isEmpty fl c \<longleftrightarrow> nd_next c (fl_head fl) = Some (fl_tail fl)"

definition addNode :: "freq_list \<Rightarrow> nat \<Rightarrow> ('k, 'v) lfu_cache \<Rightarrow> ('k, 'v) lfu_cache res" where
  "addNode fl n c =
     (let t = fl_tail fl;
          c1 = c\<lparr>nd_pre := (nd_pre c)(n := nd_pre c t), nd_next := (nd_next c)(n := Some t)\<rparr>
      in case nd_pre c1 t of
           None \<Rightarrow> Inl BadPointer
         | Some p \<Rightarrow> Inr (c1\<lparr>nd_next := (nd_next c1)(p := Some n), nd_pre := (nd_pre c1)(t := Some n)\<rparr>))"

definition removeNode :: "freq_list \<Rightarrow> nat \<Rightarrow> ('k, 'v) lfu_cache \<Rightarrow> ('k, 'v) lfu_cache" where
  "removeNode fl n c =
     (case (nd_pre c n, nd_next c n) of
        (Some p, Some x) \<Rightarrow>
          c\<lparr>nd_next := (nd_next c)(p := Some x, n := None), nd_pre := (nd_pre c)(x := Some p, n := None)\<rparr>
      | _ \<Rightarrow> c)"

definition getFirstNode :: "freq_list \<Rightarrow> ('k, 'v) lfu_cache \<Rightarrow> nat option" where
  "getFirstNode fl c = nd_next c (fl_head fl)"

subsection \<open>The cache\<close>

definition INT8_MAX :: int where "INT8_MAX = 127"
definition INT_MAX :: int where "INT_MAX = 2147483647"

definition LfuCache_new ::
    "int \<Rightarrow> int \<Rightarrow> ('k, 'v) lfu_cache \<Rightarrow> ('k, 'v) lfu_cache" where
  "LfuCache_new capacity maxAverageNum heap = heap\<lparr>lc_capacity := capacity, lc_minFreq := INT8_MAX,
     lc_maxAverageNum := maxAverageNum, lc_curAverageNum := 0, lc_curTotalNum := 0, lc_nodeMap := [],
     lc_freqToFreqList := []\<rparr>"

text \<open>\<open>freqToFreqList_[freq]\<close> with the dereference that follows it.\<close>

definition freqList_at :: "int \<Rightarrow> ('k, 'v) lfu_cache \<Rightarrow> freq_list res" where
  "freqList_at f c =
     (case map_of (lc_freqToFreqList c) f of None \<Rightarrow> Inl BadPointer | Some fl \<Rightarrow> Inr fl)"

definition removeFromFreqList :: "nat \<Rightarrow> ('k, 'v) lfu_cache \<Rightarrow> ('k, 'v) lfu_cache res" where
  "removeFromFreqList n c = res_bind (freqList_at (nd_freq c n) c) (\<lambda>fl. Inr (removeNode fl n c))"

definition addToFreqList :: "nat \<Rightarrow> ('k, 'v) lfu_cache \<Rightarrow> ('k, 'v) lfu_cache res" where
  "addToFreqList n c =
     (let f = nd_freq c n;
          c1 = (if map_of (lc_freqToFreqList c) f = None then
                  (let (fl, c') = FreqList_new f c
                   in c'\<lparr>lc_freqToFreqList := lc_freqToFreqList c' @ [(f, fl)]\<rparr>)
                else c)
      in res_bind (freqList_at f c1) (\<lambda>fl. addNode fl n c1))"

fun min_freq_loop :: "('k, 'v) lfu_cache \<Rightarrow> (int \<times> freq_list) list \<Rightarrow> int \<Rightarrow> int" where
  "min_freq_loop c [] m = m"
| "min_freq_loop c ((f, fl) # ps) m = min_freq_loop c ps (if \<not> isEmpty fl c then min m f else m)"

definition updateMinFreq :: "('k, 'v) lfu_cache \<Rightarrow> ('k, 'v) lfu_cache" where
  "updateMinFreq c =
     (let m = min_freq_loop c (lc_freqToFreqList c) INT8_MAX
      in c\<lparr>lc_minFreq := (if m = INT8_MAX then 1 else m)\<rparr>)"

text \<open>The aging of one node, and of all nodes in the order of the iteration.\<close>

definition age_node :: "nat \<Rightarrow> ('k, 'v) lfu_cache \<Rightarrow> ('k, 'v) lfu_cache res" where
  "age_node n c =
     res_bind (removeFromFreqList n c) (\<lambda>c1.
       (let f = nd_freq c1 n - lc_maxAverageNum c1 sdiv 2; f' = (if f < 1 then 1 else f)
        in addToFreqList n (c1\<lparr>nd_freq := (nd_freq c1)(n := f')\<rparr>)))"

fun age_nodes :: "nat list \<Rightarrow> ('k, 'v) lfu_cache \<Rightarrow> ('k, 'v) lfu_cache res" where
  "age_nodes [] c = Inr c"
| "age_nodes (n # ns) c = res_bind (age_node n c) (age_nodes ns)"

type_synonym ('k) iteration = "('k \<times> nat) list \<Rightarrow> ('k \<times> nat) list"

definition handleOverMaxAverageNum ::
    "'k iteration \<Rightarrow> ('k, 'v) lfu_cache \<Rightarrow> ('k, 'v) lfu_cache res" where
  "handleOverMaxAverageNum it c =
     (if lc_nodeMap c = [] then Inr c
      else res_bind (age_nodes (map snd (it (lc_nodeMap c))) c) (\<lambda>c1. Inr (updateMinFreq c1)))"

text \<open>\<open>curTotalNum_ / nodeMap_.size()\<close> is an unsigned division whose result goes to an \<open>int\<close>.\<close>

definition average :: "int \<Rightarrow> ('k, 'v) lfu_cache \<Rightarrow> int" where
  "average t c =
     (if lc_nodeMap c = [] then 0
      else signed_take_bit 31 ((t mod 2 ^ 64) div int (length (lc_nodeMap c))))"

definition addFreqNum :: "'k iteration \<Rightarrow> ('k, 'v) lfu_cache \<Rightarrow> ('k, 'v) lfu_cache res" where
  "addFreqNum it c =
     (if lc_curTotalNum c + 1 > INT_MAX then Inl IntOverflow
      else
        (let total = lc_curTotalNum c + 1; avg = average total c;
             c1 = c\<lparr>lc_curTotalNum := total, lc_curAverageNum := avg\<rparr>
         in if avg > lc_maxAverageNum c1 then handleOverMaxAverageNum it c1 else Inr c1))"

definition decreaseFreqNum :: "int \<Rightarrow> ('k, 'v) lfu_cache \<Rightarrow> ('k, 'v) lfu_cache" where
  "decreaseFreqNum num c =
     (let total = lc_curTotalNum c - num
      in c\<lparr>lc_curTotalNum := total, lc_curAverageNum := average total c\<rparr>)"

definition getInternal :: "'k iteration \<Rightarrow> nat \<Rightarrow> ('k, 'v) lfu_cache \<Rightarrow> ('v \<times> ('k, 'v) lfu_cache) res" where
  "getInternal it n c =
     (let v = nd_value c n in
      res_bind (removeFromFreqList n c) (\<lambda>c1.
        res_bind (addToFreqList n (c1\<lparr>nd_freq := (nd_freq c1)(n := nd_freq c1 n + 1)\<rparr>)) (\<lambda>c2.
          res_bind
            (if nd_freq c2 n - 1 = lc_minFreq c2 then
               res_bind (freqList_at (nd_freq c2 n - 1) c2) (\<lambda>fl.
                 Inr (if isEmpty fl c2 then c2\<lparr>lc_minFreq := lc_minFreq c2 + 1\<rparr> else c2))
             else Inr c2)
            (\<lambda>c3. res_bind (addFreqNum it c3) (\<lambda>c4. Inr (v, c4))))))"

text \<open>
  The first node is \<open>tail_\<close> when the list is empty, as in the code; then \<open>removeNode\<close>
  changes nothing and the key of \<open>tail_\<close> is erased.
\<close>

definition kickOut :: "('k, 'v) lfu_cache \<Rightarrow> ('k, 'v) lfu_cache res" where
  "kickOut c =
     res_bind (freqList_at (lc_minFreq c) c) (\<lambda>fl.
       case getFirstNode fl c of
         None \<Rightarrow> Inl BadPointer
       | Some n \<Rightarrow>
           res_bind (removeFromFreqList n c) (\<lambda>c1.
             Inr (decreaseFreqNum (nd_freq c1 n)
               (c1\<lparr>lc_nodeMap := filter (\<lambda>p. fst p \<noteq> nd_key c1 n) (lc_nodeMap c1)\<rparr>))))"

definition putInternal ::
    "'k iteration \<Rightarrow> 'k \<Rightarrow> 'v \<Rightarrow> ('k, 'v) lfu_cache \<Rightarrow> ('k, 'v) lfu_cache res" where
  "putInternal it k v c =
     res_bind (if int (length (lc_nodeMap c)) = lc_capacity c then kickOut c else Inr c) (\<lambda>c1.
       (let (n, c2) = Node_new k v c1;
            c3 = c2\<lparr>lc_nodeMap := filter (\<lambda>p. fst p \<noteq> k) (lc_nodeMap c2) @ [(k, n)]\<rparr>
        in res_bind (addToFreqList n c3) (\<lambda>c4.
             res_bind (addFreqNum it c4) (\<lambda>c5. Inr (c5\<lparr>lc_minFreq := min (lc_minFreq c5) 1\<rparr>)))))"

definition lfu_put ::
    "'k iteration \<Rightarrow> 'k \<Rightarrow> 'v \<Rightarrow> ('k, 'v) lfu_cache \<Rightarrow> ('k, 'v) lfu_cache res" where
  "lfu_put it k v c =
     (if lc_capacity c = 0 then Inr c
      else
        (case map_of (lc_nodeMap c) k of
           Some n \<Rightarrow>
             res_bind (getInternal it n (c\<lparr>nd_value := (nd_value c)(n := v)\<rparr>)) (\<lambda>(x, c1). Inr c1)
         | None \<Rightarrow> putInternal it k v c))"

definition lfu_get ::
    "'k iteration \<Rightarrow> 'k \<Rightarrow> ('k, 'v) lfu_cache \<Rightarrow> ('v option \<times> ('k, 'v) lfu_cache) res" where
  "lfu_get it k c =
     (case map_of (lc_nodeMap c) k of
        Some n \<Rightarrow> res_bind (getInternal it n c) (\<lambda>(v, c1). Inr (Some v, c1))
      | None \<Rightarrow> Inr (None, c))"

text \<open>The overload that returns the value; \<open>v0\<close> is the content of its local variable.\<close>

definition lfu_get_value ::
    "'k iteration \<Rightarrow> 'v \<Rightarrow> 'k \<Rightarrow> ('k, 'v) lfu_cache \<Rightarrow> ('v \<times> ('k, 'v) lfu_cache) res" where
  "lfu_get_value it v0 k c = res_bind (lfu_get it k c) (\<lambda>(r, c1). Inr (case r of Some v \<Rightarrow> v | None \<Rightarrow> v0, c1))"

definition purge :: "('k, 'v) lfu_cache \<Rightarrow> ('k, 'v) lfu_cache" where
  "purge c = c\<lparr>lc_nodeMap := [], lc_freqToFreqList := []\<rparr>"

subsection \<open>The sharded cache\<close>

text \<open>
  \<open>hw\<close> is what \<open>std::thread::hardware_concurrency\<close> returns, which may be 0; then the
  quotient is infinite and its conversion to an integer undefined. The hash function of
  the key type is a parameter.
\<close>

text \<open>A \<open>size_t\<close> passed as an \<open>int\<close> keeps its low 32 bits.\<close>

definition as_int :: "int \<Rightarrow> int" where
  "as_int x = (x + 2 ^ 31) mod 2 ^ 32 - 2 ^ 31"

record ('k, 'v) hash_lfu =
  hl_capacity :: nat
  hl_sliceNum :: int
  hl_slices :: "('k, 'v) lfu_cache list"

definition HashLfuCache_new ::
    "nat \<Rightarrow> nat \<Rightarrow> int \<Rightarrow> int \<Rightarrow> ('k, 'v) lfu_cache \<Rightarrow> ('k, 'v) hash_lfu res" where
  "HashLfuCache_new hw capacity sliceNum maxAverageNum heap =
     (let n = (if sliceNum > 0 then sliceNum else int hw) in
      if n = 0 then Inl IntOverflow
      else
        (let sliceSize = (int capacity + n - 1) div n
         in Inr \<lparr>hl_capacity = capacity, hl_sliceNum = n,
                 hl_slices = replicate (nat n) (LfuCache_new (as_int sliceSize) maxAverageNum heap)\<rparr>))"

definition sliceIndex :: "('k \<Rightarrow> nat) \<Rightarrow> 'k \<Rightarrow> ('k, 'v) hash_lfu \<Rightarrow> nat" where
  "sliceIndex hash k h = hash k mod nat (hl_sliceNum h)"

definition hash_put ::
    "'k iteration \<Rightarrow> ('k \<Rightarrow> nat) \<Rightarrow> 'k \<Rightarrow> 'v \<Rightarrow> ('k, 'v) hash_lfu \<Rightarrow> ('k, 'v) hash_lfu res" where
  "hash_put it hash k v h =
     (let i = sliceIndex hash k h in
      if i < length (hl_slices h) then
        res_bind (lfu_put it k v (hl_slices h ! i)) (\<lambda>c. Inr (h\<lparr>hl_slices := (hl_slices h)[i := c]\<rparr>))
      else Inl OutOfBounds)"

definition hash_get ::
    "'k iteration \<Rightarrow> ('k \<Rightarrow> nat) \<Rightarrow> 'k \<Rightarrow> ('k, 'v) hash_lfu \<Rightarrow> ('v option \<times> ('k, 'v) hash_lfu) res" where
  "hash_get it hash k h =
     (let i = sliceIndex hash k h in
      if i < length (hl_slices h) then
        res_bind (lfu_get it k (hl_slices h ! i)) (\<lambda>(r, c). Inr (r, h\<lparr>hl_slices := (hl_slices h)[i := c]\<rparr>))
      else Inl OutOfBounds)"

definition hash_get_value ::
    "'k iteration \<Rightarrow> ('k \<Rightarrow> nat) \<Rightarrow> 'v \<Rightarrow> 'k \<Rightarrow> ('k, 'v) hash_lfu \<Rightarrow> ('v \<times> ('k, 'v) hash_lfu) res" where
  "hash_get_value it hash v0 k h =
     res_bind (hash_get it hash k h) (\<lambda>(r, h1). Inr (case r of Some v \<Rightarrow> v | None \<Rightarrow> v0, h1))"

definition hash_purge :: "('k, 'v) hash_lfu \<Rightarrow> ('k, 'v) hash_lfu" where
  "hash_purge h = h\<lparr>hl_slices := map purge (hl_slices h)\<rparr>"

section \<open>Linked lists\<close>

text \<open>Neighbours in a list of addresses point to each other.\<close>

fun linked :: "(nat \<Rightarrow> nat option) \<Rightarrow> (nat \<Rightarrow> nat option) \<Rightarrow> nat list \<Rightarrow> bool" where
  "linked nx pr (a # b # xs) \<longleftrightarrow> nx a = Some b \<and> pr b = Some a \<and> linked nx pr (b # xs)"
| "linked nx pr _ \<longleftrightarrow> True"

lemma linked_append: "linked nx pr (xs @ a # ys) \<longleftrightarrow> linked nx pr (xs @ [a]) \<and> linked nx pr (a # ys)"
proof (induction xs)
  case (Cons x xs)
  then show ?case by (cases xs) auto
qed (cases ys; simp)

lemma linked_cong:
  assumes "\<And>x. x \<in> set (butlast xs) \<Longrightarrow> nx' x = nx x" and "\<And>x. x \<in> set (tl xs) \<Longrightarrow> pr' x = pr x"
  shows "linked nx' pr' xs = linked nx pr xs"
  using assms by (induction nx pr xs rule: linked.induct) auto

lemma linked_nth_ends:
  "linked nx pr (h # xs @ [t]) \<Longrightarrow>
     nx h = Some (if xs = [] then t else hd xs) \<and> pr t = Some (if xs = [] then h else last xs)"
proof (induction xs arbitrary: h)
  case (Cons x xs)
  then show ?case by (cases xs) auto
qed simp

lemma linked_mid:
  "linked nx pr (xs @ a # n # b # ys) \<Longrightarrow> pr n = Some a \<and> nx n = Some b"
  using linked_append [of nx pr xs a "n # b # ys"] by simp

lemma linked_remove:
  assumes l: "linked nx pr (xs @ a # n # b # ys)" and d: "distinct (xs @ a # n # b # ys)"
  shows "linked (nx(a := Some b, n := None)) (pr(b := Some a, n := None)) (xs @ a # b # ys)"
proof -
  let ?nx = "nx(a := Some b, n := None)" and ?pr = "pr(b := Some a, n := None)"
  have "linked ?nx ?pr (xs @ [a]) = linked nx pr (xs @ [a])"
    using d by (intro linked_cong) (auto simp: butlast_append dest: in_set_tlD)
  moreover have "linked ?nx ?pr (b # ys) = linked nx pr (b # ys)"
    using d by (intro linked_cong) (auto dest: in_set_butlastD split: if_splits)
  ultimately show ?thesis
    using l d linked_append [of nx pr xs a "n # b # ys"] linked_append [of ?nx ?pr xs a "b # ys"] by simp
qed

lemma linked_insert:
  assumes l: "linked nx pr (xs @ [a, t])" and d: "distinct (xs @ [a, n, t])"
  shows "linked (nx(n := Some t, a := Some n)) (pr(n := Some a, t := Some n)) (xs @ [a, n, t])"
proof -
  let ?nx = "nx(n := Some t, a := Some n)" and ?pr = "pr(n := Some a, t := Some n)"
  have "linked ?nx ?pr (xs @ [a]) = linked nx pr (xs @ [a])"
    using d by (intro linked_cong) (auto simp: butlast_append dest: in_set_tlD)
  then show ?thesis
    using l d linked_append [of nx pr xs a "[t]"] linked_append [of ?nx ?pr xs a "[n, t]"] by simp
qed

section \<open>Invariant\<close>

text \<open>
  \<open>ns\<close> lists the nodes in the order in which they were last moved; the list of each
  access count is the part of \<open>ns\<close> with that count, between its two sentinels.
\<close>

definition sentinels :: "(int \<times> freq_list) list \<Rightarrow> nat list" where
  "sentinels ps = concat (map (\<lambda>(f, fl). [fl_head fl, fl_tail fl]) ps)"

definition nodes_of :: "('k, 'v) lfu_cache \<Rightarrow> int \<Rightarrow> nat list \<Rightarrow> nat list" where
  "nodes_of c f ns = filter (\<lambda>n. nd_freq c n = f) ns"

definition flist :: "('k, 'v) lfu_cache \<Rightarrow> int \<Rightarrow> freq_list \<Rightarrow> nat list \<Rightarrow> nat list" where
  "flist c f fl ns = fl_head fl # nodes_of c f ns @ [fl_tail fl]"

definition lists_ok :: "('k, 'v) lfu_cache \<Rightarrow> nat list \<Rightarrow> bool" where
  "lists_ok c ns \<longleftrightarrow> distinct (sentinels (lc_freqToFreqList c) @ ns) \<and>
     distinct (map fst (lc_freqToFreqList c)) \<and>
     (\<forall>n \<in> set (sentinels (lc_freqToFreqList c) @ ns). n < nd_alloc c) \<and>
     (\<forall>n \<in> set ns. nd_freq c n \<in> fst ` set (lc_freqToFreqList c)) \<and>
     (\<forall>(f, fl) \<in> set (lc_freqToFreqList c).
        linked (nd_next c) (nd_pre c) (flist c f fl ns))"

definition map_ok :: "('k, 'v) lfu_cache \<Rightarrow> nat list \<Rightarrow> bool" where
  "map_ok c ns \<longleftrightarrow> distinct (map fst (lc_nodeMap c)) \<and> distinct (map (nd_key c) ns) \<and>
     set (lc_nodeMap c) = (\<lambda>n. (nd_key c n, n)) ` set ns"

lemma sentinels_member:
  "(f, fl) \<in> set ps \<Longrightarrow> fl_head fl \<in> set (sentinels ps) \<and> fl_tail fl \<in> set (sentinels ps)"
  by (fastforce simp: sentinels_def)

lemma sentinels_apart:
  assumes "distinct (sentinels ps)" and "distinct (map fst ps)" and "(f, fl) \<in> set ps" and "(g, gl) \<in> set ps"
  shows "fl_head fl \<noteq> fl_tail gl \<and> (f \<noteq> g \<longrightarrow> fl_head fl \<noteq> fl_head gl \<and> fl_tail fl \<noteq> fl_tail gl) \<and> (f = g \<longrightarrow> fl = gl)"
  using assms
proof (induction ps)
  case (Cons p ps)
  obtain h hl where p: "p = (h, hl)" by (cases p)
  have "fl_head hl \<notin> set (sentinels ps)" "fl_tail hl \<notin> set (sentinels ps)" "fl_head hl \<noteq> fl_tail hl"
    using Cons.prems(1) p by (auto simp: sentinels_def)
  moreover have "h \<notin> fst ` set ps" using Cons.prems(2) p by auto
  moreover have "distinct (sentinels ps)" "distinct (map fst ps)"
    using Cons.prems(1,2) p by (auto simp: sentinels_def)
  ultimately show ?case
    using Cons.IH Cons.prems(3,4) p sentinels_member [of f fl ps] sentinels_member [of g gl ps]
    by (auto simp: image_iff)
qed simp

lemma flist_distinct:
  assumes "lists_ok c ns" and "(f, fl) \<in> set (lc_freqToFreqList c)"
  shows "distinct (flist c f fl ns)"
  using assms sentinels_member [OF assms(2)] sentinels_apart [OF _ _ assms(2) assms(2)]
  by (auto simp: lists_ok_def flist_def nodes_of_def)

lemma flist_apart:
  assumes "lists_ok c ns" and "(f, fl) \<in> set (lc_freqToFreqList c)" and "(g, gl) \<in> set (lc_freqToFreqList c)"
    and "f \<noteq> g"
  shows "set (flist c f fl ns) \<inter> set (flist c g gl ns) = {}"
  using assms sentinels_member [OF assms(2)] sentinels_member [OF assms(3)]
    sentinels_apart [OF _ _ assms(2) assms(3)] sentinels_apart [OF _ _ assms(3) assms(2)]
  by (auto simp: lists_ok_def flist_def nodes_of_def)

lemma lists_lookup:
  assumes "lists_ok c ns" and "(f, fl) \<in> set (lc_freqToFreqList c)"
  shows "freqList_at f c = Inr fl"
  using assms by (simp add: lists_ok_def freqList_at_def)

lemma lists_member:
  assumes "lists_ok c ns" and "n \<in> set ns"
  obtains fl where "(nd_freq c n, fl) \<in> set (lc_freqToFreqList c)"
  using assms unfolding lists_ok_def by (metis (no_types, lifting) imageE prod.collapse)

lemma nodes_of_remove1: "nodes_of c f (remove1 n ns) = remove1 n (nodes_of c f ns)"
  by (simp add: nodes_of_def filter_remove1)

text \<open>Neighbours of a node in the list of its count.\<close>

lemma flist_neighbours:
  assumes "n \<in> set (nodes_of c f ns)"
  obtains xs a b ys us vs where "flist c f fl ns = xs @ a # n # b # ys" "nodes_of c f ns = us @ n # vs"
    "fl_head fl # us @ vs @ [fl_tail fl] = xs @ a # b # ys"
proof -
  obtain us vs where uv: "nodes_of c f ns = us @ n # vs" using assms by (meson split_list)
  obtain xs a where xa: "fl_head fl # us = xs @ [a]" by (metis list.distinct(1) rev_exhaust)
  obtain b ys where bys: "vs @ [fl_tail fl] = b # ys" by (cases vs) auto
  have "flist c f fl ns = (fl_head fl # us) @ n # (vs @ [fl_tail fl])" by (simp add: flist_def uv)
  moreover have "fl_head fl # us @ vs @ [fl_tail fl] = (fl_head fl # us) @ (vs @ [fl_tail fl])" by simp
  ultimately show thesis using that [of xs a b ys us vs] uv unfolding xa bys by simp
qed

text \<open>
  The operations on the lists change nothing but the pointers (and, for a new list, the
  map of the lists, which grows, and the heap's end); \<open>same_nodes\<close> says so.
\<close>

definition same_nodes :: "('k, 'v) lfu_cache \<Rightarrow> ('k, 'v) lfu_cache \<Rightarrow> bool" where
  "same_nodes c c' \<longleftrightarrow> (\<forall>n < nd_alloc c. nd_freq c' n = nd_freq c n) \<and> nd_key c' = nd_key c \<and>
     nd_value c' = nd_value c \<and> lc_nodeMap c' = lc_nodeMap c \<and> lc_capacity c' = lc_capacity c \<and>
     lc_minFreq c' = lc_minFreq c \<and> lc_maxAverageNum c' = lc_maxAverageNum c \<and>
     lc_curAverageNum c' = lc_curAverageNum c \<and> lc_curTotalNum c' = lc_curTotalNum c \<and>
     nd_alloc c \<le> nd_alloc c' \<and> set (lc_freqToFreqList c) \<subseteq> set (lc_freqToFreqList c')"

lemma same_nodes_refl [simp]: "same_nodes c c"
  by (simp add: same_nodes_def)

lemma removeFromFreqList_ok:
  assumes ok: "lists_ok c ns" and n: "n \<in> set ns"
  shows "\<exists>c'. removeFromFreqList n c = Inr c' \<and> lists_ok c' (remove1 n ns) \<and> same_nodes c c' \<and>
    lc_freqToFreqList c' = lc_freqToFreqList c \<and> nd_freq c' = nd_freq c \<and> nd_alloc c' = nd_alloc c"
proof -
  let ?f = "nd_freq c n" and ?L = "lc_freqToFreqList c"
  obtain fl where fl: "(?f, fl) \<in> set ?L" using lists_member [OF ok n] .
  have nn: "n \<in> set (nodes_of c ?f ns)" using n by (simp add: nodes_of_def)
  obtain xs a b ys us vs where sp: "flist c ?f fl ns = xs @ a # n # b # ys"
    "nodes_of c ?f ns = us @ n # vs" "fl_head fl # us @ vs @ [fl_tail fl] = xs @ a # b # ys"
    using flist_neighbours [OF nn] .
  have li: "linked (nd_next c) (nd_pre c) (xs @ a # n # b # ys)"
    using ok fl sp(1) unfolding lists_ok_def by fastforce
  have d: "distinct (xs @ a # n # b # ys)" using flist_distinct [OF ok fl] sp(1) by simp
  have dn: "distinct ns" using ok by (simp add: lists_ok_def)
  let ?c = "c\<lparr>nd_next := (nd_next c)(a := Some b, n := None), nd_pre := (nd_pre c)(b := Some a, n := None)\<rparr>"
  have "removeFromFreqList n c = Inr ?c"
    using lists_lookup [OF ok fl] linked_mid [OF li] by (simp add: removeFromFreqList_def removeNode_def)
  moreover have "linked (nd_next ?c) (nd_pre ?c) (flist ?c g gl (remove1 n ns))" if g: "(g, gl) \<in> set ?L" for g gl
  proof (cases "g = ?f")
    case True
    then have "gl = fl" using ok fl g unfolding lists_ok_def by (metis eq_key_imp_eq_value)
    have "n \<notin> set us" using sp(2) dn distinct_filter [of ns "\<lambda>x. nd_freq c x = ?f"] by (simp add: nodes_of_def)
    then have "nodes_of ?c ?f (remove1 n ns) = us @ vs"
      using nodes_of_remove1 [of c ?f n ns] sp(2) by (simp add: nodes_of_def remove1_append)
    then show ?thesis
      using linked_remove [OF li d] sp(3) True \<open>gl = fl\<close> by (simp add: flist_def)
  next
    case False
    have "nodes_of ?c g (remove1 n ns) = nodes_of c g ns"
      using False by (auto simp: nodes_of_def filter_remove1 intro: remove1_idem)
    then have fe: "flist ?c g gl (remove1 n ns) = flist c g gl ns" by (simp add: flist_def)
    have "a \<notin> set (flist c g gl ns)" "n \<notin> set (flist c g gl ns)" "b \<notin> set (flist c g gl ns)"
      using flist_apart [OF ok fl g] False sp(1) by auto
    then have "linked (nd_next ?c) (nd_pre ?c) (flist c g gl ns) = linked (nd_next c) (nd_pre c) (flist c g gl ns)"
      by (intro linked_cong) (auto dest: in_set_butlastD in_set_tlD)
    then show ?thesis using ok g fe unfolding lists_ok_def by auto
  qed
  then have "lists_ok ?c (remove1 n ns)"
    using ok by (auto simp: lists_ok_def dest: notin_set_remove1 in_set_remove1)
  ultimately show ?thesis by (simp add: same_nodes_def)
qed

lemma addNode_ok:
  assumes ok: "lists_ok c ns" and fl: "(nd_freq c n, fl) \<in> set (lc_freqToFreqList c)"
    and n: "n \<notin> set ns" "n \<notin> set (sentinels (lc_freqToFreqList c))" "n < nd_alloc c"
  shows "\<exists>c'. addNode fl n c = Inr c' \<and> lists_ok c' (ns @ [n]) \<and> same_nodes c c'"
proof -
  let ?f = "nd_freq c n" and ?L = "lc_freqToFreqList c" and ?t = "fl_tail fl"
  obtain xs a where xa: "fl_head fl # nodes_of c ?f ns = xs @ [a]" by (metis list.distinct(1) rev_exhaust)
  then have fe: "flist c ?f fl ns = xs @ [a, ?t]" by (simp add: flist_def)
  have li: "linked (nd_next c) (nd_pre c) (xs @ [a, ?t])" using ok fl fe unfolding lists_ok_def by fastforce
  have nf: "n \<notin> set (flist c g gl ns)" if "(g, gl) \<in> set ?L" for g gl
    using n sentinels_member [OF that] by (auto simp: flist_def nodes_of_def)
  have d: "distinct (xs @ [a, n, ?t])" using flist_distinct [OF ok fl] nf [OF fl] fe by auto
  let ?c = "c\<lparr>nd_next := (nd_next c)(n := Some ?t, a := Some n), nd_pre := (nd_pre c)(n := Some a, ?t := Some n)\<rparr>"
  have "nd_pre c ?t = Some a" using li linked_append [of "nd_next c" "nd_pre c" xs a "[?t]"] by simp
  moreover have "n \<noteq> ?t" using d by auto
  ultimately have "addNode fl n c = Inr ?c" by (simp add: addNode_def Let_def)
  moreover have "linked (nd_next ?c) (nd_pre ?c) (flist ?c g gl (ns @ [n]))" if g: "(g, gl) \<in> set ?L" for g gl
  proof (cases "g = ?f")
    case True
    then have "gl = fl" using ok fl g unfolding lists_ok_def by (metis eq_key_imp_eq_value)
    moreover have "flist ?c ?f fl (ns @ [n]) = (fl_head fl # nodes_of c ?f ns) @ [n, ?t]"
      by (simp add: flist_def nodes_of_def)
    then have "flist ?c ?f fl (ns @ [n]) = xs @ [a, n, ?t]" unfolding xa by simp
    ultimately show ?thesis using linked_insert [OF li d] True by simp
  next
    case False
    then have fe': "flist ?c g gl (ns @ [n]) = flist c g gl ns" by (simp add: flist_def nodes_of_def)
    have "a \<notin> set (flist c g gl ns)" "?t \<notin> set (flist c g gl ns)"
      using flist_apart [OF ok fl g] False fe by auto
    then have "linked (nd_next ?c) (nd_pre ?c) (flist c g gl ns) = linked (nd_next c) (nd_pre c) (flist c g gl ns)"
      using nf [OF g] by (intro linked_cong) (auto dest: in_set_butlastD in_set_tlD)
    then show ?thesis using ok g fe' unfolding lists_ok_def by auto
  qed
  then have "lists_ok ?c (ns @ [n])"
    using ok n fl by (auto simp: lists_ok_def image_iff) force
  ultimately show ?thesis by (simp add: same_nodes_def)
qed

lemma new_list_ok:
  assumes ok: "lists_ok c ns" and f: "map_of (lc_freqToFreqList c) f = None" and new: "FreqList_new f c = (fl, c')"
  shows "lists_ok (c'\<lparr>lc_freqToFreqList := lc_freqToFreqList c' @ [(f, fl)]\<rparr>) ns \<and> same_nodes c c' \<and>
    lc_freqToFreqList c' = lc_freqToFreqList c \<and> set (sentinels [(f, fl)]) = {nd_alloc c, nd_alloc c + 1}"
proof -
  let ?h = "nd_alloc c" and ?t = "nd_alloc c + 1" and ?L = "lc_freqToFreqList c"
  have fl: "fl = \<lparr>fl_freq = f, fl_head = ?h, fl_tail = ?t\<rparr>" and
    c': "c' = c\<lparr>nd_alloc := ?h + 2, nd_freq := (nd_freq c)(?h := 1, ?t := 1),
      nd_pre := (nd_pre c)(?h := None, ?t := Some ?h), nd_next := (nd_next c)(?h := Some ?t, ?t := None)\<rparr>"
    using new by (auto simp: FreqList_new_def Node_default_def Let_def fun_upd_twist)
  have f0: "f \<notin> fst ` set ?L" using f by (simp add: map_of_eq_None_iff)
  have old: "x < ?h" if "x \<in> set (flist c g gl ns)" "(g, gl) \<in> set ?L" for x g gl
    using ok that sentinels_member [OF that(2)] by (auto simp: lists_ok_def flist_def nodes_of_def)
  have nf: "nodes_of c' g ns = nodes_of c g ns" for g
    using ok unfolding nodes_of_def lists_ok_def c' by (intro filter_cong) fastforce+
  have "nodes_of c f ns = []" using ok f0 by (auto simp: nodes_of_def lists_ok_def filter_empty_conv)
  then have "linked (nd_next c') (nd_pre c') (flist c' f fl ns)"
    by (simp add: flist_def nf) (simp add: c' fl)
  moreover have "linked (nd_next c') (nd_pre c') (flist c' g gl ns)" if g: "(g, gl) \<in> set ?L" for g gl
  proof -
    have "?h \<notin> set (flist c g gl ns)" "?t \<notin> set (flist c g gl ns)"
      using old [of ?h g gl] old [of ?t g gl] g by auto
    then have "linked (nd_next c') (nd_pre c') (flist c g gl ns) = linked (nd_next c) (nd_pre c) (flist c g gl ns)"
      by (intro linked_cong) (auto simp: c' dest!: in_set_butlastD in_set_tlD)
    then show ?thesis using ok g unfolding lists_ok_def flist_def nf by auto
  qed
  moreover have se: "sentinels (?L @ [(f, fl)]) = sentinels ?L @ [?h, ?t]" by (simp add: sentinels_def fl)
  have lt: "x < ?h" if "x \<in> set (sentinels ?L) \<union> set ns" for x using ok that by (simp add: lists_ok_def)
  have "distinct (sentinels (?L @ [(f, fl)]) @ ns)"
  proof -
    have "?h \<notin> set (sentinels ?L) \<union> set ns" "?t \<notin> set (sentinels ?L) \<union> set ns"
      using lt less_irrefl Suc_n_not_le_n by fastforce+
    then show ?thesis using ok by (simp add: se lists_ok_def)
  qed
  moreover have "\<forall>x \<in> set (sentinels (?L @ [(f, fl)]) @ ns). x < nd_alloc c'"
    using lt by (fastforce simp: se c')
  moreover have "nd_freq c' n = nd_freq c n" if "n \<in> set ns" for n using lt [of n] that by (simp add: c')
  moreover have "lc_freqToFreqList c' = ?L" by (simp add: c')
  ultimately have "lists_ok (c'\<lparr>lc_freqToFreqList := lc_freqToFreqList c' @ [(f, fl)]\<rparr>) ns"
    using ok f0 by (simp add: lists_ok_def flist_def nodes_of_def case_prod_unfold)
  then show ?thesis by (auto simp: same_nodes_def c' sentinels_def fl)
qed

lemma addToFreqList_ok:
  assumes ok: "lists_ok c ns"
    and n: "n \<notin> set ns" "n \<notin> set (sentinels (lc_freqToFreqList c))" "n < nd_alloc c"
  shows "\<exists>c'. addToFreqList n c = Inr c' \<and> lists_ok c' (ns @ [n]) \<and> same_nodes c c'"
proof (cases "map_of (lc_freqToFreqList c) (nd_freq c n)")
  case (Some fl)
  then have fl: "(nd_freq c n, fl) \<in> set (lc_freqToFreqList c)" by (rule map_of_SomeD)
  show ?thesis
    using addNode_ok [OF ok fl n] lists_lookup [OF ok fl] Some by (simp add: addToFreqList_def)
next
  case None
  obtain fl c1 where new: "FreqList_new (nd_freq c n) c = (fl, c1)" by (cases "FreqList_new (nd_freq c n) c")
  let ?c = "c1\<lparr>lc_freqToFreqList := lc_freqToFreqList c1 @ [(nd_freq c n, fl)]\<rparr>"
  note nl = new_list_ok [OF ok None new]
  have ok1: "lists_ok ?c ns" and same: "same_nodes c c1" using nl by blast+
  have fr: "nd_freq ?c n = nd_freq c n" using same n(3) by (simp add: same_nodes_def)
  have fl: "(nd_freq ?c n, fl) \<in> set (lc_freqToFreqList ?c)" using fr by simp
  have "n \<notin> set (sentinels (lc_freqToFreqList ?c))" using nl n by (simp add: sentinels_def)
  moreover have "n < nd_alloc ?c" using same n(3) by (simp add: same_nodes_def)
  ultimately obtain c2 where c2: "addNode fl n ?c = Inr c2" "lists_ok c2 (ns @ [n])" "same_nodes ?c c2"
    using addNode_ok [OF ok1 fl n(1)] by blast
  have "addToFreqList n c = Inr c2"
    using None new lists_lookup [OF ok1 fl] c2(1) fr by (simp add: addToFreqList_def Let_def)
  moreover have "same_nodes c c2" using same c2(3) by (auto simp: same_nodes_def)
  ultimately show ?thesis using c2(2) by blast
qed

lemma lists_ok_freq:
  assumes "lists_ok c ns" and "n \<notin> set ns"
  shows "lists_ok (c\<lparr>nd_freq := (nd_freq c)(n := g)\<rparr>) ns"
proof -
  have "nodes_of (c\<lparr>nd_freq := (nd_freq c)(n := g)\<rparr>) f ns = nodes_of c f ns" for f
    using assms(2) unfolding nodes_of_def by (intro filter_cong) auto
  then show ?thesis using assms by (auto simp: lists_ok_def flist_def)
qed

text \<open>A node moves to the end of the list of another count.\<close>

lemma move_ok:
  assumes ok: "lists_ok c ns" and n: "n \<in> set ns"
  obtains c1 c2 where "removeFromFreqList n c = Inr c1" "same_nodes c c1" "nd_freq c1 = nd_freq c"
    "addToFreqList n (c1\<lparr>nd_freq := (nd_freq c1)(n := g)\<rparr>) = Inr c2"
    "lists_ok c2 (remove1 n ns @ [n])" "same_nodes (c\<lparr>nd_freq := (nd_freq c)(n := g)\<rparr>) c2"
proof -
  obtain c1 where c1: "removeFromFreqList n c = Inr c1" "lists_ok c1 (remove1 n ns)" "same_nodes c c1"
    "lc_freqToFreqList c1 = lc_freqToFreqList c" "nd_freq c1 = nd_freq c" "nd_alloc c1 = nd_alloc c"
    using removeFromFreqList_ok [OF ok n] by blast
  let ?c1 = "c1\<lparr>nd_freq := (nd_freq c1)(n := g)\<rparr>"
  have nn: "n \<notin> set (remove1 n ns)" "n \<notin> set (sentinels (lc_freqToFreqList ?c1))" "n < nd_alloc ?c1"
    using ok n c1(4,6) by (auto simp: lists_ok_def)
  obtain c2 where "addToFreqList n ?c1 = Inr c2" "lists_ok c2 (remove1 n ns @ [n])" "same_nodes ?c1 c2"
    using addToFreqList_ok [OF lists_ok_freq [OF c1(2) nn(1)] nn] by blast
  moreover from this(3) have "same_nodes (c\<lparr>nd_freq := (nd_freq c)(n := g)\<rparr>) c2"
    using c1(3-6) by (simp add: same_nodes_def)
  ultimately show thesis using that c1(1,3,5) by blast
qed

text \<open>The aging of all nodes leaves them in the order of the iteration.\<close>

definition aged :: "('k, 'v) lfu_cache \<Rightarrow> int \<Rightarrow> int" where
  "aged c f = (if f - lc_maxAverageNum c sdiv 2 < 1 then 1 else f - lc_maxAverageNum c sdiv 2)"

lemma age_nodes_ok:
  assumes "lists_ok c ns" and "distinct ms" and "set ms \<subseteq> set ns"
  shows "\<exists>c'. age_nodes ms c = Inr c' \<and> lists_ok c' (filter (\<lambda>n. n \<notin> set ms) ns @ ms) \<and>
    same_nodes (c\<lparr>nd_freq := (\<lambda>n. if n \<in> set ms then aged c (nd_freq c n) else nd_freq c n)\<rparr>) c'"
  using assms
proof (induction ms arbitrary: c ns)
  case Nil
  then show ?case by simp
next
  case (Cons n ms)
  let ?g = "aged c (nd_freq c n)"
  obtain c1 c2 where m: "removeFromFreqList n c = Inr c1" "same_nodes c c1" "nd_freq c1 = nd_freq c"
    "addToFreqList n (c1\<lparr>nd_freq := (nd_freq c1)(n := ?g)\<rparr>) = Inr c2"
    "lists_ok c2 (remove1 n ns @ [n])" "same_nodes (c\<lparr>nd_freq := (nd_freq c)(n := ?g)\<rparr>) c2"
    using move_ok [OF Cons.prems(1), of n ?g] Cons.prems(3) by auto
  have "age_node n c = Inr c2"
    using m(1-4) unfolding age_node_def Let_def aged_def same_nodes_def
    by (simp split del: if_split cong: if_cong)
  have dn: "distinct ns" using Cons.prems(1) by (simp add: lists_ok_def)
  obtain c3 where c3: "age_nodes ms c2 = Inr c3"
    "lists_ok c3 (filter (\<lambda>x. x \<notin> set ms) (remove1 n ns @ [n]) @ ms)"
    "same_nodes (c2\<lparr>nd_freq := (\<lambda>x. if x \<in> set ms then aged c2 (nd_freq c2 x) else nd_freq c2 x)\<rparr>) c3"
    using Cons.IH [OF m(5)] Cons.prems(2,3) dn by auto
  have e: "filter (\<lambda>x. x \<notin> set ms) (remove1 n ns @ [n]) @ ms = filter (\<lambda>x. x \<notin> set (n # ms)) ns @ n # ms"
    using Cons.prems(2) dn
    by (auto simp: distinct_remove1_removeAll removeAll_filter_not_eq intro!: filter_cong)
  have "same_nodes (c\<lparr>nd_freq := (\<lambda>x. if x \<in> set (n # ms) then aged c (nd_freq c x) else nd_freq c x)\<rparr>) c3"
    using m(6) c3(3) Cons.prems(2) by (auto simp: same_nodes_def aged_def)
  then show ?case using \<open>age_node n c = Inr c2\<close> c3(1) c3(2) [unfolded e] by simp
qed

text \<open>The least count among the nodes.\<close>

lemma isEmpty_iff:
  assumes "lists_ok c ns" and "(f, fl) \<in> set (lc_freqToFreqList c)"
  shows "isEmpty fl c \<longleftrightarrow> nodes_of c f ns = []"
proof -
  have "linked (nd_next c) (nd_pre c) (fl_head fl # nodes_of c f ns @ [fl_tail fl])"
    using assms unfolding lists_ok_def flist_def by fastforce
  from linked_nth_ends [OF this] have "nd_next c (fl_head fl) =
      Some (if nodes_of c f ns = [] then fl_tail fl else hd (nodes_of c f ns))" by simp
  moreover have "fl_tail fl \<notin> set (nodes_of c f ns)"
    using flist_distinct [OF assms] by (simp add: flist_def)
  ultimately show ?thesis by (cases "nodes_of c f ns") (auto simp: isEmpty_def)
qed

lemma min_freq_loop_least:
  "min_freq_loop c ps m \<le> m \<and> (\<forall>(f, fl) \<in> set ps. \<not> isEmpty fl c \<longrightarrow> min_freq_loop c ps m \<le> f) \<and>
   (min_freq_loop c ps m = m \<or> (\<exists>(f, fl) \<in> set ps. \<not> isEmpty fl c \<and> min_freq_loop c ps m = f))"
proof (induction ps arbitrary: m)
  case (Cons p ps)
  obtain f fl where p: "p = (f, fl)" by (cases p)
  show ?case
    using Cons.IH [of m] Cons.IH [of "min m f"] p by (cases "isEmpty fl c") (auto simp: min_def split: if_splits)
qed simp

lemma updateMinFreq_ok:
  assumes ok: "lists_ok c ns" and n: "n \<in> set ns" "nd_freq c n < INT8_MAX"
  shows "updateMinFreq c = c\<lparr>lc_minFreq := Min (nd_freq c ` set ns)\<rparr>"
proof -
  let ?r = "min_freq_loop c (lc_freqToFreqList c) INT8_MAX"
  note least = min_freq_loop_least [of c "lc_freqToFreqList c" INT8_MAX]
  have le: "?r \<le> nd_freq c x" if x: "x \<in> set ns" for x
  proof -
    obtain fl where fl: "(nd_freq c x, fl) \<in> set (lc_freqToFreqList c)" using lists_member [OF ok x] .
    then have "\<not> isEmpty fl c" using isEmpty_iff [OF ok fl] x by (auto simp: nodes_of_def filter_empty_conv)
    then show ?thesis using least fl by fastforce
  qed
  then have r: "?r < INT8_MAX" using n by (meson order_le_less_trans)
  then obtain fl where fl: "(?r, fl) \<in> set (lc_freqToFreqList c)" "\<not> isEmpty fl c" using least by auto
  then obtain x where "x \<in> set ns" "nd_freq c x = ?r"
    using isEmpty_iff [OF ok fl(1)] by (auto simp: nodes_of_def filter_empty_conv)
  then have "?r \<in> nd_freq c ` set ns" by (metis image_eqI)
  then have "Min (nd_freq c ` set ns) = ?r" using le by (intro Min_eqI) auto
  then show ?thesis using r by (simp add: updateMinFreq_def Let_def)
qed

end
