(* ===== verification/Lfu_Policy.thy ===== *)
theory Lfu_Policy
  imports Lfu_Cache "HOL-Library.Multiset"
begin

text \<open>
  The correctness of the cache of \<open>Lfu_Cache\<close>: an abstract specification of a cache that
  evicts the least frequently used entry, the invariant of the linked representation, the
  refinement between them, and the interface \<open>CachePolicy\<close> as a locale that the cache
  and the sharded cache \<open>HashLfuCache\<close> implement.
\<close>

section \<open>Specification\<close>

text \<open>
  An abstract cache is the list of its entries, key, value and access count, in the order
  of their last access, with the number of accesses.
\<close>

type_synonym ('k, 'v) entry = "'k \<times> 'v \<times> int"

definition count_of :: "('k, 'v) entry \<Rightarrow> int" where
  "count_of e = snd (snd e)"

definition spec_find :: "'k \<Rightarrow> ('k, 'v) entry list \<Rightarrow> ('v \<times> int) option" where
  "spec_find k es = map_of es k"

text \<open>The entry to evict: the first one with the least count.\<close>

definition victim :: "('k, 'v) entry list \<Rightarrow> ('k, 'v) entry" where
  "victim es = hd (filter (\<lambda>e. count_of e = Min (count_of ` set es)) es)"

definition spec_aged :: "int \<Rightarrow> ('k, 'v) entry \<Rightarrow> ('k, 'v) entry" where
  "spec_aged a e = (fst e, fst (snd e), max 1 (count_of e - a div 2))"

text \<open>
  Counting an access: when the average exceeds the limit all counts are lowered, in an
  order that is not specified.
\<close>

definition spec_count ::
    "int \<Rightarrow> ('k, 'v) entry list \<times> int \<Rightarrow> ('k, 'v) entry list \<times> int \<Rightarrow> bool" where
  "spec_count a s s' \<longleftrightarrow> snd s' = snd s + 1 \<and>
     (if snd s' div int (length (fst s)) > a then mset (fst s') = mset (map (spec_aged a) (fst s))
      else fst s' = fst s)"

definition spec_get ::
    "int \<Rightarrow> 'k \<Rightarrow> 'v option \<Rightarrow> ('k, 'v) entry list \<times> int \<Rightarrow> ('k, 'v) entry list \<times> int \<Rightarrow> bool" where
  "spec_get a k r s s' \<longleftrightarrow>
     (case spec_find k (fst s) of
        None \<Rightarrow> r = None \<and> s' = s
      | Some (v, f) \<Rightarrow> r = Some v \<and>
          spec_count a (filter (\<lambda>e. fst e \<noteq> k) (fst s) @ [(k, v, f + 1)], snd s) s')"

definition spec_put ::
    "int \<Rightarrow> int \<Rightarrow> 'k \<Rightarrow> 'v \<Rightarrow> ('k, 'v) entry list \<times> int \<Rightarrow> ('k, 'v) entry list \<times> int \<Rightarrow> bool" where
  "spec_put a cap k v s s' \<longleftrightarrow>
     (case spec_find k (fst s) of
        Some (x, f) \<Rightarrow> spec_count a (filter (\<lambda>e. fst e \<noteq> k) (fst s) @ [(k, v, f + 1)], snd s) s'
      | None \<Rightarrow>
          (let s1 = (if int (length (fst s)) = cap
                     then (remove1 (victim (fst s)) (fst s), snd s - count_of (victim (fst s))) else s)
           in spec_count a (fst s1 @ [(k, v, 1)], snd s1) s'))"

section \<open>Invariant\<close>

definition entries :: "('k, 'v) lfu_cache \<Rightarrow> nat list \<Rightarrow> ('k, 'v) entry list" where
  "entries c ns = map (\<lambda>n. (nd_key c n, nd_value c n, nd_freq c n)) ns"

text \<open>
  The limits within which the cache works: with a limit of 0 or 1 for the average nothing
  is ever lowered, and above 248 the least count can reach \<open>INT8_MAX\<close>, from where
  \<open>updateMinFreq\<close> does not find it.
\<close>

definition config_ok :: "('k, 'v) lfu_cache \<Rightarrow> bool" where
  "config_ok c \<longleftrightarrow> 0 < lc_capacity c \<and> 2 \<le> lc_maxAverageNum c \<and> lc_maxAverageNum c \<le> 248"

definition counts_ok :: "('k, 'v) lfu_cache \<Rightarrow> nat list \<Rightarrow> bool" where
  "counts_ok c ns \<longleftrightarrow> (\<forall>n \<in> set ns. 1 \<le> nd_freq c n) \<and>
     (\<Sum>n \<in> set ns. nd_freq c n) \<le> lc_curTotalNum c \<and> lc_curTotalNum c \<le> INT_MAX"

definition min_ok :: "('k, 'v) lfu_cache \<Rightarrow> nat list \<Rightarrow> bool" where
  "min_ok c ns \<longleftrightarrow> 1 \<le> lc_minFreq c \<and>
     (ns \<noteq> [] \<longrightarrow> lc_minFreq c = Min (nd_freq c ` set ns) \<and> lc_minFreq c \<le> lc_maxAverageNum c + 1)"

definition lfu_ok :: "('k, 'v) lfu_cache \<Rightarrow> nat list \<Rightarrow> bool" where
  "lfu_ok c ns \<longleftrightarrow> config_ok c \<and> lists_ok c ns \<and> map_ok c ns \<and> counts_ok c ns \<and> min_ok c ns \<and>
     int (length ns) \<le> lc_capacity c"

text \<open>An iteration visits every pair once.\<close>

definition iteration_ok :: "'k iteration \<Rightarrow> bool" where
  "iteration_ok it \<longleftrightarrow> (\<forall>m. mset (it m) = mset m)"

section \<open>Lemmas\<close>

lemma map_ok_length:
  assumes "map_ok c ns" and "distinct ns"
  shows "length (lc_nodeMap c) = length ns"
proof -
  have "distinct (lc_nodeMap c)" using assms(1) by (simp add: map_ok_def distinct_map)
  then have "length (lc_nodeMap c) = card (set (lc_nodeMap c))" by (simp add: distinct_card)
  also have "\<dots> = card (set ns)"
    using assms(1) by (simp add: map_ok_def card_image inj_on_def)
  finally show ?thesis using assms(2) by (simp add: distinct_card)
qed

lemma map_ok_lookup:
  assumes "map_ok c ns"
  shows "map_of (lc_nodeMap c) k = Some n \<longleftrightarrow> n \<in> set ns \<and> nd_key c n = k"
  using assms by (auto simp: map_ok_def map_of_eq_Some_iff)

lemma map_ok_absent:
  assumes "map_ok c ns"
  shows "map_of (lc_nodeMap c) k = None \<longleftrightarrow> (\<forall>n \<in> set ns. nd_key c n \<noteq> k)"
  using assms by (auto simp: map_ok_def map_of_eq_None_iff image_image)

lemma map_ok_cong:
  assumes "map_ok c ns" and "lc_nodeMap c' = lc_nodeMap c" and "nd_key c' = nd_key c"
    and "mset ns' = mset ns"
  shows "map_ok c' ns'"
proof -
  have "mset (map (nd_key c) ns') = mset (map (nd_key c) ns)" using assms(4) by simp
  then have "distinct (map (nd_key c) ns') = distinct (map (nd_key c) ns)" by (rule mset_eq_imp_distinct_iff)
  moreover have "set ns' = set ns" using assms(4) by (rule mset_eq_setD)
  ultimately show ?thesis using assms(1-3) by (simp add: map_ok_def)
qed

lemma spec_find_entries:
  assumes "distinct (map (nd_key c) ns)" and "n \<in> set ns"
  shows "spec_find (nd_key c n) (entries c ns) = Some (nd_value c n, nd_freq c n)"
proof -
  have "map fst (entries c ns) = map (nd_key c) ns" by (simp add: entries_def)
  then have "distinct (map fst (entries c ns))" using assms(1) by simp
  moreover have "(nd_key c n, nd_value c n, nd_freq c n) \<in> set (entries c ns)"
    using assms(2) by (simp add: entries_def)
  ultimately show ?thesis unfolding spec_find_def by (rule map_of_is_SomeI)
qed

lemma spec_find_absent:
  "(\<forall>n \<in> set ns. nd_key c n \<noteq> k) \<Longrightarrow> spec_find k (entries c ns) = None"
  by (auto simp: spec_find_def map_of_eq_None_iff entries_def image_image)

text \<open>The counts of a node list that loses one node and gains it at the end.\<close>

lemma entries_move:
  assumes "distinct (map (nd_key c) ns)" and "n \<in> set ns" and "distinct ns"
    and "nd_key c' = nd_key c" and "nd_value c' = nd_value c"
    and "\<forall>m \<in> set ns. nd_freq c' m = (if m = n then g else nd_freq c m)"
  shows "entries c' (remove1 n ns @ [n]) =
    filter (\<lambda>e. fst e \<noteq> nd_key c n) (entries c ns) @ [(nd_key c n, nd_value c n, g)]"
proof -
  have "nd_key c m \<noteq> nd_key c n" if "m \<in> set ns" "m \<noteq> n" for m
    using assms(1,2) that by (auto simp: distinct_map inj_on_def)
  then have "filter (\<lambda>m. nd_key c m \<noteq> nd_key c n) ns = remove1 n ns"
    using assms(3) by (auto simp: distinct_remove1_removeAll removeAll_filter_not_eq intro!: filter_cong)
  moreover have "map (\<lambda>m. (nd_key c m, nd_value c m, nd_freq c' m)) (remove1 n ns) =
      map (\<lambda>m. (nd_key c m, nd_value c m, nd_freq c m)) (remove1 n ns)"
    using assms(3,6) by auto
  ultimately show ?thesis using assms(2,4-6) by (simp add: entries_def filter_map o_def)
qed

lemma average_eq:
  assumes "0 \<le> t" and "t \<le> INT_MAX" and "lc_nodeMap c \<noteq> []"
  shows "average t c = t div int (length (lc_nodeMap c))"
proof -
  let ?l = "int (length (lc_nodeMap c))"
  have "0 < ?l" using assms(3) by simp
  then have "0 \<le> t div ?l" "t div ?l \<le> t"
    using assms(1) zdiv_mono2 [of t 1 ?l] assms(3)
    by (simp_all add: pos_imp_zdiv_nonneg_iff Suc_le_eq)
  then have "signed_take_bit 31 (t div ?l) = t div ?l"
    using assms(2) by (simp add: INT_MAX_def signed_take_bit_int_eq_self_iff)
  then show ?thesis using assms by (simp add: average_def INT_MAX_def)
qed

lemma map_ok_nodes:
  assumes "map_ok c ns" and "distinct ns" and "mset m = mset (lc_nodeMap c)"
  shows "mset (map snd m) = mset ns"
proof -
  have "snd ` set (lc_nodeMap c) = set ns" using assms(1) by (auto simp: map_ok_def image_image)
  moreover have "inj_on snd (set (lc_nodeMap c))" using assms(1) by (auto simp: map_ok_def inj_on_def)
  then have "distinct (map snd (lc_nodeMap c))" using assms(1) by (simp add: map_ok_def distinct_map)
  ultimately have "mset (map snd (lc_nodeMap c)) = mset ns"
    using assms(2) by (subst set_eq_iff_mset_eq_distinct [symmetric]) auto
  then show ?thesis using assms(3) by (metis mset_map)
qed

lemma least_count_bound:
  assumes "ns \<noteq> []" and "distinct ns" and "(\<Sum>n \<in> set ns. f n) \<le> t" and "t div int (length ns) \<le> a"
  shows "Min (f ` set ns) \<le> (a :: int)"
proof (rule ccontr)
  assume "\<not> ?thesis"
  then have ge: "a + 1 \<le> Min (f ` set ns)" by simp
  have "a + 1 \<le> f n" if "n \<in> set ns" for n
    using ge Min_le [of "f ` set ns" "f n"] that by (meson finite_imageI finite_set image_eqI order_trans)
  then have "of_nat (card (set ns)) * (a + 1) \<le> sum f (set ns)" by (rule sum_bounded_below)
  then have "(a + 1) * int (length ns) \<le> t" using assms(2,3) by (simp add: distinct_card mult.commute)
  then have "(a + 1) * int (length ns) div int (length ns) \<le> t div int (length ns)"
    using assms(1) by (intro zdiv_mono1) auto
  then show False using assms(1,4) by simp
qed

lemma aged_max: "0 \<le> lc_maxAverageNum c \<Longrightarrow> aged c f = max 1 (f - lc_maxAverageNum c div 2)"
  by (simp add: aged_def signed_divide_int_def sgn_if max_def)

text \<open>Fields that the invariant of the lists does not mention.\<close>

lemma lists_ok_fields [simp]:
  "lists_ok (c\<lparr>lc_curTotalNum := t, lc_curAverageNum := u\<rparr>) ns = lists_ok c ns"
  "lists_ok (c\<lparr>lc_minFreq := m\<rparr>) ns = lists_ok c ns"
  "lists_ok (c\<lparr>lc_nodeMap := p\<rparr>) ns = lists_ok c ns"
  "lists_ok (c\<lparr>nd_value := w\<rparr>) ns = lists_ok c ns"
  by (simp_all add: lists_ok_def flist_def nodes_of_def)

text \<open>The aging of the whole cache.\<close>

lemma handleOver_ok:
  assumes it: "iteration_ok it" and a: "2 \<le> lc_maxAverageNum c" "lc_maxAverageNum c \<le> 248"
    and ok: "lists_ok c ns" and mp: "map_ok c ns" and n0: "n0 \<in> set ns" "nd_freq c n0 \<le> lc_maxAverageNum c + 2"
  shows "\<exists>c' ns'. handleOverMaxAverageNum it c = Inr c' \<and> lists_ok c' ns' \<and> mset ns' = mset ns \<and>
    (\<forall>n \<in> set ns. nd_freq c' n = aged c (nd_freq c n)) \<and> nd_key c' = nd_key c \<and> nd_value c' = nd_value c \<and>
    lc_nodeMap c' = lc_nodeMap c \<and> lc_capacity c' = lc_capacity c \<and> lc_maxAverageNum c' = lc_maxAverageNum c \<and>
    lc_curTotalNum c' = lc_curTotalNum c \<and> lc_minFreq c' = Min (nd_freq c' ` set ns')"
proof -
  let ?ms = "map snd (it (lc_nodeMap c))"
  have d: "distinct ns" "\<And>n. n \<in> set ns \<Longrightarrow> n < nd_alloc c" using ok by (auto simp: lists_ok_def)
  have ms: "mset ?ms = mset ns" using map_ok_nodes [OF mp d(1)] it by (simp add: iteration_ok_def)
  then have sd: "set ?ms = set ns" "distinct ?ms"
    using d(1) mset_eq_setD mset_eq_imp_distinct_iff by blast+
  obtain c1 where c1: "age_nodes ?ms c = Inr c1" "lists_ok c1 (filter (\<lambda>n. n \<notin> set ?ms) ns @ ?ms)"
    "same_nodes (c\<lparr>nd_freq := (\<lambda>n. if n \<in> set ?ms then aged c (nd_freq c n) else nd_freq c n)\<rparr>) c1"
    using age_nodes_ok [OF ok sd(2)] sd(1) by blast
  have fr: "nd_freq c1 n = aged c (nd_freq c n)" if "n \<in> set ns" for n
    using c1(3) that d(2) sd(1) by (simp add: same_nodes_def)
  have l1: "lists_ok c1 ?ms" using c1(2) sd(1) by simp
  have "n0 \<in> set ?ms" "nd_freq c1 n0 < INT8_MAX"
    using n0 sd(1) fr [OF n0(1)] a by (simp_all add: aged_max INT8_MAX_def)
  then have u: "updateMinFreq c1 = c1\<lparr>lc_minFreq := Min (nd_freq c1 ` set ?ms)\<rparr>" by (rule updateMinFreq_ok [OF l1])
  moreover have "lc_nodeMap c \<noteq> []" using mp n0(1) by (auto simp: map_ok_def)
  ultimately have "handleOverMaxAverageNum it c = Inr (c1\<lparr>lc_minFreq := Min (nd_freq c1 ` set ?ms)\<rparr>)"
    using c1(1) by (simp add: handleOverMaxAverageNum_def)
  then show ?thesis
    using l1 ms fr c1(3) sd(1)
    by (intro exI [of _ "c1\<lparr>lc_minFreq := Min (nd_freq c1 ` set ?ms)\<rparr>"] exI [of _ ?ms]) (simp add: same_nodes_def)
qed

text \<open>One more access has been counted, with the aging that it may cause.\<close>

definition counted :: "('k, 'v) lfu_cache \<Rightarrow> nat list \<Rightarrow> ('k, 'v) lfu_cache \<Rightarrow> nat list \<Rightarrow> bool" where
  "counted c ns c' ns' \<longleftrightarrow> config_ok c' \<and> lists_ok c' ns' \<and> map_ok c' ns' \<and>
    counts_ok c' ns' \<and> mset ns' = mset ns \<and> (\<forall>n \<in> set ns. nd_freq c' n \<le> nd_freq c n) \<and> Min (nd_freq c' ` set ns') \<le> lc_maxAverageNum c + 1 \<and>
    (lc_minFreq c' = Min (nd_freq c' ` set ns') \<or> lc_minFreq c' = lc_minFreq c \<and> nd_freq c' = nd_freq c) \<and>
    spec_count (lc_maxAverageNum c) (entries c ns, lc_curTotalNum c) (entries c' ns', lc_curTotalNum c') \<and>
    lc_capacity c' = lc_capacity c \<and> lc_maxAverageNum c' = lc_maxAverageNum c"

lemma addFreqNum_aged:
  assumes it: "iteration_ok it" and cfg: "config_ok c" and ok: "lists_ok c ns" and mp: "map_ok c ns"
    and pos: "\<forall>n \<in> set ns. 1 \<le> nd_freq c n" and sum: "(\<Sum>n \<in> set ns. nd_freq c n) \<le> lc_curTotalNum c + 1"
    and top: "lc_curTotalNum c < INT_MAX"
    and n0: "n0 \<in> set ns" "nd_freq c n0 \<le> lc_maxAverageNum c + 2"
    and over: "(lc_curTotalNum c + 1) div int (length ns) > lc_maxAverageNum c"
      "average (lc_curTotalNum c + 1) c = (lc_curTotalNum c + 1) div int (length ns)" "0 \<le> lc_curTotalNum c + 1"
  shows "\<exists>c' ns'. addFreqNum it c = Inr c' \<and> counted c ns c' ns'"
proof -
  let ?a = "lc_maxAverageNum c" and ?t = "lc_curTotalNum c + 1"
  let ?c = "c\<lparr>lc_curTotalNum := ?t, lc_curAverageNum := average ?t c\<rparr>"
  have a: "2 \<le> ?a" "?a \<le> 248" using cfg by (auto simp: config_ok_def)
  have t: "0 \<le> ?t" "?t \<le> INT_MAX" using over(3) top by linarith+
  have "map_ok ?c ns" "lists_ok ?c ns" using mp ok by (simp_all add: map_ok_def)
  then obtain c' ns' where c': "handleOverMaxAverageNum it ?c = Inr c'" "lists_ok c' ns'" "mset ns' = mset ns"
    "\<forall>n \<in> set ns. nd_freq c' n = aged ?c (nd_freq ?c n)" "nd_key c' = nd_key ?c" "nd_value c' = nd_value ?c"
    "lc_nodeMap c' = lc_nodeMap ?c" "lc_capacity c' = lc_capacity ?c" "lc_maxAverageNum c' = lc_maxAverageNum ?c"
    "lc_curTotalNum c' = lc_curTotalNum ?c" "lc_minFreq c' = Min (nd_freq c' ` set ns')"
    using handleOver_ok [OF it, of ?c ns n0] a n0 by auto
  have s: "set ns' = set ns" using c'(3) by (rule mset_eq_setD)
  have fr: "nd_freq c' n = max 1 (nd_freq c n - ?a div 2)" if "n \<in> set ns" for n
    using c'(4) that a by (simp add: aged_max)
  then have le: "nd_freq c' n \<le> nd_freq c n" "1 \<le> nd_freq c' n" if "n \<in> set ns" for n
    using that pos a by auto
  have "(\<Sum>n \<in> set ns'. nd_freq c' n) \<le> (\<Sum>n \<in> set ns. nd_freq c n)"
    unfolding s using le(1) by (rule sum_mono)
  then have cnt: "counts_ok c' ns'" using le(2) s sum t c'(10) by (simp add: counts_ok_def)
  have "Min (nd_freq c' ` set ns') \<le> nd_freq c' n0" using n0(1) s by simp
  then have mn: "Min (nd_freq c' ` set ns') \<le> ?a + 1" using fr [OF n0(1)] n0(2) a by (simp add: max_def split: if_splits)
  have "entries c' ns' = map (spec_aged ?a) (entries c ns')"
    using fr s c'(5,6) by (simp add: entries_def spec_aged_def count_of_def)
  then have "mset (entries c' ns') = mset (map (spec_aged ?a) (entries c ns'))" by (rule arg_cong)
  also have "\<dots> = mset (map (spec_aged ?a) (entries c ns))" using c'(3) by (simp add: entries_def)
  finally have "spec_count ?a (entries c ns, lc_curTotalNum c) (entries c' ns', lc_curTotalNum c')"
    using over(1) c'(10) by (simp add: spec_count_def entries_def)
  moreover have "addFreqNum it c = Inr c'" using top over c'(1) by (simp add: addFreqNum_def Let_def)
  moreover have "map_ok c' ns'" using map_ok_cong [OF mp] c'(3,5,7) by simp
  ultimately show ?thesis
    using c'(2,3,8,9,11) cnt mn cfg le(1) by (intro exI [of _ c'] exI [of _ ns']) (simp add: config_ok_def counted_def)
qed

lemma addFreqNum_ok:
  assumes it: "iteration_ok it" and cfg: "config_ok c" and ok: "lists_ok c ns" and mp: "map_ok c ns"
    and pos: "\<forall>n \<in> set ns. 1 \<le> nd_freq c n" and sum: "(\<Sum>n \<in> set ns. nd_freq c n) \<le> lc_curTotalNum c + 1"
    and top: "lc_curTotalNum c < INT_MAX"
    and n0: "n0 \<in> set ns" "nd_freq c n0 \<le> lc_maxAverageNum c + 2"
  shows "\<exists>c' ns'. addFreqNum it c = Inr c' \<and> counted c ns c' ns'"
proof -
  let ?a = "lc_maxAverageNum c" and ?t = "lc_curTotalNum c + 1"
  let ?c = "c\<lparr>lc_curTotalNum := ?t, lc_curAverageNum := average ?t c\<rparr>"
  have d: "distinct ns" using ok by (simp add: lists_ok_def)
  have len: "length (lc_nodeMap c) = length ns" using map_ok_length [OF mp d] .
  have ne: "ns \<noteq> []" using n0(1) by auto
  have "0 \<le> (\<Sum>n \<in> set ns. nd_freq c n)" using pos by (intro sum_nonneg) force
  then have t: "0 \<le> ?t" "?t \<le> INT_MAX" using sum top by linarith+
  have "lc_nodeMap c \<noteq> []" using len ne by auto
  then have avg: "average ?t c = ?t div int (length ns)" using average_eq [OF t, of c] len by simp
  show ?thesis
  proof (cases "?t div int (length ns) > ?a")
    case False
    then have "addFreqNum it c = Inr ?c" using top avg by (simp add: addFreqNum_def Let_def)
    moreover have "Min (nd_freq c ` set ns) \<le> ?a" using least_count_bound [OF ne d sum] False by simp
    moreover have "map_ok ?c ns" using mp by (simp add: map_ok_def)
    moreover have "entries ?c ns = entries c ns" "length (entries c ns) = length ns" by (simp_all add: entries_def)
    ultimately show ?thesis
      using ok cfg pos sum t False
      by (intro exI [of _ ?c] exI [of _ ns]) (simp add: config_ok_def counts_ok_def spec_count_def counted_def)
  next
    case True
    show ?thesis by (rule addFreqNum_aged [OF it cfg ok mp pos sum top n0 True avg t(1)])
  qed
qed

text \<open>The least count after one count has grown by one.\<close>

lemma Min_after_increment:
  fixes f g :: "nat \<Rightarrow> int"
  assumes "finite S" and "n \<in> S" and g: "\<And>m. m \<in> S \<Longrightarrow> g m = (if m = n then f n + 1 else f m)"
  shows "Min (g ` S) = (if f n = Min (f ` S) \<and> (\<forall>m \<in> S. m \<noteq> n \<longrightarrow> f m \<noteq> f n) then Min (f ` S) + 1 else Min (f ` S))"
proof -
  have ge: "Min (f ` S) \<le> f m" if "m \<in> S" for m using assms(1) that by simp
  obtain m0 where m0: "m0 \<in> S" "f m0 = Min (f ` S)" using Min_in [of "f ` S"] assms(1,2) by fastforce
  show ?thesis
  proof (cases "f n = Min (f ` S) \<and> (\<forall>m \<in> S. m \<noteq> n \<longrightarrow> f m \<noteq> f n)")
    case True
    then have "Min (f ` S) + 1 \<le> g m" if "m \<in> S" for m
      using ge [OF that] g [OF that] that by (cases "m = n") fastforce+
    moreover have "g n = Min (f ` S) + 1" using True g assms(2) by simp
    ultimately have "Min (g ` S) = Min (f ` S) + 1"
      using assms(1,2) by (intro Min_eqI) (auto simp: image_iff intro: bexI [of _ n])
    then show ?thesis unfolding if_P [OF True] .
  next
    case False
    then obtain m1 where "m1 \<in> S" "g m1 = Min (f ` S)"
      using m0 g by (cases "m0 = n") auto
    moreover have "Min (f ` S) \<le> g m" if "m \<in> S" for m using ge [OF that] g [OF that] by (cases "m = n") auto
    ultimately have "Min (g ` S) = Min (f ` S)"
      using assms(1) by (intro Min_eqI) (auto simp: image_iff intro: bexI [of _ m1])
    then show ?thesis unfolding if_not_P [OF False] .
  qed
qed

lemma sum_after_increment:
  fixes f g :: "nat \<Rightarrow> int"
  assumes "finite S" and "n \<in> S" and "\<And>m. m \<in> S \<Longrightarrow> g m = (if m = n then f n + 1 else f m)"
  shows "sum g S = sum f S + 1"
proof -
  have "sum g (S - {n}) = sum f (S - {n})" using assms(3) by (intro sum.cong) auto
  then show ?thesis using assms sum.remove [OF assms(1,2), of f] sum.remove [OF assms(1,2), of g] by simp
qed

text \<open>The node moves to the list of its new count, and the least count follows.\<close>

lemma getInternal_moved:
  assumes it: "iteration_ok it" and inv: "lfu_ok c ns" and n: "n \<in> set ns"
  obtains c3 where "getInternal it n c = res_bind (addFreqNum it c3) (\<lambda>c4. Inr (nd_value c n, c4))"
    "config_ok c3" "lists_ok c3 (remove1 n ns @ [n])" "map_ok c3 (remove1 n ns @ [n])" "lc_curTotalNum c3 = lc_curTotalNum c"
    "lc_maxAverageNum c3 = lc_maxAverageNum c" "lc_capacity c3 = lc_capacity c"
    "entries c3 (remove1 n ns @ [n]) =
      filter (\<lambda>e. fst e \<noteq> nd_key c n) (entries c ns) @ [(nd_key c n, nd_value c n, nd_freq c n + 1)]"
    "\<And>x. x \<in> set ns \<Longrightarrow> nd_freq c3 x = (if x = n then nd_freq c n + 1 else nd_freq c x)"
    "lc_minFreq c3 = Min (nd_freq c3 ` set ns)"
proof -
  let ?f = "nd_freq c n" and ?ns = "remove1 n ns @ [n]"
  have ok: "lists_ok c ns" and mp: "map_ok c ns" and cfg: "config_ok c"
    and mn: "min_ok c ns" using inv by (auto simp: lfu_ok_def)
  have d: "distinct ns" "\<And>m. m \<in> set ns \<Longrightarrow> m < nd_alloc c" using ok by (auto simp: lists_ok_def)
  obtain c1 c2 where m: "removeFromFreqList n c = Inr c1" "same_nodes c c1" "nd_freq c1 = nd_freq c"
    "addToFreqList n (c1\<lparr>nd_freq := (nd_freq c1)(n := ?f + 1)\<rparr>) = Inr c2" "lists_ok c2 ?ns"
    "same_nodes (c\<lparr>nd_freq := (nd_freq c)(n := ?f + 1)\<rparr>) c2"
    using move_ok [OF ok n, of "?f + 1"] .
  have fr: "nd_freq c2 x = (if x = n then ?f + 1 else nd_freq c x)" if "x \<in> set ns" for x
    using m(6) d(2) [OF that] by (simp add: same_nodes_def)
  have ms: "mset ?ns = mset ns" "set ?ns = set ns" using n by (auto simp: set_remove1_eq d(1))
  obtain fl where "(?f, fl) \<in> set (lc_freqToFreqList c)" using lists_member [OF ok n] .
  then have fl: "(?f, fl) \<in> set (lc_freqToFreqList c2)" using m(6) by (auto simp: same_nodes_def)
  have "isEmpty fl c2 \<longleftrightarrow> (\<forall>x \<in> set ?ns. nd_freq c2 x \<noteq> ?f)"
    using isEmpty_iff [OF m(5) fl] unfolding nodes_of_def filter_empty_conv .
  then have em: "isEmpty fl c2 \<longleftrightarrow> (\<forall>x \<in> set ns. x \<noteq> n \<longrightarrow> nd_freq c x \<noteq> ?f)"
    unfolding ms(2) using fr by auto
  define c3 where "c3 = c2\<lparr>lc_minFreq := Min (nd_freq c2 ` set ns)\<rparr>"
  have "lc_minFreq c2 = Min (nd_freq c ` set ns)" using mn n m(6) by (auto simp: min_ok_def same_nodes_def)
  then have "(if nd_freq c2 n - 1 = lc_minFreq c2 then
      res_bind (freqList_at (nd_freq c2 n - 1) c2) (\<lambda>fl.
        Inr (if isEmpty fl c2 then c2\<lparr>lc_minFreq := lc_minFreq c2 + 1\<rparr> else c2)) else Inr c2) = Inr c3"
    using fr [OF n] lists_lookup [OF m(5) fl] em Min_after_increment [of "set ns" n "nd_freq c2" "nd_freq c", OF _ n fr]
    by (auto simp: c3_def)
  then have g: "getInternal it n c = res_bind (addFreqNum it c3) (\<lambda>c4. Inr (nd_value c n, c4))"
    using m(1,4) m(3) by (simp add: getInternal_def)
  have c3: "config_ok c3" "lists_ok c3 ?ns" "map_ok c3 ?ns" "lc_curTotalNum c3 = lc_curTotalNum c"
    "nd_freq c3 = nd_freq c2" "lc_maxAverageNum c3 = lc_maxAverageNum c" "lc_capacity c3 = lc_capacity c"
    using cfg m(5,6) map_ok_cong [OF mp _ _ ms(1), of c3] by (auto simp: c3_def config_ok_def same_nodes_def)
  have en: "entries c3 ?ns = filter (\<lambda>e. fst e \<noteq> nd_key c n) (entries c ns) @ [(nd_key c n, nd_value c n, ?f + 1)]"
    using entries_move [of c ns n c3] mp n d(1) m(6) fr by (simp add: map_ok_def c3_def same_nodes_def)
  show thesis by (rule that [of c3]) (use g c3 en fr in \<open>simp_all add: c3_def\<close>)
qed

lemma getInternal_ok:
  assumes it: "iteration_ok it" and inv: "lfu_ok c ns" and n: "n \<in> set ns" and top: "lc_curTotalNum c < INT_MAX"
  shows "\<exists>c' ns'. getInternal it n c = Inr (nd_value c n, c') \<and> lfu_ok c' ns' \<and>
    spec_count (lc_maxAverageNum c)
      (filter (\<lambda>e. fst e \<noteq> nd_key c n) (entries c ns) @ [(nd_key c n, nd_value c n, nd_freq c n + 1)], lc_curTotalNum c)
      (entries c' ns', lc_curTotalNum c') \<and>
    lc_capacity c' = lc_capacity c \<and> lc_maxAverageNum c' = lc_maxAverageNum c"
proof -
  let ?f = "nd_freq c n" and ?ns = "remove1 n ns @ [n]"
  have cnt: "counts_ok c ns" and mn: "min_ok c ns" and d: "distinct ns"
    using inv by (auto simp: lfu_ok_def lists_ok_def)
  have ms: "mset ?ns = mset ns" "set ?ns = set ns" using n d by (auto simp: set_remove1_eq)
  obtain c3 where g: "getInternal it n c = res_bind (addFreqNum it c3) (\<lambda>c4. Inr (nd_value c n, c4))"
    and c3: "config_ok c3" "lists_ok c3 ?ns" "map_ok c3 ?ns" "lc_curTotalNum c3 = lc_curTotalNum c"
      "lc_maxAverageNum c3 = lc_maxAverageNum c" "lc_capacity c3 = lc_capacity c"
    and en: "entries c3 ?ns = filter (\<lambda>e. fst e \<noteq> nd_key c n) (entries c ns) @ [(nd_key c n, nd_value c n, ?f + 1)]"
    and fr: "\<And>x. x \<in> set ns \<Longrightarrow> nd_freq c3 x = (if x = n then ?f + 1 else nd_freq c x)"
    and m3: "lc_minFreq c3 = Min (nd_freq c3 ` set ns)"
    using getInternal_moved [OF it inv n] by blast
  have "(\<Sum>x \<in> set ?ns. nd_freq c3 x) \<le> lc_curTotalNum c3 + 1"
    using sum_after_increment [of "set ns" n "nd_freq c3" "nd_freq c", OF _ n fr] cnt c3(4) ms(2)
    by (simp add: counts_ok_def)
  moreover have "\<forall>x \<in> set ?ns. 1 \<le> nd_freq c3 x" using cnt fr ms(2) by (fastforce simp: counts_ok_def)
  moreover obtain n0 where "n0 \<in> set ns" "nd_freq c3 n0 = Min (nd_freq c3 ` set ns)"
    using Min_in [of "nd_freq c3 ` set ns"] n by fastforce
  moreover have "Min (nd_freq c3 ` set ns) \<le> lc_maxAverageNum c + 2"
    using Min_after_increment [of "set ns" n "nd_freq c3" "nd_freq c", OF _ n fr] mn n by (auto simp: min_ok_def)
  ultimately obtain c' ns' where r: "addFreqNum it c3 = Inr c'" "config_ok c'" "lists_ok c' ns'" "map_ok c' ns'"
    "counts_ok c' ns'" "mset ns' = mset ?ns" "Min (nd_freq c' ` set ns') \<le> lc_maxAverageNum c3 + 1"
    "lc_minFreq c' = Min (nd_freq c' ` set ns') \<or> lc_minFreq c' = lc_minFreq c3 \<and> nd_freq c' = nd_freq c3"
    "spec_count (lc_maxAverageNum c3) (entries c3 ?ns, lc_curTotalNum c3) (entries c' ns', lc_curTotalNum c')"
    "lc_capacity c' = lc_capacity c3" "lc_maxAverageNum c' = lc_maxAverageNum c3"
    using addFreqNum_ok [unfolded counted_def, OF it c3(1-3), of n0] c3(4-6) top ms(2) by auto
  have s': "set ns' = set ns" using r(6) ms(2) mset_eq_setD by metis
  have "lc_minFreq c' = Min (nd_freq c' ` set ns')" using r(8) s' m3 by auto
  moreover have "1 \<le> Min (nd_freq c' ` set ns')" using r(5) s' n by (subst Min_ge_iff) (auto simp: counts_ok_def)
  moreover have "length ns' = length ns" using r(6) ms(1) mset_eq_length by metis
  ultimately have "lfu_ok c' ns'" using r inv c3(5,6) by (simp add: lfu_ok_def min_ok_def)
  then show ?thesis using g r(1,9-11) en c3(4-6) by auto
qed

lemma remove1_map_inj: "inj_on f (insert x (set xs)) \<Longrightarrow> remove1 (f x) (map f xs) = map f (remove1 x xs)"
  by (induction xs) (auto simp: inj_on_def)

text \<open>The victim is the first node of the list of the least count.\<close>

lemma victim_node:
  assumes "ns \<noteq> []" and "distinct (map (nd_key c) ns)"
  defines "n \<equiv> hd (nodes_of c (Min (nd_freq c ` set ns)) ns)"
  shows "n \<in> set ns \<and> nd_freq c n = Min (nd_freq c ` set ns) \<and>
    victim (entries c ns) = (nd_key c n, nd_value c n, nd_freq c n) \<and>
    remove1 (victim (entries c ns)) (entries c ns) = entries c (remove1 n ns)"
proof -
  let ?m = "Min (nd_freq c ` set ns)" and ?e = "\<lambda>n. (nd_key c n, nd_value c n, nd_freq c n)"
  have "?m \<in> nd_freq c ` set ns" using assms(1) by simp
  then have ne: "nodes_of c ?m ns \<noteq> []" by (auto simp: nodes_of_def filter_empty_conv)
  then have n: "n \<in> set ns" "nd_freq c n = ?m"
    using hd_in_set [OF ne] unfolding n_def by (auto simp: nodes_of_def)
  have "count_of ` set (entries c ns) = nd_freq c ` set ns" by (auto simp: entries_def count_of_def image_image)
  then have v: "victim (entries c ns) = ?e n"
    using ne by (simp add: victim_def entries_def filter_map o_def count_of_def nodes_of_def n_def hd_map)
  have "inj_on ?e (insert n (set ns))" using assms(2) n(1) by (auto simp: distinct_map inj_on_def)
  then have "remove1 (?e n) (map ?e ns) = map ?e (remove1 n ns)" by (rule remove1_map_inj)
  then show ?thesis using n v by (simp add: entries_def)
qed

lemma kickOut_ok:
  assumes inv: "lfu_ok c ns" and ne: "ns \<noteq> []"
  defines "n \<equiv> hd (nodes_of c (Min (nd_freq c ` set ns)) ns)"
  shows "\<exists>c'. kickOut c = Inr c' \<and> config_ok c' \<and> lists_ok c' (remove1 n ns) \<and> map_ok c' (remove1 n ns) \<and>
    counts_ok c' (remove1 n ns) \<and> entries c' (remove1 n ns) = entries c (remove1 n ns) \<and>
    lc_curTotalNum c' = lc_curTotalNum c - nd_freq c n \<and> lc_minFreq c' = lc_minFreq c \<and>
    lc_capacity c' = lc_capacity c \<and> lc_maxAverageNum c' = lc_maxAverageNum c \<and> nd_key c' = nd_key c"
proof -
  let ?m = "Min (nd_freq c ` set ns)"
  have ok: "lists_ok c ns" and mp: "map_ok c ns" and cnt: "counts_ok c ns" and cfg: "config_ok c"
    and m: "lc_minFreq c = ?m" using inv ne by (auto simp: lfu_ok_def min_ok_def)
  have n: "n \<in> set ns" "nd_freq c n = ?m" using victim_node [OF ne] mp by (auto simp: map_ok_def n_def)
  have d: "distinct ns" using ok by (simp add: lists_ok_def)
  obtain fl where fl: "(?m, fl) \<in> set (lc_freqToFreqList c)" using lists_member [OF ok n(1)] n(2) by metis
  have "linked (nd_next c) (nd_pre c) (fl_head fl # nodes_of c ?m ns @ [fl_tail fl])"
    using ok fl unfolding lists_ok_def flist_def by fastforce
  moreover have "nodes_of c ?m ns \<noteq> []" using n by (auto simp: nodes_of_def filter_empty_conv)
  ultimately have first: "getFirstNode fl c = Some n"
    using linked_nth_ends unfolding n_def getFirstNode_def by fastforce
  obtain c1 where c1: "removeFromFreqList n c = Inr c1" "lists_ok c1 (remove1 n ns)" "same_nodes c c1"
    "nd_freq c1 = nd_freq c"
    using removeFromFreqList_ok [OF ok n(1)] by blast
  define c2 where "c2 = c1\<lparr>lc_nodeMap := filter (\<lambda>p. fst p \<noteq> nd_key c n) (lc_nodeMap c)\<rparr>"
  have k: "kickOut c = Inr (decreaseFreqNum (nd_freq c n) c2)"
    using lists_lookup [OF ok fl] m first c1 by (simp add: kickOut_def c2_def same_nodes_def)
  have "nd_key c x \<noteq> nd_key c n" if "x \<in> set ns" "x \<noteq> n" for x
    using mp n(1) that by (auto simp: map_ok_def distinct_map inj_on_def)
  then have "set (filter (\<lambda>p. fst p \<noteq> nd_key c n) (lc_nodeMap c)) = (\<lambda>x. (nd_key c x, x)) ` set (remove1 n ns)"
    using mp by (auto simp: map_ok_def set_remove1_eq [OF d])
  moreover have "distinct (map (nd_key c) (remove1 n ns))"
    using mp d by (auto simp: map_ok_def distinct_map intro: inj_on_diff)
  ultimately have "map_ok c2 (remove1 n ns)"
    using mp c1(3) by (simp add: map_ok_def c2_def same_nodes_def distinct_map_filter)
  moreover have "(\<Sum>x \<in> set (remove1 n ns). nd_freq c x) = (\<Sum>x \<in> set ns. nd_freq c x) - nd_freq c n"
    using n(1) d by (simp add: set_remove1_eq sum_diff1)
  then have "counts_ok (decreaseFreqNum (nd_freq c n) c2) (remove1 n ns)"
    using cnt c1(3,4) n(1) d by (auto simp: counts_ok_def decreaseFreqNum_def Let_def c2_def same_nodes_def
        set_remove1_eq)
  ultimately show ?thesis
    using c1 cfg k
    by (auto simp: decreaseFreqNum_def Let_def c2_def same_nodes_def config_ok_def map_ok_def entries_def)
qed

lemma Node_new_ok:
  assumes "lists_ok c ns" and "Node_new k v c = (n, c')"
  shows "lists_ok c' ns \<and> n \<notin> set ns \<and> n \<notin> set (sentinels (lc_freqToFreqList c')) \<and> n < nd_alloc c'"
proof -
  have c': "n = nd_alloc c" "c' = c\<lparr>nd_alloc := n + 1, nd_freq := (nd_freq c)(n := 1), nd_key := (nd_key c)(n := k),
      nd_value := (nd_value c)(n := v), nd_pre := (nd_pre c)(n := None), nd_next := (nd_next c)(n := None)\<rparr>"
    using assms(2) by (auto simp: Node_new_def Let_def)
  have lt: "x < n" if "x \<in> set (sentinels (lc_freqToFreqList c) @ ns)" for x
    using assms(1) that c'(1) by (simp add: lists_ok_def)
  have nn: "n \<notin> set (sentinels (lc_freqToFreqList c))" "n \<notin> set ns" using lt [of n] by auto
  have no: "nodes_of c' f ns = nodes_of c f ns" for f
    using nn(2) unfolding nodes_of_def c'(2) by (intro filter_cong) auto
  have "linked (nd_next c') (nd_pre c') (flist c' f fl ns)" if fl: "(f, fl) \<in> set (lc_freqToFreqList c)" for f fl
  proof -
    have "n \<notin> set (flist c f fl ns)" using nn sentinels_member [OF fl] by (auto simp: flist_def nodes_of_def)
    then have "linked (nd_next c') (nd_pre c') (flist c f fl ns) = linked (nd_next c) (nd_pre c) (flist c f fl ns)"
      unfolding c'(2) by (intro linked_cong) (auto dest!: in_set_butlastD in_set_tlD)
    then show ?thesis using assms(1) fl unfolding lists_ok_def flist_def no by auto
  qed
  moreover have "nd_freq c' x = nd_freq c x" if "x \<in> set ns" for x using that nn(2) by (auto simp: c'(2))
  moreover have "lc_freqToFreqList c' = lc_freqToFreqList c" "nd_alloc c' = n + 1" by (simp_all add: c'(2))
  ultimately show ?thesis using assms(1) lt nn by (auto simp: lists_ok_def less_SucI)
qed

text \<open>Room for a new key: a full cache gives up its victim.\<close>

lemma make_room_ok:
  assumes inv: "lfu_ok c ns" and new: "\<forall>n \<in> set ns. nd_key c n \<noteq> k" and top: "lc_curTotalNum c < INT_MAX"
  shows "\<exists>c1 ns1. (if int (length (lc_nodeMap c)) = lc_capacity c then kickOut c else Inr c) = Inr c1 \<and>
    config_ok c1 \<and> lists_ok c1 ns1 \<and> map_ok c1 ns1 \<and> counts_ok c1 ns1 \<and> 1 \<le> lc_minFreq c1 \<and>
    lc_capacity c1 = lc_capacity c \<and> lc_maxAverageNum c1 = lc_maxAverageNum c \<and>
    int (length ns1) < lc_capacity c \<and> (\<forall>n \<in> set ns1. nd_key c1 n \<noteq> k) \<and> lc_curTotalNum c1 < INT_MAX \<and>
    (entries c1 ns1, lc_curTotalNum c1) = (if int (length (entries c ns)) = lc_capacity c
      then (remove1 (victim (entries c ns)) (entries c ns), lc_curTotalNum c - count_of (victim (entries c ns)))
      else (entries c ns, lc_curTotalNum c))"
    (is "\<exists>c1 ns1. ?P c1 ns1")
proof -
  have ok: "lists_ok c ns" and mp: "map_ok c ns" and cnt: "counts_ok c ns" and cfg: "config_ok c"
    and mn: "min_ok c ns" using inv by (auto simp: lfu_ok_def)
  have len: "length (lc_nodeMap c) = length ns" using map_ok_length [OF mp] ok by (simp add: lists_ok_def)
  show ?thesis
  proof (cases "int (length ns) = lc_capacity c")
    case True
    then have ne: "ns \<noteq> []" using cfg by (auto simp: config_ok_def)
    let ?n = "hd (nodes_of c (Min (nd_freq c ` set ns)) ns)"
    have vn: "?n \<in> set ns" "victim (entries c ns) = (nd_key c ?n, nd_value c ?n, nd_freq c ?n)"
      "remove1 (victim (entries c ns)) (entries c ns) = entries c (remove1 ?n ns)"
      using victim_node [OF ne] mp by (auto simp: map_ok_def)
    have "1 \<le> nd_freq c ?n" using cnt vn(1) by (simp add: counts_ok_def)
    moreover have "length (remove1 ?n ns) < length ns" using vn(1) ne by (simp add: length_remove1)
    moreover have "\<forall>n \<in> set (remove1 ?n ns). nd_key c n \<noteq> k" using new by (meson notin_set_remove1)
    ultimately obtain c1 where "?P c1 (remove1 ?n ns)"
      using kickOut_ok [OF inv ne] True len vn(2,3) top mn by (auto simp: entries_def count_of_def min_ok_def)
    then show ?thesis by blast
  next
    case False
    then have "?P c ns"
      using ok mp cnt cfg mn new top len inv by (auto simp: lfu_ok_def min_ok_def entries_def)
    then show ?thesis by blast
  qed
qed

lemma insert_map_ok:
  assumes mp: "map_ok c ns" and new: "\<forall>n \<in> set ns. nd_key c n \<noteq> k" and n: "n \<notin> set ns"
    and key: "\<And>x. x \<in> set (ns @ [n]) \<Longrightarrow> nd_key c4 x = (if x = n then k else nd_key c x)"
    and l: "lc_nodeMap c4 = filter (\<lambda>q. fst q \<noteq> k) (lc_nodeMap c) @ [(k, n)]"
  shows "map_ok c4 (ns @ [n])"
proof -
  have "filter (\<lambda>q. fst q \<noteq> k) (lc_nodeMap c) = lc_nodeMap c"
    using mp new by (auto simp: map_ok_def filter_id_conv)
  moreover have "map (nd_key c4) ns = map (nd_key c) ns" using key n by auto
  then have "distinct (map (nd_key c4) ns)" using mp by (metis map_ok_def)
  moreover have "k \<notin> nd_key c4 ` set ns" using new key n by auto
  moreover have "nd_key c4 n = k" "(\<lambda>x. (nd_key c4 x, x)) ` set ns = (\<lambda>x. (nd_key c x, x)) ` set ns"
    using key n by (auto intro!: image_cong)
  ultimately show ?thesis using mp new l by (auto simp: map_ok_def)
qed

lemma insert_ok:
  assumes it: "iteration_ok it" and cfg: "config_ok c" and ok: "lists_ok c ns" and mp: "map_ok c ns"
    and cnt: "counts_ok c ns" and mn: "1 \<le> lc_minFreq c" and room: "int (length ns) < lc_capacity c"
    and new: "\<forall>n \<in> set ns. nd_key c n \<noteq> k" and top: "lc_curTotalNum c < INT_MAX"
    and n: "Node_new k v c = (n, c2)"
    and c3: "c3 = c2\<lparr>lc_nodeMap := filter (\<lambda>q. fst q \<noteq> k) (lc_nodeMap c2) @ [(k, n)]\<rparr>"
  shows "\<exists>c4 c5 ns'. addToFreqList n c3 = Inr c4 \<and> addFreqNum it c4 = Inr c5 \<and>
    lfu_ok (c5\<lparr>lc_minFreq := min (lc_minFreq c5) 1\<rparr>) ns' \<and>
    spec_count (lc_maxAverageNum c) (entries c ns @ [(k, v, 1)], lc_curTotalNum c) (entries c5 ns', lc_curTotalNum c5) \<and>
    lc_capacity c5 = lc_capacity c \<and> lc_maxAverageNum c5 = lc_maxAverageNum c"
proof -
  have n2: "lists_ok c2 ns" "n \<notin> set ns" "n \<notin> set (sentinels (lc_freqToFreqList c2))" "n < nd_alloc c2"
    using Node_new_ok [OF ok n] by auto
  have c2: "n = nd_alloc c" "c2 = c\<lparr>nd_alloc := n + 1, nd_freq := (nd_freq c)(n := 1), nd_key := (nd_key c)(n := k),
      nd_value := (nd_value c)(n := v), nd_pre := (nd_pre c)(n := None), nd_next := (nd_next c)(n := None)\<rparr>"
    using n by (auto simp: Node_new_def Let_def)
  obtain c4 where c4: "addToFreqList n c3 = Inr c4" "lists_ok c4 (ns @ [n])" "same_nodes c3 c4"
    using addToFreqList_ok [of c3 ns n] n2 by (auto simp: c3)
  have lt: "x < n" if "x \<in> set ns" for x using ok that c2(1) by (simp add: lists_ok_def)
  have f4: "nd_freq c4 x = (if x = n then 1 else nd_freq c x)" "nd_key c4 x = (if x = n then k else nd_key c x)"
    "nd_value c4 x = (if x = n then v else nd_value c x)" if "x \<in> set (ns @ [n])" for x
    using c4(3) that lt [of x] by (auto simp: same_nodes_def c3 c2(2))
  have l4: "lc_nodeMap c4 = filter (\<lambda>q. fst q \<noteq> k) (lc_nodeMap c) @ [(k, n)]" "lc_curTotalNum c4 = lc_curTotalNum c"
    "lc_capacity c4 = lc_capacity c" "lc_maxAverageNum c4 = lc_maxAverageNum c" "lc_minFreq c4 = lc_minFreq c"
    using c4(3) by (auto simp: same_nodes_def c3 c2(2))
  have mp4: "map_ok c4 (ns @ [n])" by (rule insert_map_ok [OF mp new n2(2) f4(2) l4(1)])
  have "sum (nd_freq c4) (set ns) = sum (nd_freq c) (set ns)" using f4(1) n2(2) by (intro sum.cong) auto
  then have s4: "sum (nd_freq c4) (set (ns @ [n])) \<le> lc_curTotalNum c4 + 1"
    using cnt l4(2) f4(1) n2(2) by (simp add: counts_ok_def)
  have p4: "\<forall>x \<in> set (ns @ [n]). 1 \<le> nd_freq c4 x" using cnt f4(1) by (auto simp: counts_ok_def)
  have f1: "nd_freq c4 n \<le> lc_maxAverageNum c4 + 2" using f4(1) cfg l4(4) by (simp add: config_ok_def)
  have "config_ok c4" using cfg l4 by (simp add: config_ok_def)
  moreover have "lc_curTotalNum c4 < INT_MAX" "n \<in> set (ns @ [n])" using l4(2) top by simp_all
  ultimately obtain c5 ns' where r: "addFreqNum it c4 = Inr c5" "config_ok c5" "lists_ok c5 ns'" "map_ok c5 ns'"
    "counts_ok c5 ns'" "mset ns' = mset (ns @ [n])" "\<forall>x \<in> set (ns @ [n]). nd_freq c5 x \<le> nd_freq c4 x"
    "lc_minFreq c5 = Min (nd_freq c5 ` set ns') \<or> lc_minFreq c5 = lc_minFreq c4 \<and> nd_freq c5 = nd_freq c4"
    "spec_count (lc_maxAverageNum c4) (entries c4 (ns @ [n]), lc_curTotalNum c4) (entries c5 ns', lc_curTotalNum c5)"
    "lc_capacity c5 = lc_capacity c4" "lc_maxAverageNum c5 = lc_maxAverageNum c4"
    using addFreqNum_ok [unfolded counted_def, OF it _ c4(2) mp4 p4 s4 _ _ f1] by blast
  have s': "set ns' = set (ns @ [n])" "length ns' = length ns + 1"
    using mset_eq_setD [OF r(6)] mset_eq_length [OF r(6)] by simp_all
  have pos: "1 \<le> nd_freq c5 x" if "x \<in> set ns'" for x using r(5) that by (simp add: counts_ok_def)
  then have "nd_freq c5 n = 1" using r(7) f4(1) s'(1) by force
  then have m1: "Min (nd_freq c5 ` set ns') = 1" using pos s'(1) by (intro Min_eqI) (auto intro: rev_image_eqI)
  then have "1 \<le> lc_minFreq c5" using r(8) mn l4(5) by auto
  then have "lfu_ok (c5\<lparr>lc_minFreq := min (lc_minFreq c5) 1\<rparr>) ns'"
    using r(2-5,10) m1 room l4(3,4) s'(2) cfg
    by (simp add: lfu_ok_def min_ok_def counts_ok_def map_ok_def config_ok_def)
  moreover have "entries c4 (ns @ [n]) = entries c ns @ [(k, v, 1)]"
    using f4 n2(2) by (auto simp: entries_def)
  ultimately show ?thesis using c4(1) r(1,9-11) l4 by auto
qed

lemma putInternal_ok:
  assumes it: "iteration_ok it" and inv: "lfu_ok c ns" and new: "\<forall>n \<in> set ns. nd_key c n \<noteq> k"
    and top: "lc_curTotalNum c < INT_MAX"
  shows "\<exists>c' ns'. putInternal it k v c = Inr c' \<and> lfu_ok c' ns' \<and>
    spec_put (lc_maxAverageNum c) (lc_capacity c) k v (entries c ns, lc_curTotalNum c) (entries c' ns', lc_curTotalNum c') \<and>
    lc_capacity c' = lc_capacity c \<and> lc_maxAverageNum c' = lc_maxAverageNum c"
proof -
  obtain c1 ns1 where p: "(if int (length (lc_nodeMap c)) = lc_capacity c then kickOut c else Inr c) = Inr c1"
    "config_ok c1" "lists_ok c1 ns1" "map_ok c1 ns1" "counts_ok c1 ns1" "1 \<le> lc_minFreq c1"
    "lc_capacity c1 = lc_capacity c" "lc_maxAverageNum c1 = lc_maxAverageNum c"
    "int (length ns1) < lc_capacity c" "\<forall>n \<in> set ns1. nd_key c1 n \<noteq> k" "lc_curTotalNum c1 < INT_MAX"
    "(entries c1 ns1, lc_curTotalNum c1) = (if int (length (entries c ns)) = lc_capacity c
      then (remove1 (victim (entries c ns)) (entries c ns), lc_curTotalNum c - count_of (victim (entries c ns)))
      else (entries c ns, lc_curTotalNum c))"
    using make_room_ok [OF inv new top] by blast
  obtain n c2 where n: "Node_new k v c1 = (n, c2)" by (cases "Node_new k v c1")
  obtain c4 c5 ns' where r: "addToFreqList n (c2\<lparr>lc_nodeMap := filter (\<lambda>q. fst q \<noteq> k) (lc_nodeMap c2) @ [(k, n)]\<rparr>) = Inr c4"
    "addFreqNum it c4 = Inr c5" "lfu_ok (c5\<lparr>lc_minFreq := min (lc_minFreq c5) 1\<rparr>) ns'"
    "spec_count (lc_maxAverageNum c1) (entries c1 ns1 @ [(k, v, 1)], lc_curTotalNum c1) (entries c5 ns', lc_curTotalNum c5)"
    "lc_capacity c5 = lc_capacity c1" "lc_maxAverageNum c5 = lc_maxAverageNum c1"
    using insert_ok [OF it p(2-6) _ p(10,11) n refl] p(7,9) by auto
  let ?c = "c5\<lparr>lc_minFreq := min (lc_minFreq c5) 1\<rparr>"
  have "putInternal it k v c = Inr ?c" using p(1) n r(1,2) by (simp add: putInternal_def)
  moreover have "entries ?c ns' = entries c5 ns'" by (simp add: entries_def)
  moreover have "spec_put (lc_maxAverageNum c) (lc_capacity c) k v (entries c ns, lc_curTotalNum c)
      (entries c5 ns', lc_curTotalNum c5)"
    using r(4) p(8) p(12) [symmetric] spec_find_absent [OF new] by (simp add: spec_put_def Let_def split: if_splits)
  ultimately show ?thesis using r(3,5,6) p(7,8) by (intro exI [of _ ?c] exI [of _ ns']) simp
qed

section \<open>Refinement\<close>

text \<open>The values of a cache by key, without touching the counts.\<close>

definition lookup :: "('k, 'v) lfu_cache \<Rightarrow> 'k \<Rightarrow> 'v option" where
  "lookup c k = map_option (nd_value c) (map_of (lc_nodeMap c) k)"

lemma lfu_absent:
  assumes "lfu_ok c ns" and "map_of (lc_nodeMap c) k = None"
  shows "(\<forall>n \<in> set ns. nd_key c n \<noteq> k) \<and> spec_find k (entries c ns) = None"
proof -
  have "map_ok c ns" using assms(1) by (simp add: lfu_ok_def)
  then have "\<forall>n \<in> set ns. nd_key c n \<noteq> k" using map_ok_absent [of c ns k] assms(2) by simp
  then show ?thesis using spec_find_absent [of ns c k] by simp
qed

lemma lfu_present:
  assumes "lfu_ok c ns" and "map_of (lc_nodeMap c) k = Some n"
  shows "n \<in> set ns \<and> nd_key c n = k \<and> spec_find k (entries c ns) = Some (nd_value c n, nd_freq c n)"
proof -
  have mp: "map_ok c ns" using assms(1) by (simp add: lfu_ok_def)
  then have n: "n \<in> set ns" "nd_key c n = k" using map_ok_lookup [of c ns k n] assms(2) by simp_all
  then show ?thesis using spec_find_entries [of c ns n] mp by (simp add: map_ok_def)
qed

lemma lookup_entries:
  assumes "lfu_ok c ns"
  shows "lookup c k = map_option fst (spec_find k (entries c ns))"
  using lfu_absent [OF assms] lfu_present [OF assms]
  by (cases "map_of (lc_nodeMap c) k") (auto simp: lookup_def)

lemma lfu_get_ok:
  assumes it: "iteration_ok it" and inv: "lfu_ok c ns" and top: "lc_curTotalNum c < INT_MAX"
  shows "\<exists>r c' ns'. lfu_get it k c = Inr (r, c') \<and> lfu_ok c' ns' \<and>
    spec_get (lc_maxAverageNum c) k r (entries c ns, lc_curTotalNum c) (entries c' ns', lc_curTotalNum c') \<and>
    lc_capacity c' = lc_capacity c \<and> lc_maxAverageNum c' = lc_maxAverageNum c"
proof (cases "map_of (lc_nodeMap c) k")
  case None
  then have "spec_find k (entries c ns) = None" using lfu_absent [OF inv] by blast
  then show ?thesis
    using None inv by (intro exI [of _ None] exI [of _ c] exI [of _ ns]) (simp add: lfu_get_def spec_get_def)
next
  case (Some n)
  then have n: "n \<in> set ns" "nd_key c n = k" and f: "spec_find k (entries c ns) = Some (nd_value c n, nd_freq c n)"
    using lfu_present [OF inv] by blast+
  obtain c' ns' where "getInternal it n c = Inr (nd_value c n, c')" "lfu_ok c' ns'"
    "spec_count (lc_maxAverageNum c)
      (filter (\<lambda>e. fst e \<noteq> k) (entries c ns) @ [(k, nd_value c n, nd_freq c n + 1)], lc_curTotalNum c)
      (entries c' ns', lc_curTotalNum c')"
    "lc_capacity c' = lc_capacity c" "lc_maxAverageNum c' = lc_maxAverageNum c"
    using getInternal_ok [OF it inv n(1) top] n(2) by auto
  then show ?thesis
    using Some f by (intro exI [of _ "Some (nd_value c n)"] exI [of _ c'] exI [of _ ns'])
      (simp add: lfu_get_def spec_get_def)
qed

lemma lfu_put_ok:
  assumes it: "iteration_ok it" and inv: "lfu_ok c ns" and top: "lc_curTotalNum c < INT_MAX"
  shows "\<exists>c' ns'. lfu_put it k v c = Inr c' \<and> lfu_ok c' ns' \<and>
    spec_put (lc_maxAverageNum c) (lc_capacity c) k v (entries c ns, lc_curTotalNum c) (entries c' ns', lc_curTotalNum c') \<and>
    lc_capacity c' = lc_capacity c \<and> lc_maxAverageNum c' = lc_maxAverageNum c"
proof (cases "map_of (lc_nodeMap c) k")
  case None
  then have "\<forall>n \<in> set ns. nd_key c n \<noteq> k" using lfu_absent [OF inv] by blast
  moreover have "lc_capacity c \<noteq> 0" using inv by (simp add: lfu_ok_def config_ok_def)
  ultimately show ?thesis using putInternal_ok [OF it inv _ top] None by (simp add: lfu_put_def)
next
  case (Some n)
  then have n: "n \<in> set ns" "nd_key c n = k" and f: "spec_find k (entries c ns) = Some (nd_value c n, nd_freq c n)"
    using lfu_present [OF inv] by blast+
  let ?c = "c\<lparr>nd_value := (nd_value c)(n := v)\<rparr>"
  have "lfu_ok ?c ns"
    using inv by (auto simp: lfu_ok_def config_ok_def map_ok_def counts_ok_def min_ok_def)
  from getInternal_ok [OF it this n(1)] top n(2) obtain c' ns' where r: "getInternal it n ?c = Inr (v, c')" "lfu_ok c' ns'"
    "spec_count (lc_maxAverageNum c)
      (filter (\<lambda>e. fst e \<noteq> k) (entries ?c ns) @ [(k, v, nd_freq c n + 1)], lc_curTotalNum c)
      (entries c' ns', lc_curTotalNum c')"
    "lc_capacity c' = lc_capacity c" "lc_maxAverageNum c' = lc_maxAverageNum c"
    by auto
  have "nd_key c x \<noteq> k" if "x \<in> set ns" "x \<noteq> n" for x
    using inv n that by (auto simp: lfu_ok_def map_ok_def distinct_map inj_on_def)
  then have "filter (\<lambda>e. fst e \<noteq> k) (entries ?c ns) = filter (\<lambda>e. fst e \<noteq> k) (entries c ns)"
    using n(2) by (auto simp: entries_def filter_map o_def)
  moreover have "lc_capacity c \<noteq> 0" using inv by (simp add: lfu_ok_def config_ok_def)
  ultimately show ?thesis
    using r Some f by (intro exI [of _ c'] exI [of _ ns']) (simp add: lfu_put_def spec_put_def)
qed

text \<open>Counting an access changes no value.\<close>

lemma spec_count_find:
  assumes d: "distinct (map fst es)" and c: "spec_count a (es, t) (es', t')"
  shows "map_option fst (spec_find k es') = map_option fst (spec_find k es) \<and> length es' = length es"
proof (cases "t' div int (length es) > a")
  case False
  then have "es' = es" using c by (simp add: spec_count_def split: if_splits)
  then show ?thesis by simp
next
  case over: True
  then have True: "mset es' = mset (map (spec_aged a) es)" using c by (simp add: spec_count_def split: if_splits)
  have k: "map fst (map (spec_aged a) es) = map fst es" by (simp add: spec_aged_def)
  have "mset (map fst es') = mset (map fst es)" using True k by (metis mset_map)
  then have d': "distinct (map fst es')" using d mset_eq_imp_distinct_iff by blast
  show ?thesis
  proof (cases "map_of es k")
    case None
    moreover have "fst ` set es' = fst ` set es"
      using mset_eq_setD [OF \<open>mset (map fst es') = mset (map fst es)\<close>] by simp
    ultimately have "map_of es' k = None" by (simp add: map_of_eq_None_iff)
    then show ?thesis using None mset_eq_length [OF True] by (simp add: spec_find_def)
  next
    case (Some y)
    then have "(k, y) \<in> set es" by (rule map_of_SomeD)
    then have "spec_aged a (k, y) \<in> set es'" using True by (metis image_eqI list.set_map mset_eq_setD)
    then have "map_of es' k = Some (fst y, max 1 (snd y - a div 2))"
      using d' by (auto simp: spec_aged_def count_of_def intro: map_of_is_SomeI)
    then show ?thesis using Some mset_eq_length [OF True] by (simp add: spec_find_def)
  qed
qed

section \<open>The interface of a cache\<close>

text \<open>
  What \<open>CachePolicy\<close> promises. \<open>look\<close> is the content, \<open>ready\<close> says that the access
  counter that serves a key has not reached its end. A \<open>put\<close> stores its value and may
  drop other entries, a \<open>get\<close> returns the content and changes nothing of it.
\<close>

locale cache_policy =
  fixes ok :: "'s \<Rightarrow> bool"
    and ready :: "'k \<Rightarrow> 's \<Rightarrow> bool"
    and store :: "'k \<Rightarrow> 'v \<Rightarrow> 's \<Rightarrow> 's res"
    and fetch :: "'k \<Rightarrow> 's \<Rightarrow> ('v option \<times> 's) res"
    and look :: "'s \<Rightarrow> 'k \<Rightarrow> 'v option"
  assumes store_ok: "ok s \<Longrightarrow> ready k s \<Longrightarrow>
      \<exists>s'. store k v s = Inr s' \<and> ok s' \<and> look s' k = Some v \<and>
        (\<forall>j. j \<noteq> k \<longrightarrow> look s' j = None \<or> look s' j = look s j)"
    and fetch_ok: "ok s \<Longrightarrow> ready k s \<Longrightarrow>
      \<exists>s'. fetch k s = Inr (look s k, s') \<and> ok s' \<and> look s' = look s"
begin

lemma store_fetch:
  assumes "ok s" and "ready k s" and "store k v s = Inr s'" and "ready k s'"
  shows "\<exists>t. fetch k s' = Inr (Some v, t) \<and> look t = look s'"
proof -
  have "ok s'" "look s' k = Some v" using store_ok [OF assms(1,2), of v] assms(3) by auto
  then show ?thesis using fetch_ok [OF _ assms(4)] by auto
qed

text \<open>No call invents a value: what is found after a \<open>put\<close> was put or was there before.\<close>

lemma store_sound:
  assumes "ok s" and "ready k s" and "store k v s = Inr s'" and "look s' j = Some w"
  shows "j = k \<and> w = v \<or> look s j = Some w"
proof -
  have "look s' k = Some v" "j \<noteq> k \<longrightarrow> look s' j = None \<or> look s' j = look s j"
    using store_ok [OF assms(1,2), of v] assms(3) by auto
  then show ?thesis using assms(4) by (cases "j = k") auto
qed

end

definition lfu_inv :: "('k, 'v) lfu_cache \<Rightarrow> bool" where
  "lfu_inv c \<longleftrightarrow> (\<exists>ns. lfu_ok c ns)"

definition counting :: "('k, 'v) lfu_cache \<Rightarrow> bool" where
  "counting c \<longleftrightarrow> lc_curTotalNum c < INT_MAX"

lemma entries_keys: "lfu_ok c ns \<Longrightarrow> distinct (map fst (entries c ns))"
  by (simp add: lfu_ok_def map_ok_def entries_def o_def)

lemma spec_find_touch:
  "map_option fst (spec_find j (filter (\<lambda>e. fst e \<noteq> k) es @ [(k, v, f)])) =
     (if j = k then Some v else map_option fst (spec_find j es))"
proof -
  have "map_of (filter (\<lambda>e. fst e \<noteq> k) es) j = (if j = k then None else map_of es j)"
    by (induction es) auto
  then show ?thesis by (auto simp: spec_find_def map_add_def split: option.splits)
qed

lemma distinct_touch:
  "distinct (map fst es) \<Longrightarrow> distinct (map fst (filter (\<lambda>e. fst e \<noteq> k) es @ [(k, v, f)]))"
  by (auto simp: distinct_map_filter)

lemma spec_get_look:
  assumes d: "distinct (map fst es)" and g: "spec_get a k r (es, t) (es', t')"
  shows "r = map_option fst (spec_find k es) \<and> map_option fst (spec_find j es') = map_option fst (spec_find j es)"
proof (cases "spec_find k es")
  case None
  then show ?thesis using g by (simp add: spec_get_def)
next
  case (Some y)
  obtain v f where y: "y = (v, f)" by (cases y)
  have "spec_count a (filter (\<lambda>e. fst e \<noteq> k) es @ [(k, v, f + 1)], t) (es', t')" "r = Some v"
    using g Some y by (auto simp: spec_get_def)
  then show ?thesis
    using spec_count_find [OF distinct_touch [OF d]] spec_find_touch [of j k es v "f + 1"] Some y by auto
qed

text \<open>The content after a \<open>put\<close>.\<close>

lemma map_of_remove1:
  assumes "distinct (map fst es)" and "e \<in> set es"
  shows "map_of (remove1 e es) j = (if j = fst e then None else map_of es j)"
  using assms
proof (induction es)
  case (Cons x es)
  then show ?case by (cases x) (auto simp: map_of_eq_None_iff, (metis fst_conv image_eqI)+)
qed simp

lemma victim_in: "es \<noteq> [] \<Longrightarrow> victim es \<in> set es \<and> (\<forall>e \<in> set es. count_of (victim es) \<le> count_of e)"
proof -
  assume ne: "es \<noteq> []"
  let ?m = "Min (count_of ` set es)"
  have "?m \<in> count_of ` set es" using ne by simp
  then have "filter (\<lambda>e. count_of e = ?m) es \<noteq> []" by (auto simp: filter_empty_conv)
  then have "victim es \<in> set (filter (\<lambda>e. count_of e = ?m) es)" unfolding victim_def by (rule hd_in_set)
  then show ?thesis by auto
qed

lemma spec_find_snoc:
  "k \<notin> fst ` set es \<Longrightarrow> spec_find j (es @ [(k, y)]) = (if j = k then Some y else spec_find j es)"
  by (induction es) (auto simp: spec_find_def)

lemma spec_put_look:
  assumes d: "distinct (map fst es)" and new: "spec_find k es = None" and p: "spec_put a cap k v (es, t) (es', t')"
    and cap: "0 < cap"
  shows "map_option fst (spec_find j es') =
    (if j = k then Some v else if int (length es) = cap \<and> j = fst (victim es) then None
     else map_option fst (spec_find j es))"
proof -
  let ?es = "if int (length es) = cap then remove1 (victim es) es else es"
  obtain t1 where c: "spec_count a (?es @ [(k, v, 1)], t1) (es', t')"
    using p new by (auto simp: spec_put_def Let_def split: if_splits)
  have vi: "victim es \<in> set es" if "int (length es) = cap" using victim_in [of es] that cap by auto
  have sub: "set ?es \<subseteq> set es" by (simp add: set_remove1_subset)
  have "k \<notin> fst ` set es" using new by (simp add: spec_find_def map_of_eq_None_iff)
  then have k: "k \<notin> fst ` set ?es" using sub by blast
  have "distinct (map fst ?es)" using d by (auto simp: distinct_map intro: inj_on_diff)
  then have "map_option fst (spec_find j es') = map_option fst (spec_find j (?es @ [(k, v, 1)]))"
    using spec_count_find [OF _ c] k by simp
  moreover have "spec_find j (?es @ [(k, v, 1)]) = (if j = k then Some (v, 1) else spec_find j ?es)"
    using spec_find_snoc [OF k] .
  moreover have "spec_find j ?es = (if int (length es) = cap \<and> j = fst (victim es) then None else spec_find j es)"
    using map_of_remove1 [OF d] vi by (simp add: spec_find_def)
  ultimately show ?thesis by simp
qed

text \<open>The cache implements the interface.\<close>

lemma lfu_store_ok:
  assumes it: "iteration_ok it" and inv: "lfu_inv c" and top: "counting c"
  shows "\<exists>c'. lfu_put it k v c = Inr c' \<and> lfu_inv c' \<and> lookup c' k = Some v \<and>
    (\<forall>j. j \<noteq> k \<longrightarrow> lookup c' j = None \<or> lookup c' j = lookup c j)"
proof -
  obtain ns where ok: "lfu_ok c ns" using inv by (auto simp: lfu_inv_def)
  have cap: "0 < lc_capacity c" using ok by (simp add: lfu_ok_def config_ok_def)
  obtain c' ns' where r: "lfu_put it k v c = Inr c'" "lfu_ok c' ns'"
    "spec_put (lc_maxAverageNum c) (lc_capacity c) k v (entries c ns, lc_curTotalNum c) (entries c' ns', lc_curTotalNum c')"
    using lfu_put_ok [OF it ok] top unfolding counting_def by blast
  note d = entries_keys [OF ok]
  have "lookup c' k = Some v \<and> (j \<noteq> k \<longrightarrow> lookup c' j = None \<or> lookup c' j = lookup c j)" for j
  proof (cases "spec_find k (entries c ns)")
    case None
    then show ?thesis
      using spec_put_look [OF d None r(3) cap] lookup_entries [OF ok] lookup_entries [OF r(2)] by auto
  next
    case (Some y)
    obtain x f where y: "y = (x, f)" by (cases y)
    have "spec_count (lc_maxAverageNum c) (filter (\<lambda>e. fst e \<noteq> k) (entries c ns) @ [(k, v, f + 1)], lc_curTotalNum c)
        (entries c' ns', lc_curTotalNum c')"
      using r(3) Some y by (simp add: spec_put_def)
    then have "map_option fst (spec_find i (entries c' ns')) =
        (if i = k then Some v else map_option fst (spec_find i (entries c ns)))" for i
      using spec_count_find [OF distinct_touch [OF d]] spec_find_touch [of i k "entries c ns" v "f + 1"] by auto
    then show ?thesis using lookup_entries [OF ok] lookup_entries [OF r(2)] by auto
  qed
  then show ?thesis using r(1,2) by (auto simp: lfu_inv_def)
qed

lemma lfu_fetch_ok:
  assumes it: "iteration_ok it" and inv: "lfu_inv c" and top: "counting c"
  shows "\<exists>c'. lfu_get it k c = Inr (lookup c k, c') \<and> lfu_inv c' \<and> lookup c' = lookup c"
proof -
  obtain ns where ok: "lfu_ok c ns" using inv by (auto simp: lfu_inv_def)
  obtain r c' ns' where r: "lfu_get it k c = Inr (r, c')" "lfu_ok c' ns'"
    "spec_get (lc_maxAverageNum c) k r (entries c ns, lc_curTotalNum c) (entries c' ns', lc_curTotalNum c')"
    using lfu_get_ok [OF it ok] top unfolding counting_def by blast
  have "r = lookup c k" "lookup c' j = lookup c j" for j
    using spec_get_look [OF entries_keys [OF ok] r(3)] lookup_entries [OF ok] lookup_entries [OF r(2)] by auto
  then show ?thesis using r(1,2) by (auto simp: lfu_inv_def)
qed

interpretation lfu: cache_policy "\<lambda>c. iteration_ok it \<and> lfu_inv c" "\<lambda>k. counting" "lfu_put it" "lfu_get it" lookup
  for it
proof
  show "\<exists>s'. lfu_put it k v s = Inr s' \<and> (iteration_ok it \<and> lfu_inv s') \<and> lookup s' k = Some v \<and>
      (\<forall>j. j \<noteq> k \<longrightarrow> lookup s' j = None \<or> lookup s' j = lookup s j)"
    if "iteration_ok it \<and> lfu_inv s" "counting s" for s k v
    using lfu_store_ok [of it s k v] that by blast
  show "\<exists>s'. lfu_get it k s = Inr (lookup s k, s') \<and> (iteration_ok it \<and> lfu_inv s') \<and> lookup s' = lookup s"
    if "iteration_ok it \<and> lfu_inv s" "counting s" for s k
    using lfu_fetch_ok [of it s k] that by blast
qed

text \<open>The sharded cache implements it too.\<close>

definition hash_ok :: "('k, 'v) hash_lfu \<Rightarrow> bool" where
  "hash_ok h \<longleftrightarrow> 0 < hl_sliceNum h \<and> length (hl_slices h) = nat (hl_sliceNum h) \<and> list_all lfu_inv (hl_slices h)"

definition hash_lookup :: "('k \<Rightarrow> nat) \<Rightarrow> ('k, 'v) hash_lfu \<Rightarrow> 'k \<Rightarrow> 'v option" where
  "hash_lookup hash h k = lookup (hl_slices h ! sliceIndex hash k h) k"

definition hash_counting :: "('k \<Rightarrow> nat) \<Rightarrow> 'k \<Rightarrow> ('k, 'v) hash_lfu \<Rightarrow> bool" where
  "hash_counting hash k h \<longleftrightarrow> counting (hl_slices h ! sliceIndex hash k h)"

lemma sliceIndex_less: "hash_ok h \<Longrightarrow> sliceIndex hash k h < length (hl_slices h)"
  by (simp add: hash_ok_def sliceIndex_def)

lemma hash_update_ok:
  assumes "hash_ok h" and "lfu_inv c" and "i < length (hl_slices h)"
  shows "hash_ok (h\<lparr>hl_slices := (hl_slices h)[i := c]\<rparr>) \<and>
    hash_lookup hash (h\<lparr>hl_slices := (hl_slices h)[i := c]\<rparr>) j =
      (if sliceIndex hash j h = i then lookup c j else hash_lookup hash h j)"
proof -
  have "sliceIndex hash j h < length (hl_slices h)" using sliceIndex_less [OF assms(1)] .
  then show ?thesis
    using assms by (auto simp: hash_ok_def hash_lookup_def sliceIndex_def list_all_length nth_list_update)
qed

interpretation hl: cache_policy "\<lambda>h. iteration_ok it \<and> hash_ok h" "hash_counting hash" "hash_put it hash"
  "hash_get it hash" "hash_lookup hash"
  for it hash
proof
  fix s k v assume "iteration_ok it \<and> hash_ok s" and rd: "hash_counting hash k s"
  then have it: "iteration_ok it" and ok: "hash_ok s" by auto
  let ?i = "sliceIndex hash k s"
  have i: "?i < length (hl_slices s)" using sliceIndex_less [OF ok] .
  then have inv: "iteration_ok it \<and> lfu_inv (hl_slices s ! ?i)" using ok it by (simp add: hash_ok_def list_all_length)
  have top: "counting (hl_slices s ! ?i)" using rd by (simp add: hash_counting_def)
  obtain c where c: "lfu_put it k v (hl_slices s ! ?i) = Inr c" "lfu_inv c" "lookup c k = Some v"
    "\<And>j. j \<noteq> k \<Longrightarrow> lookup c j = None \<or> lookup c j = lookup (hl_slices s ! ?i) j"
    using lfu.store_ok [OF inv top, of k v] by auto
  have "hash_put it hash k v s = Inr (s\<lparr>hl_slices := (hl_slices s)[?i := c]\<rparr>)"
    using c(1) i by (simp add: hash_put_def)
  then show "\<exists>s'. hash_put it hash k v s = Inr s' \<and> (iteration_ok it \<and> hash_ok s') \<and>
      hash_lookup hash s' k = Some v \<and>
      (\<forall>j. j \<noteq> k \<longrightarrow> hash_lookup hash s' j = None \<or> hash_lookup hash s' j = hash_lookup hash s j)"
    using hash_update_ok [OF ok c(2) i] it c(3,4) by (auto simp: hash_lookup_def)
next
  fix s k assume "iteration_ok it \<and> hash_ok s" and rd: "hash_counting hash k s"
  then have it: "iteration_ok it" and ok: "hash_ok s" by auto
  let ?i = "sliceIndex hash k s"
  have i: "?i < length (hl_slices s)" using sliceIndex_less [OF ok] .
  then have inv: "iteration_ok it \<and> lfu_inv (hl_slices s ! ?i)" using ok it by (simp add: hash_ok_def list_all_length)
  have top: "counting (hl_slices s ! ?i)" using rd by (simp add: hash_counting_def)
  obtain c where c: "lfu_get it k (hl_slices s ! ?i) = Inr (lookup (hl_slices s ! ?i) k, c)" "lfu_inv c"
    "lookup c = lookup (hl_slices s ! ?i)"
    using lfu.fetch_ok [OF inv top, of k] by auto
  have "hash_get it hash k s = Inr (hash_lookup hash s k, s\<lparr>hl_slices := (hl_slices s)[?i := c]\<rparr>)"
    using c(1) i by (simp add: hash_get_def hash_lookup_def Let_def)
  moreover have "hash_lookup hash (s\<lparr>hl_slices := (hl_slices s)[?i := c]\<rparr>) = hash_lookup hash s"
    using hash_update_ok [OF ok c(2) i] c(3) by (auto simp: fun_eq_iff hash_lookup_def)
  ultimately show "\<exists>s'. hash_get it hash k s = Inr (hash_lookup hash s k, s') \<and> (iteration_ok it \<and> hash_ok s') \<and>
      hash_lookup hash s' = hash_lookup hash s"
    using hash_update_ok [OF ok c(2) i] it by auto
qed

text \<open>
  When every count has reached \<open>INT8_MAX\<close>, \<open>updateMinFreq\<close> takes 1 for the least one.
\<close>

lemma updateMinFreq_at_INT8_MAX:
  assumes ok: "lists_ok c ns" and "\<forall>n \<in> set ns. INT8_MAX \<le> nd_freq c n"
  shows "lc_minFreq (updateMinFreq c) = 1"
proof -
  let ?r = "min_freq_loop c (lc_freqToFreqList c) INT8_MAX"
  note least = min_freq_loop_least [of c "lc_freqToFreqList c" INT8_MAX]
  have "INT8_MAX \<le> f" if fl: "(f, fl) \<in> set (lc_freqToFreqList c)" "\<not> isEmpty fl c" for f fl
    using isEmpty_iff [OF ok fl(1)] fl(2) assms(2) by (auto simp: nodes_of_def filter_empty_conv)
  then have "?r = INT8_MAX" using least by fastforce
  then show ?thesis by (simp add: updateMinFreq_def Let_def)
qed

section \<open>Runs\<close>

text \<open>
  Any number of threads call the cache, under its mutex; the runs end when the counter of
  the accesses has reached its end.
\<close>

inductive lfu_step :: "'k iteration \<Rightarrow> ('k, 'v) lfu_cache \<Rightarrow> ('k, 'v) lfu_cache \<Rightarrow> bool" for it where
  step_put: "counting c \<Longrightarrow> lfu_put it k v c = Inr c' \<Longrightarrow> lfu_step it c c'"
| step_get: "counting c \<Longrightarrow> lfu_get it k c = Inr (r, c') \<Longrightarrow> lfu_step it c c'"
| step_purge: "lfu_step it c (purge c)"

definition lfu_start :: "('k, 'v) lfu_cache \<Rightarrow> bool" where
  "lfu_start c \<longleftrightarrow> (\<exists>capacity maxAverageNum heap. 0 < capacity \<and> 2 \<le> maxAverageNum \<and> maxAverageNum \<le> 248 \<and>
     c = LfuCache_new capacity maxAverageNum heap)"

lemma lfu_new_ok:
  "0 < capacity \<Longrightarrow> 2 \<le> maxAverageNum \<Longrightarrow> maxAverageNum \<le> 248 \<Longrightarrow>
     lfu_ok (LfuCache_new capacity maxAverageNum heap) []"
  by (simp add: LfuCache_new_def lfu_ok_def config_ok_def lists_ok_def map_ok_def counts_ok_def min_ok_def
      sentinels_def INT_MAX_def INT8_MAX_def)

lemma purge_ok: "lfu_ok c ns \<Longrightarrow> lfu_ok (purge c) []"
proof -
  assume ok: "lfu_ok c ns"
  have "0 \<le> (\<Sum>n \<in> set ns. nd_freq c n)"
    using ok by (intro sum_nonneg) (force simp: lfu_ok_def counts_ok_def)
  then have "0 \<le> lc_curTotalNum c" using ok by (simp add: lfu_ok_def counts_ok_def)
  then show ?thesis
    using ok by (simp add: purge_def lfu_ok_def config_ok_def lists_ok_def map_ok_def counts_ok_def min_ok_def
        sentinels_def)
qed

interpretation lfu_run: inductive_invariant lfu_start "\<lambda>c c'. iteration_ok it \<and> lfu_step it c c'" lfu_inv for it
proof
  show "lfu_inv c" if "lfu_start c" for c :: "('a, 'b) lfu_cache"
    using that lfu_new_ok by (fastforce simp: lfu_start_def lfu_inv_def)
  show "lfu_inv c'" if inv: "lfu_inv c" and st: "iteration_ok it \<and> lfu_step it c c'" for c c' :: "('a, 'b) lfu_cache"
    using conjunct2 [OF st]
  proof cases
    case (step_put k v)
    then show ?thesis using lfu_store_ok [of it c k v] inv st by auto
  next
    case (step_get k r)
    then show ?thesis using lfu_fetch_ok [of it c k] inv st by auto
  next
    case step_purge
    then show ?thesis using inv purge_ok by (auto simp: lfu_inv_def)
  qed
qed

text \<open>
  The sharded cache: a constructor call with a capacity that fits an \<open>int\<close> and a positive
  number of slices, then calls.
\<close>

definition hash_start :: "('k, 'v) hash_lfu \<Rightarrow> bool" where
  "hash_start h \<longleftrightarrow> (\<exists>hw capacity sliceNum maxAverageNum heap. 0 < capacity \<and> capacity < 2 ^ 31 \<and>
     2 \<le> maxAverageNum \<and> maxAverageNum \<le> 248 \<and>
     HashLfuCache_new hw capacity sliceNum maxAverageNum heap = Inr h)"

inductive hash_step :: "'k iteration \<Rightarrow> ('k \<Rightarrow> nat) \<Rightarrow> ('k, 'v) hash_lfu \<Rightarrow> ('k, 'v) hash_lfu \<Rightarrow> bool"
  for it hash where
  hash_step_put: "hash_counting hash k h \<Longrightarrow> hash_put it hash k v h = Inr h' \<Longrightarrow> hash_step it hash h h'"
| hash_step_get: "hash_counting hash k h \<Longrightarrow> hash_get it hash k h = Inr (r, h') \<Longrightarrow> hash_step it hash h h'"
| hash_step_purge: "hash_step it hash h (hash_purge h)"

lemma slice_size:
  assumes "0 < n" and "0 < capacity" and "capacity < 2 ^ 31"
  shows "0 < as_int ((capacity + n - 1) div n)"
proof -
  have "n div n \<le> (capacity + n - 1) div n" using assms by (intro zdiv_mono1) auto
  moreover have "(capacity + n - 1) div n \<le> capacity"
  proof -
    have "(capacity - 1) div n \<le> (capacity - 1)" using zdiv_mono2 [of "capacity - 1" 1 n] assms by simp
    moreover have "(capacity + n - 1) div n = (capacity - 1) div n + 1"
      using div_add_self2 [of n "capacity - 1"] assms(1) by (simp add: algebra_simps)
    ultimately show ?thesis by simp
  qed
  ultimately show ?thesis using assms by (simp add: as_int_def)
qed

lemma hash_new_ok: "hash_start h \<Longrightarrow> hash_ok h"
proof -
  assume "hash_start h"
  then obtain hw capacity sliceNum a heap where h: "0 < capacity" "capacity < 2 ^ 31" "2 \<le> a" "a \<le> 248"
    "HashLfuCache_new hw capacity sliceNum a heap = Inr h"
    by (auto simp: hash_start_def)
  define n where "n = (if sliceNum > 0 then sliceNum else int hw)"
  have n: "0 < n" using h(5) by (auto simp: n_def HashLfuCache_new_def Let_def split: if_splits)
  have "lfu_inv (LfuCache_new (as_int ((int capacity + n - 1) div n)) a heap)"
    using lfu_new_ok [OF slice_size [OF n, of "int capacity"] h(3,4)] h(1,2) by (auto simp: lfu_inv_def)
  then show ?thesis
    using h(5) n by (auto simp: HashLfuCache_new_def Let_def hash_ok_def list_all_length simp flip: n_def)
qed

lemma hash_purge_ok: "hash_ok h \<Longrightarrow> hash_ok (hash_purge h)"
  using purge_ok by (fastforce simp: hash_ok_def hash_purge_def list_all_length lfu_inv_def)

interpretation hash_run: inductive_invariant hash_start "\<lambda>h h'. iteration_ok it \<and> hash_step it hash h h'" hash_ok
  for it hash
proof
  show "hash_ok h'" if ok: "hash_ok h" and st: "iteration_ok it \<and> hash_step it hash h h'"
    for h h' :: "('a, 'b) hash_lfu"
    using conjunct2 [OF st]
  proof cases
    case (hash_step_put k v)
    then show ?thesis using hl.store_ok [of it h hash k v] ok st by auto
  next
    case (hash_step_get k r)
    then show ?thesis using hl.fetch_ok [of it h hash k] ok st by auto
  next
    case hash_step_purge
    then show ?thesis using ok hash_purge_ok by auto
  qed
qed (rule hash_new_ok)

text \<open>The abstract cache that a cache stands for, and the number of uses of a key.\<close>

definition represents :: "('k, 'v) lfu_cache \<Rightarrow> ('k, 'v) entry list \<times> int \<Rightarrow> bool" where
  "represents c s \<longleftrightarrow> (\<exists>ns. lfu_ok c ns \<and> s = (entries c ns, lc_curTotalNum c))"

definition uses :: "('k, 'v) lfu_cache \<Rightarrow> 'k \<Rightarrow> int option" where
  "uses c k = map_option (nd_freq c) (map_of (lc_nodeMap c) k)"

lemma uses_entries:
  assumes "lfu_ok c ns"
  shows "uses c k = map_option snd (spec_find k (entries c ns))"
  using lfu_absent [OF assms] lfu_present [OF assms]
  by (cases "map_of (lc_nodeMap c) k") (auto simp: uses_def)

section \<open>Properties\<close>

text \<open>
  C14: the cache refines its specification. In every state that calls of any threads can
  reach, the linked lists and maps stand for an abstract cache, and a \<open>put\<close> and a \<open>get\<close>
  succeed, without following a null pointer, with a result that the specification allows:
  a hit moves the entry to the end of the list of the next count, a new key drops the
  oldest of the least used entries when the cache is full, and the counts are lowered
  when their average exceeds the limit.
\<close>

theorem lfu_refines_spec:
  assumes "iteration_ok it" and "reach lfu_start (\<lambda>c c'. iteration_ok it \<and> lfu_step it c c') c"
    and "lc_curTotalNum c < INT_MAX"
  shows "\<exists>s. represents c s \<and>
    (\<exists>c' s'. lfu_put it k v c = Inr c' \<and> represents c' s' \<and>
       spec_put (lc_maxAverageNum c) (lc_capacity c) k v s s') \<and>
    (\<exists>r c' s'. lfu_get it k c = Inr (r, c') \<and> represents c' s' \<and> spec_get (lc_maxAverageNum c) k r s s')"
proof -
  obtain ns where ok: "lfu_ok c ns" using lfu_run.reach_inv [OF assms(2)] by (auto simp: lfu_inv_def)
  show ?thesis
    using ok lfu_put_ok [OF assms(1) ok assms(3), of k v] lfu_get_ok [OF assms(1) ok assms(3), of k]
    unfolding represents_def by blast
qed

text \<open>A cache for one entry.\<close>

definition empty_heap :: "(nat, nat) lfu_cache" where
  "empty_heap = \<lparr>lc_capacity = 0, lc_minFreq = 0, lc_maxAverageNum = 0, lc_curAverageNum = 0,
     lc_curTotalNum = 0, lc_nodeMap = [], lc_freqToFreqList = [], nd_freq = (\<lambda>_. 0), nd_key = (\<lambda>_. 0),
     nd_value = (\<lambda>_. 0), nd_pre = (\<lambda>_. None), nd_next = (\<lambda>_. None), nd_alloc = 1\<rparr>"

definition small_cache :: "(nat, nat) lfu_cache" where
  "small_cache = LfuCache_new 1 10 empty_heap"

lemma small_cache_start: "lfu_start small_cache"
  unfolding lfu_start_def small_cache_def
  by (rule exI [of _ 1], rule exI [of _ 10], rule exI [of _ empty_heap]) simp

lemma small_cache_reach: "reach lfu_start (\<lambda>c c'. iteration_ok (id :: nat iteration) \<and> lfu_step id c c') small_cache"
  using small_cache_start by (rule reach_init)

lemma iteration_id: "iteration_ok id"
  by (simp add: iteration_ok_def)

theorem lfu_refines_spec_witness:
  "\<exists>c' s'. lfu_put id 7 70 small_cache = Inr c' \<and> represents c' s'"
  using lfu_refines_spec [OF iteration_id small_cache_reach, of 7 70]
  by (auto simp: small_cache_def LfuCache_new_def INT_MAX_def)

text \<open>
  The cache never grows beyond its capacity and evicts the least used entry. Putting a
  new key stores it; when the cache is full exactly one entry disappears, and no entry had
  been used less often; nothing else changes.
\<close>

theorem lfu_put_evicts_least:
  assumes "iteration_ok it" and "reach lfu_start (\<lambda>c c'. iteration_ok it \<and> lfu_step it c c') c"
    and "lc_curTotalNum c < INT_MAX" and "lookup c k = None"
  shows "\<exists>c'. lfu_put it k v c = Inr c' \<and> int (length (lc_nodeMap c')) \<le> lc_capacity c \<and>
    (if int (length (lc_nodeMap c)) = lc_capacity c
     then \<exists>k0 f0. uses c k0 = Some f0 \<and> (\<forall>j f. uses c j = Some f \<longrightarrow> f0 \<le> f) \<and>
       lookup c' = (lookup c)(k0 := None, k \<mapsto> v)
     else lookup c' = (lookup c)(k \<mapsto> v))"
proof -
  obtain ns where ok: "lfu_ok c ns" using lfu_run.reach_inv [OF assms(2)] by (auto simp: lfu_inv_def)
  let ?es = "entries c ns" and ?cap = "lc_capacity c"
  obtain c' ns' where r: "lfu_put it k v c = Inr c'" "lfu_ok c' ns'"
    "spec_put (lc_maxAverageNum c) ?cap k v (?es, lc_curTotalNum c) (entries c' ns', lc_curTotalNum c')"
    "lc_capacity c' = ?cap" using lfu_put_ok [OF assms(1) ok assms(3)] by blast
  have len: "length (lc_nodeMap c) = length ?es" "length (lc_nodeMap c') = length ns'"
    using map_ok_length ok r(2) by (auto simp: lfu_ok_def lists_ok_def entries_def)
  have cap: "0 < ?cap" using ok by (simp add: lfu_ok_def config_ok_def)
  have new: "spec_find k ?es = None" using assms(4) lookup_entries [OF ok] by simp
  have lk: "lookup c' j = (if j = k then Some v else if int (length ?es) = ?cap \<and> j = fst (victim ?es) then None
      else lookup c j)" for j
    using spec_put_look [OF entries_keys [OF ok] new r(3) cap] lookup_entries [OF ok] lookup_entries [OF r(2)] by simp
  have "int (length (lc_nodeMap c')) \<le> ?cap" using r(2,4) len(2) by (simp add: lfu_ok_def)
  moreover have "\<exists>k0 f0. uses c k0 = Some f0 \<and> (\<forall>j f. uses c j = Some f \<longrightarrow> f0 \<le> f) \<and>
      lookup c' = (lookup c)(k0 := None, k \<mapsto> v)" if full: "int (length ?es) = ?cap"
  proof -
    have vi: "victim ?es \<in> set ?es" "\<forall>e \<in> set ?es. count_of (victim ?es) \<le> count_of e"
      using victim_in [of ?es] full cap by (cases ?es; fastforce)+
    have "spec_find (fst (victim ?es)) ?es = Some (snd (victim ?es))"
      using vi(1) entries_keys [OF ok] by (simp add: spec_find_def)
    then have "uses c (fst (victim ?es)) = Some (count_of (victim ?es))"
      using uses_entries [OF ok] by (simp add: count_of_def)
    moreover have "count_of (victim ?es) \<le> f" if "uses c j = Some f" for j f
      using that vi(2) uses_entries [OF ok] by (auto simp: spec_find_def count_of_def dest!: map_of_SomeD)
    ultimately show ?thesis using lk full by (intro exI conjI) (auto simp: fun_eq_iff)
  qed
  ultimately show ?thesis using r(1) len(1) lk by (auto simp: fun_eq_iff)
qed

lemma small_cache_put:
  obtains c where "lfu_put id 7 70 small_cache = Inr c"
    "reach lfu_start (\<lambda>c c'. iteration_ok (id :: nat iteration) \<and> lfu_step id c c') c" "lc_curTotalNum c = 1"
    "int (length (lc_nodeMap c)) = lc_capacity c" "lookup c = [7 \<mapsto> 70]" "lc_capacity c = 1"
proof -
  have f: "lc_nodeMap small_cache = []" "lc_curTotalNum small_cache = 0" "lc_capacity small_cache = 1"
    "counting small_cache"
    by (simp_all add: small_cache_def LfuCache_new_def counting_def INT_MAX_def)
  have ok: "lfu_ok small_cache []" unfolding small_cache_def by (rule lfu_new_ok) simp_all
  obtain c ns where c: "lfu_put id 7 70 small_cache = Inr c" "lfu_ok c ns" "lc_capacity c = 1"
    "spec_put (lc_maxAverageNum small_cache) 1 7 70 ([], 0) (entries c ns, lc_curTotalNum c)"
    using lfu_put_ok [OF iteration_id ok, of 7 70] f by (auto simp: counting_def entries_def)
  have "lookup c j = [7 \<mapsto> 70] j" for j
    using spec_put_look [of "[]" 7 "lc_maxAverageNum small_cache" 1 70 0 "entries c ns" "lc_curTotalNum c" j] c(4)
      lookup_entries [OF c(2)] by (simp add: spec_find_def)
  then have l: "lookup c = [7 \<mapsto> 70]" by (rule ext)
  have "lc_nodeMap c \<noteq> []" using l by (auto simp: lookup_def dest: fun_cong [of _ _ 7])
  moreover have "int (length (lc_nodeMap c)) \<le> 1"
    using map_ok_length [of c ns] c(2,3) by (simp add: lfu_ok_def lists_ok_def)
  ultimately have "int (length (lc_nodeMap c)) = lc_capacity c" using c(3) by (cases "lc_nodeMap c") auto
  moreover have "lc_curTotalNum c = 1" using c(4) by (simp add: spec_put_def spec_find_def spec_count_def Let_def)
  moreover have "iteration_ok (id :: nat iteration) \<and> lfu_step id small_cache c"
    using iteration_id step_put [OF f(4) c(1)] by blast
  then have "reach lfu_start (\<lambda>c c'. iteration_ok (id :: nat iteration) \<and> lfu_step id c c') c"
    by (rule reach_step [OF small_cache_reach])
  ultimately show thesis using that c(1,3) l by blast
qed

theorem lfu_put_evicts_least_witness:
  "\<exists>c c'. lfu_put id 7 70 small_cache = Inr c \<and> lookup c = [7 \<mapsto> 70] \<and>
     lfu_put id 8 80 c = Inr c' \<and> length (lc_nodeMap c') \<le> 1 \<and> lookup c' 8 = Some 80"
proof -
  obtain c where c: "lfu_put id 7 70 small_cache = Inr c"
    "reach lfu_start (\<lambda>c c'. iteration_ok (id :: nat iteration) \<and> lfu_step id c c') c" "lc_curTotalNum c = 1"
    "int (length (lc_nodeMap c)) = lc_capacity c" "lookup c = [7 \<mapsto> 70]" "lc_capacity c = 1"
    by (rule small_cache_put)
  then show ?thesis
    using lfu_put_evicts_least [OF iteration_id c(2), of 8 80] by (auto simp: INT_MAX_def)
qed

text \<open>
  C35: the sharded cache. In every state of a cache that the constructor accepted, a \<open>put\<close>
  succeeds, whatever hash function distributes the keys, and a \<open>get\<close> of the same key that
  follows returns the value put; a key that the \<open>put\<close> did not name keeps its value or is
  evicted, and a \<open>get\<close> changes no value.
\<close>

theorem hash_cache_put_get:
  assumes "iteration_ok it" and "reach hash_start (\<lambda>h h'. iteration_ok it \<and> hash_step it hash h h') h"
    and "hash_counting hash k h"
  shows "\<exists>h1. hash_put it hash k v h = Inr h1 \<and>
    (\<forall>j w. hash_lookup hash h1 j = Some w \<longrightarrow> (if j = k then w = v else hash_lookup hash h j = Some w)) \<and>
    (hash_counting hash k h1 \<longrightarrow>
       (\<exists>h2. hash_get it hash k h1 = Inr (Some v, h2) \<and> hash_lookup hash h2 = hash_lookup hash h1))"
proof -
  have ok: "iteration_ok it \<and> hash_ok h" using assms(1) hash_run.reach_inv [OF assms(2)] by simp
  obtain h1 where h1: "hash_put it hash k v h = Inr h1" "hash_lookup hash h1 k = Some v"
    using hl.store_ok [OF ok assms(3)] by blast
  have "if j = k then w = v else hash_lookup hash h j = Some w" if "hash_lookup hash h1 j = Some w" for j w
    using hl.store_sound [OF ok assms(3) h1(1) that] that h1(2) by auto
  then show ?thesis using h1(1) hl.store_fetch [OF ok assms(3) h1(1)] by blast
qed

text \<open>Two slices for two entries.\<close>

definition two_slices :: "(nat, nat) hash_lfu" where
  "two_slices = \<lparr>hl_capacity = 2, hl_sliceNum = 2, hl_slices = [small_cache, small_cache]\<rparr>"

lemma two_slices_start: "hash_start two_slices"
proof -
  have "HashLfuCache_new 0 2 2 10 empty_heap = Inr two_slices"
    by (simp add: HashLfuCache_new_def two_slices_def small_cache_def as_int_def numeral_2_eq_2)
  then show ?thesis unfolding hash_start_def by (intro exI conjI) auto
qed

theorem hash_cache_put_get_witness:
  "\<exists>h1. hash_put id (\<lambda>k. k) 7 70 two_slices = Inr h1 \<and> hash_lookup (\<lambda>k. k) h1 8 \<noteq> Some 3"
proof -
  have "hash_lookup (\<lambda>k. k) two_slices 8 = None" and c: "hash_counting (\<lambda>k. k) 7 two_slices"
    by (simp_all add: hash_lookup_def hash_counting_def counting_def two_slices_def sliceIndex_def lookup_def
        small_cache_def LfuCache_new_def INT_MAX_def)
  then show ?thesis
    using hash_cache_put_get [OF iteration_id reach_init [of hash_start, OF two_slices_start] c, of 70]
    by (metis numeral_eq_iff option.distinct(1) semiring_norm(89,90))
qed

end
