(* ===== verification/Webbench.thy ===== *)
theory Webbench
  imports Prelude
begin

text \<open>
  The benchmark client \<open>src/webbench/webbench.c\<close> with \<open>src/webbench/socket.c\<close>: the options,
  the request it builds from a URL, the loop of one client and the collection of the
  clients' results.

  A C string is a NUL-terminated prefix of an array of bytes; the functions of
  \<open>string.h\<close> are modelled on the arrays, so that a copy that does not fit and a read past
  the end are error values. \<open>exit\<close> is a value of its own. What \<open>getopt_long\<close> makes of
  the arguments, the answers of the system calls and the pipe are parameters: lists in
  the order of the calls, where the end of a list means that the call does not return.
\<close>

section \<open>Strings in arrays\<close>

definition NUL :: char where "NUL = CHR 0x00"

definition bzero :: "nat \<Rightarrow> char list" where
  "bzero n = replicate n NUL"

definition c_str :: "char list \<Rightarrow> string res" where
  "c_str a = (if NUL \<in> set a then Inr (takeWhile (\<lambda>c. c \<noteq> NUL) a) else Inl OutOfBounds)"

definition strcpy :: "char list \<Rightarrow> string \<Rightarrow> char list res" where
  "strcpy a s = (if length s < length a then Inr (write_at 0 (s @ [NUL]) a) else Inl OutOfBounds)"

definition strcat :: "char list \<Rightarrow> string \<Rightarrow> char list res" where
  "strcat a s =
     res_bind (c_str a) (\<lambda>d.
       if length d + length s < length a then Inr (write_at (length d) (s @ [NUL]) a) else Inl OutOfBounds)"

text \<open>\<open>strncpy\<close> writes exactly \<open>n\<close> bytes, with NUL bytes after a shorter source.\<close>

definition strncpy :: "char list \<Rightarrow> string \<Rightarrow> nat \<Rightarrow> char list res" where
  "strncpy a s n =
     (if n \<le> length a then Inr (write_at 0 (take n s @ replicate (n - length s) NUL) a) else Inl OutOfBounds)"

definition strchr :: "string \<Rightarrow> char \<Rightarrow> nat option" where
  "strchr s c = (if c \<in> set s then Some (std_find c s) else None)"

fun strrchr :: "string \<Rightarrow> char \<Rightarrow> nat option" where
  "strrchr [] c = None"
| "strrchr (x # xs) c =
     (case strrchr xs c of Some i \<Rightarrow> Some (Suc i) | None \<Rightarrow> if x = c then Some 0 else None)"

definition is_digit :: "char \<Rightarrow> bool" where
  "is_digit c \<longleftrightarrow> 48 \<le> (of_char c :: nat) \<and> (of_char c :: nat) \<le> 57"

text \<open>
  \<open>atoi\<close> skips white space and a sign and reads the digits that follow; it is undefined
  when the number does not fit an \<open>int\<close>, and runs out of an array in which only digits
  follow and no NUL byte.
\<close>

definition atoi_sign :: "string \<Rightarrow> bool" where
  "atoi_sign s = (let t = dropWhile isspace s in t \<noteq> [] \<and> hd t = CHR ''-'')"

definition atoi_digits :: "string \<Rightarrow> string" where
  "atoi_digits s =
     (let t = dropWhile isspace s in if t \<noteq> [] \<and> hd t \<in> {CHR ''-'', CHR ''+''} then tl t else t)"

definition atoi :: "string \<Rightarrow> int res" where
  "atoi s =
     (let v = int (undec (takeWhile is_digit (atoi_digits s)));
          x = (if atoi_sign s then - v else v)
      in if - (2 ^ 31) \<le> x \<and> x < 2 ^ 31 then Inr x else Inl IntOverflow)"

definition atoi_array :: "char list \<Rightarrow> int res" where
  "atoi_array a =
     (if NUL \<notin> set a \<and> dropWhile is_digit (atoi_digits a) = [] then Inl OutOfBounds
      else atoi (takeWhile (\<lambda>c. c \<noteq> NUL) a))"

definition lower :: "char \<Rightarrow> char" where
  "lower c = (let n = (of_char c :: nat) in if 65 \<le> n \<and> n \<le> 90 then char_of (n + 32) else c)"

definition strncasecmp_eq :: "string \<Rightarrow> string \<Rightarrow> nat \<Rightarrow> bool" where
  "strncasecmp_eq s t n \<longleftrightarrow> map lower (take n s) = map lower (take n t)"

text \<open>A call that may end the program, inside one that may go wrong.\<close>

datatype 'a outcome = Exit int | Next 'a

fun run_bind :: "'a outcome res \<Rightarrow> ('a \<Rightarrow> 'b outcome res) \<Rightarrow> 'b outcome res" where
  "run_bind (Inl e) f = Inl e"
| "run_bind (Inr (Exit n)) f = Inr (Exit n)"
| "run_bind (Inr (Next x)) f = f x"

definition run :: "'a res \<Rightarrow> 'a outcome res" where
  "run r = res_bind r (\<lambda>x. Inr (Next x))"

section \<open>The options\<close>

definition METHOD_GET :: int where "METHOD_GET = 0"
definition METHOD_HEAD :: int where "METHOD_HEAD = 1"
definition METHOD_OPTIONS :: int where "METHOD_OPTIONS = 2"
definition METHOD_TRACE :: int where "METHOD_TRACE = 3"

lemmas method_defs = METHOD_GET_def METHOD_HEAD_def METHOD_OPTIONS_def METHOD_TRACE_def

definition PROGRAM_VERSION :: string where "PROGRAM_VERSION = ''1.5''"
definition REQUEST_SIZE :: nat where "REQUEST_SIZE = 2048"
definition MAXHOSTNAMELEN :: nat where "MAXHOSTNAMELEN = 64"

record webbench =
  wb_speed :: int
  wb_failed :: int
  wb_bytes :: int
  wb_http10 :: int
  wb_method :: int
  wb_clients :: int
  wb_force :: int
  wb_force_reload :: int
  wb_proxyport :: int
  wb_proxyhost :: "string option"
  wb_benchtime :: int
  wb_host :: "char list"
  wb_request :: "char list"

definition webbench_globals :: webbench where
  "webbench_globals = \<lparr>wb_speed = 0, wb_failed = 0, wb_bytes = 0, wb_http10 = 1, wb_method = METHOD_GET,
     wb_clients = 1, wb_force = 0, wb_force_reload = 0, wb_proxyport = 80, wb_proxyhost = None,
     wb_benchtime = 30, wb_host = bzero MAXHOSTNAMELEN, wb_request = bzero REQUEST_SIZE\<rparr>"

text \<open>
  An option as \<open>getopt_long\<close> finds it. A long option with a flag sets the flag and is
  reported as 0, the others are reported as their short option.
\<close>

datatype wb_arg = ShortOpt char string | LongOpt string string

definition long_flag :: "string \<Rightarrow> webbench \<Rightarrow> webbench option" where
  "long_flag n s =
     (if n = ''force'' then Some (s\<lparr>wb_force := 1\<rparr>)
      else if n = ''reload'' then Some (s\<lparr>wb_force_reload := 1\<rparr>)
      else if n = ''get'' then Some (s\<lparr>wb_method := METHOD_GET\<rparr>)
      else if n = ''head'' then Some (s\<lparr>wb_method := METHOD_HEAD\<rparr>)
      else if n = ''options'' then Some (s\<lparr>wb_method := METHOD_OPTIONS\<rparr>)
      else if n = ''trace'' then Some (s\<lparr>wb_method := METHOD_TRACE\<rparr>)
      else None)"

definition long_val :: "string \<Rightarrow> char" where
  "long_val n =
     (if n = ''time'' then CHR ''t''
      else if n = ''http09'' then CHR ''9''
      else if n = ''http10'' then CHR ''1''
      else if n = ''http11'' then CHR ''2''
      else if n = ''version'' then CHR ''V''
      else if n = ''proxy'' then CHR ''p''
      else if n = ''clients'' then CHR ''c''
      else CHR ''?'')"

definition proxy_option :: "string \<Rightarrow> webbench \<Rightarrow> webbench outcome res" where
  "proxy_option optarg s =
     (case strrchr optarg (CHR '':'') of
        None \<Rightarrow> Inr (Next (s\<lparr>wb_proxyhost := Some optarg\<rparr>))
      | Some tmp \<Rightarrow>
          if tmp = 0 then Inr (Exit 2)
          else if tmp = length optarg - 1 then Inr (Exit 2)
          else run (res_bind (atoi (drop (tmp + 1) optarg)) (\<lambda>p.
            Inr (s\<lparr>wb_proxyhost := Some (take tmp optarg), wb_proxyport := p\<rparr>))))"

definition short_option :: "char \<Rightarrow> string \<Rightarrow> webbench \<Rightarrow> webbench outcome res" where
  "short_option opt optarg s =
     (if opt = CHR ''f'' then Inr (Next (s\<lparr>wb_force := 1\<rparr>))
      else if opt = CHR ''r'' then Inr (Next (s\<lparr>wb_force_reload := 1\<rparr>))
      else if opt = CHR ''9'' then Inr (Next (s\<lparr>wb_http10 := 0\<rparr>))
      else if opt = CHR ''1'' then Inr (Next (s\<lparr>wb_http10 := 1\<rparr>))
      else if opt = CHR ''2'' then Inr (Next (s\<lparr>wb_http10 := 2\<rparr>))
      else if opt = CHR ''V'' then Inr (Exit 0)
      else if opt = CHR ''t'' then run (res_bind (atoi optarg) (\<lambda>n. Inr (s\<lparr>wb_benchtime := n\<rparr>)))
      else if opt = CHR ''p'' then proxy_option optarg s
      else if opt = CHR '':'' \<or> opt = CHR ''h'' \<or> opt = CHR ''?'' then Inr (Exit 2)
      else if opt = CHR ''c'' then run (res_bind (atoi optarg) (\<lambda>n. Inr (s\<lparr>wb_clients := n\<rparr>)))
      else Inr (Next s))"

fun wb_option :: "wb_arg \<Rightarrow> webbench \<Rightarrow> webbench outcome res" where
  "wb_option (ShortOpt c optarg) s = short_option c optarg s"
| "wb_option (LongOpt n optarg) s =
     (case long_flag n s of Some s1 \<Rightarrow> Inr (Next s1) | None \<Rightarrow> short_option (long_val n) optarg s)"

fun options_loop :: "wb_arg list \<Rightarrow> webbench \<Rightarrow> webbench outcome res" where
  "options_loop [] s = Inr (Next s)"
| "options_loop (a # as) s = run_bind (wb_option a s) (options_loop as)"

section \<open>The request\<close>

definition raise_http10 :: "bool \<Rightarrow> int \<Rightarrow> webbench \<Rightarrow> webbench" where
  "raise_http10 b v s = (if b \<and> wb_http10 s < v then s\<lparr>wb_http10 := v\<rparr> else s)"

definition adjust_http10 :: "webbench \<Rightarrow> webbench" where
  "adjust_http10 s =
     (let s1 = raise_http10 (wb_force_reload s \<noteq> 0 \<and> wb_proxyhost s \<noteq> None) 1 s;
          s2 = raise_http10 (wb_method s1 = METHOD_HEAD) 1 s1;
          s3 = raise_http10 (wb_method s2 = METHOD_OPTIONS) 2 s2
      in raise_http10 (wb_method s3 = METHOD_TRACE) 2 s3)"

definition method_text :: "int \<Rightarrow> string" where
  "method_text m =
     (if m = METHOD_HEAD then ''HEAD'' else if m = METHOD_OPTIONS then ''OPTIONS''
      else if m = METHOD_TRACE then ''TRACE'' else ''GET'')"

definition add_request :: "string \<Rightarrow> webbench \<Rightarrow> webbench res" where
  "add_request t s = res_bind (strcat (wb_request s) t) (\<lambda>r. Inr (s\<lparr>wb_request := r\<rparr>))"

text \<open>The checks of the URL; the result is the offset behind \<open>://\<close>.\<close>

definition check_url :: "string \<Rightarrow> webbench \<Rightarrow> nat outcome" where
  "check_url url s =
     (case std_search ''://'' url of
        None \<Rightarrow> Exit 2
      | Some k \<Rightarrow>
          if length url > 1500 then Exit 2
          else if wb_proxyhost s = None \<and> \<not> strncasecmp_eq ''http://'' url 7 then Exit 2
          else if strchr (drop (k + 3) url) (CHR ''/'') = None then Exit 2
          else Next (k + 3))"

text \<open>Host and port, from the part of the URL behind \<open>://\<close>.\<close>

definition url_host :: "string \<Rightarrow> webbench \<Rightarrow> webbench res" where
  "url_host u s =
     (case (strchr u (CHR '':''), strchr u (CHR ''/'')) of
        (Some c, Some sl) \<Rightarrow>
          if c < sl then
            res_bind (strncpy (wb_host s) u c) (\<lambda>h.
              res_bind (strncpy (bzero 10) (drop (c + 1) u) (sl - c - 1)) (\<lambda>tmp.
                res_bind (atoi_array tmp) (\<lambda>p.
                  Inr (s\<lparr>wb_host := h, wb_proxyport := (if p = 0 then 80 else p)\<rparr>))))
          else res_bind (strncpy (wb_host s) u sl) (\<lambda>h. Inr (s\<lparr>wb_host := h\<rparr>))
      | _ \<Rightarrow> res_bind (strncpy (wb_host s) u (std_find (CHR ''/'') u)) (\<lambda>h. Inr (s\<lparr>wb_host := h\<rparr>)))"

definition request_target :: "string \<Rightarrow> nat \<Rightarrow> webbench \<Rightarrow> webbench res" where
  "request_target url i s =
     (if wb_proxyhost s = None then
        (let u = drop i url
         in res_bind (url_host u s) (add_request (drop (std_find (CHR ''/'') u) u)))
      else add_request url s)"

definition CRLF :: string where "CRLF = [CHR 0x0D, CHR 0x0A]"

definition add_when :: "bool \<Rightarrow> string \<Rightarrow> webbench \<Rightarrow> webbench res" where
  "add_when b t s = (if b then add_request t s else Inr s)"

definition add_host :: "webbench \<Rightarrow> webbench res" where
  "add_host s =
     (if wb_proxyhost s = None \<and> wb_http10 s > 0 then
        res_bind (add_request ''Host: '' s) (\<lambda>s1.
          res_bind (c_str (wb_host s1)) (\<lambda>h.
            res_bind (add_request h s1) (add_request CRLF)))
      else Inr s)"

definition request_headers :: "webbench \<Rightarrow> webbench res" where
  "request_headers s =
     res_bind (if wb_http10 s = 1 then add_request '' HTTP/1.0'' s
               else if wb_http10 s = 2 then add_request '' HTTP/1.1'' s else Inr s) (\<lambda>s1.
       res_bind (add_request CRLF s1) (\<lambda>s2.
         res_bind (add_when (wb_http10 s2 > 0) (''User-Agent: WebBench '' @ PROGRAM_VERSION @ CRLF) s2) (\<lambda>s3.
           res_bind (add_host s3) (\<lambda>s4.
             res_bind (add_when (wb_force_reload s4 \<noteq> 0 \<and> wb_proxyhost s4 \<noteq> None)
                 (''Pragma: no-cache'' @ CRLF) s4) (\<lambda>s5.
               res_bind (add_when (wb_http10 s5 > 1) (''Connection: close'' @ CRLF) s5) (\<lambda>s6.
                 add_when (wb_http10 s6 > 0) CRLF s6))))))"

definition build_request :: "string \<Rightarrow> webbench \<Rightarrow> webbench outcome res" where
  "build_request url s =
     (let s1 = adjust_http10 (s\<lparr>wb_host := bzero MAXHOSTNAMELEN, wb_request := bzero REQUEST_SIZE\<rparr>) in
      run_bind
        (run (res_bind (strcpy (wb_request s1) (method_text (wb_method s1))) (\<lambda>r.
           add_request '' '' (s1\<lparr>wb_request := r\<rparr>))))
        (\<lambda>s2. run_bind (Inr (check_url url s2)) (\<lambda>i.
           run (res_bind (request_target url i s2) request_headers))))"

section \<open>The program up to the benchmark\<close>

definition bench_info :: "string \<Rightarrow> webbench \<Rightarrow> string" where
  "bench_info url s =
     CHR 0x0A # ''Benchmarking: '' @ method_text (wb_method s) @ '' '' @ url @
     (if wb_http10 s = 0 then '' (using HTTP/0.9)''
      else if wb_http10 s = 2 then '' (using HTTP/1.1)'' else []) @ [CHR 0x0A] @
     (if wb_clients s = 1 then ''1 client'' else dec_int (wb_clients s) @ '' clients'') @
     '', running '' @ dec_int (wb_benchtime s) @ '' sec'' @
     (if wb_force s \<noteq> 0 then '', early socket close'' else []) @
     (case wb_proxyhost s of
        None \<Rightarrow> []
      | Some h \<Rightarrow> '', via proxy server '' @ h @ '':'' @ dec_int (wb_proxyport s)) @
     (if wb_force_reload s \<noteq> 0 then '', forcing reload'' else []) @ ''.'' @ [CHR 0x0A]"

text \<open>\<open>main\<close> up to the call of \<open>bench\<close>: the options, then the first argument that is none.\<close>

definition wb_prepare :: "wb_arg list \<Rightarrow> string option \<Rightarrow> webbench \<Rightarrow> (string \<times> webbench) outcome res" where
  "wb_prepare as arg s =
     (if as = [] \<and> arg = None then Inr (Exit 2)
      else
        run_bind (options_loop as s) (\<lambda>s1.
          case arg of
            None \<Rightarrow> Inr (Exit 2)
          | Some url \<Rightarrow>
              (let s2 = (if wb_clients s1 = 0 then s1\<lparr>wb_clients := 1\<rparr> else s1);
                   s3 = (if wb_benchtime s2 = 0 then s2\<lparr>wb_benchtime := 60\<rparr> else s2)
               in run_bind (build_request url s3) (\<lambda>s4. Inr (Next (bench_info url s4, s4))))))"

section \<open>The benchmark\<close>

definition check_int :: "int \<Rightarrow> int res" where
  "check_int x = (if - (2 ^ 31) \<le> x \<and> x < 2 ^ 31 then Inr x else Inl IntOverflow)"

text \<open>
  \<open>Socket\<close> of \<open>socket.c\<close>: the answers of \<open>inet_addr\<close> and \<open>gethostbyname\<close> (the address
  when there is one), \<open>socket\<close> and \<open>connect\<close> are parameters. The result is what is
  returned, the address and port that are connected to, and the closed descriptors.
\<close>

record resolver =
  rs_inet_addr :: "string \<Rightarrow> 32 word"
  rs_gethostbyname :: "string \<Rightarrow> 32 word option"

definition INADDR_NONE :: "32 word" where "INADDR_NONE = 0xFFFFFFFF"

definition Socket ::
    "resolver \<Rightarrow> int \<Rightarrow> int \<Rightarrow> string \<Rightarrow> int \<Rightarrow> int \<times> (32 word \<times> 16 word) option \<times> int list" where
  "Socket rs sock conn host clientPort =
     (let inaddr = rs_inet_addr rs host;
          addr = (if inaddr \<noteq> INADDR_NONE then Some inaddr else rs_gethostbyname rs host)
      in case addr of
           None \<Rightarrow> (- 1, None, [])
         | Some a \<Rightarrow>
             if sock < 0 then (sock, None, [])
             else if conn < 0 then (- 1, Some (a, word_of_int clientPort), [sock])
             else (sock, Some (a, word_of_int clientPort), []))"

text \<open>
  One attempt of a client: whether the timer has expired when the attempt begins, what
  \<open>Socket\<close>, \<open>write\<close>, \<open>shutdown\<close> and \<open>close\<close> return, and for each \<open>read\<close> whether
  the timer has expired before it and what it returns.
\<close>

record attempt =
  at_expired :: bool
  at_socket :: int
  at_write :: int
  at_shutdown :: int
  at_reads :: "(bool \<times> int) list"
  at_close :: int

definition count_failed :: "webbench \<Rightarrow> webbench res" where
  "count_failed s = res_bind (check_int (wb_failed s + 1)) (\<lambda>n. Inr (s\<lparr>wb_failed := n\<rparr>))"

text \<open>The loop over \<open>read\<close>: whether the reading went well, and the bytes counted.\<close>

fun read_loop :: "(bool \<times> int) list \<Rightarrow> webbench \<Rightarrow> (bool \<times> webbench) res option" where
  "read_loop [] s = None"
| "read_loop ((expired, i) # rs) s =
     (if expired then Some (Inr (True, s))
      else if i < 0 then Some (Inr (False, s))
      else if i = 0 then Some (Inr (True, s))
      else
        (case check_int (wb_bytes s + i) of
           Inl e \<Rightarrow> Some (Inl e)
         | Inr n \<Rightarrow> read_loop rs (s\<lparr>wb_bytes := n\<rparr>)))"

text \<open>The end of an attempt that has read its answer.\<close>

definition finish_attempt :: "attempt \<Rightarrow> webbench \<Rightarrow> webbench res" where
  "finish_attempt a s =
     (if at_close a \<noteq> 0 then count_failed s
      else res_bind (check_int (wb_speed s + 1)) (\<lambda>n. Inr (s\<lparr>wb_speed := n\<rparr>)))"

definition try_once :: "int \<Rightarrow> attempt \<Rightarrow> webbench \<Rightarrow> webbench res option" where
  "try_once rlen a s =
     (if at_socket a < 0 then Some (count_failed s)
      else if rlen \<noteq> at_write a then Some (count_failed s)
      else if wb_http10 s = 0 \<and> at_shutdown a \<noteq> 0 then Some (count_failed s)
      else if wb_force s = 0 then
        (case read_loop (at_reads a) s of
           None \<Rightarrow> None
         | Some (Inl e) \<Rightarrow> Some (Inl e)
         | Some (Inr (ok, s1)) \<Rightarrow> Some (if ok then finish_attempt a s1 else count_failed s1))
      else Some (finish_attempt a s))"

fun benchcore_loop :: "int \<Rightarrow> attempt list \<Rightarrow> webbench \<Rightarrow> webbench res option" where
  "benchcore_loop rlen [] s = None"
| "benchcore_loop rlen (a # as) s =
     (if at_expired a then
        Some (Inr (if wb_failed s > 0 then s\<lparr>wb_failed := wb_failed s - 1\<rparr> else s))
      else
        (case try_once rlen a s of
           None \<Rightarrow> None
         | Some (Inl e) \<Rightarrow> Some (Inl e)
         | Some (Inr s1) \<Rightarrow> benchcore_loop rlen as s1))"

text \<open>\<open>benchcore\<close>, with what \<open>sigaction\<close> returns.\<close>

definition benchcore :: "int \<Rightarrow> attempt list \<Rightarrow> webbench \<Rightarrow> webbench outcome res option" where
  "benchcore sigaction as s =
     (if sigaction \<noteq> 0 then Some (Inr (Exit 3))
      else
        (case c_str (wb_request s) of
           Inl e \<Rightarrow> Some (Inl e)
         | Inr req \<Rightarrow> map_option run (benchcore_loop (int (length req)) as s)))"

text \<open>
  The ends of the pipe that a process holds: both after \<open>pipe\<close>, in the parent until it
  closes one.
\<close>

datatype pipe_end = ReadEnd | WriteEnd

definition pipe_ends :: "pipe_end set" where
  "pipe_ends = {ReadEnd, WriteEnd}"

text \<open>
  The loop of the parent over what \<open>fscanf\<close> reads from the pipe: the values of the
  conversions that succeeded, at most three; a conversion that fails leaves its variable
  as it was. The state is \<open>i\<close>, \<open>j\<close>, \<open>k\<close> and the globals. The list is all that is ever
  written to the pipe. After it, when the clients are over, \<open>fscanf\<close> meets the end of the
  file and converts nothing, unless the parent itself holds a write end of the pipe: then
  the read blocks for ever.
\<close>

definition assign :: "int list \<Rightarrow> nat \<Rightarrow> int \<Rightarrow> int" where
  "assign vs n old = (if n < length vs then vs ! n else old)"

fun collect_loop :: "pipe_end set \<Rightarrow> int list list \<Rightarrow> int \<times> int \<times> int \<Rightarrow> webbench \<Rightarrow> (int \<times> webbench) res option" where
  "collect_loop ends [] (i, j, k) s = (if WriteEnd \<in> ends then None else Some (Inr (i, s)))"
| "collect_loop ends (vs # vss) (i, j, k) s =
     (let i = assign vs 0 i; j = assign vs 1 j; k = assign vs 2 k in
      if length vs < 2 then Some (Inr (i, s))
      else
        (case res_bind (check_int (wb_speed s + i)) (\<lambda>x.
                res_bind (check_int (wb_failed s + j)) (\<lambda>y.
                  res_bind (check_int (wb_bytes s + k)) (\<lambda>z.
                    Inr (s\<lparr>wb_speed := x, wb_failed := y, wb_bytes := z, wb_clients := wb_clients s - 1\<rparr>)))) of
           Inl e \<Rightarrow> Some (Inl e)
         | Inr s1 \<Rightarrow> if wb_clients s1 = 0 then Some (Inr (i, s1)) else collect_loop ends vss (i, j, k) s1))"

text \<open>The loop that forks the clients: the number of the last one and the last process id.\<close>

fun fork_loop :: "int list \<Rightarrow> int \<Rightarrow> int \<Rightarrow> int \<Rightarrow> (int \<times> int) option" where
  "fork_loop [] i pid clients = (if i < clients then None else Some (i, pid))"
| "fork_loop (p # ps) i pid clients =
     (if i < clients then if p \<le> 0 then Some (i, p) else fork_loop ps (i + 1) p clients else Some (i, pid))"

record bench_env =
  be_connect :: int
  be_pipe :: int
  be_forks :: "int list"
  be_fdopen :: bool
  be_sigaction :: int
  be_attempts :: "attempt list"
  be_results :: "int list list"
  be_j :: int
  be_k :: int

text \<open>What a process does in the end: a child reports its counters, the parent sums them up.\<close>

datatype report = NoReport | ChildReport int int int | ParentReport int int int

definition bench_child :: "bench_env \<Rightarrow> webbench \<Rightarrow> (int \<times> report) outcome res option" where
  "bench_child e s =
     map_option (\<lambda>r. run_bind r (\<lambda>s1.
         if be_fdopen e then Inr (Next (0, ChildReport (wb_speed s1) (wb_failed s1) (wb_bytes s1)))
         else Inr (Next (3, NoReport))))
       (benchcore (be_sigaction e) (be_attempts e) s)"

definition bench_parent :: "pipe_end set \<Rightarrow> bench_env \<Rightarrow> int \<Rightarrow> webbench \<Rightarrow> (int \<times> report) res option" where
  "bench_parent ends e i s =
     (if be_fdopen e then
        map_option (\<lambda>r. res_bind r (\<lambda>(i1, s1).
            Inr (i1, ParentReport (wb_speed s1) (wb_failed s1) (wb_bytes s1))))
          (collect_loop ends (be_results e) (i, be_j e, be_k e) (s\<lparr>wb_speed := 0, wb_failed := 0, wb_bytes := 0\<rparr>))
      else Some (Inr (3, NoReport)))"

definition bench :: "bench_env \<Rightarrow> webbench \<Rightarrow> (int \<times> report) outcome res option" where
  "bench e s =
     (if be_connect e < 0 then Some (Inr (Next (1, NoReport)))
      else if be_pipe e \<noteq> 0 then Some (Inr (Next (3, NoReport)))
      else
        (case fork_loop (be_forks e) 0 0 (wb_clients s) of
           None \<Rightarrow> None
         | Some (i, pid) \<Rightarrow>
             if pid < 0 then Some (Inr (Next (3, NoReport)))
             else if pid = 0 then bench_child e s
             else map_option run (bench_parent pipe_ends e i s)))"

section \<open>Lemmas\<close>

subsection \<open>Strings in arrays\<close>

lemma c_str_no_NUL: "c_str a = Inr d \<Longrightarrow> NUL \<notin> set d"
  by (auto simp: c_str_def split: if_splits dest: set_takeWhileD)

lemma c_str_take: "c_str a = Inr d \<Longrightarrow> take (length d) a = d"
  using takeWhile_eq_take [of "\<lambda>c. c \<noteq> NUL" a] by (metis c_str_def sum.distinct(1) sum.inject(2))

lemma c_str_append [simp]: "NUL \<notin> set d \<Longrightarrow> c_str (d @ NUL # xs) = Inr d"
  by (induction d) (auto simp: c_str_def)

lemma c_str_bzero [simp]: "0 < n \<Longrightarrow> c_str (bzero n) = Inr []"
  by (cases n) (simp_all add: bzero_def c_str_def)

lemma strcat_ok:
  assumes "c_str a = Inr d" and "NUL \<notin> set t" and "length d + length t < length a"
  obtains a' where "strcat a t = Inr a'" "c_str a' = Inr (d @ t)" "length a' = length a"
proof
  show "strcat a t = Inr (write_at (length d) (t @ [NUL]) a)" using assms by (simp add: strcat_def)
  show "c_str (write_at (length d) (t @ [NUL]) a) = Inr (d @ t)"
    using c_str_append [of "d @ t" "drop (length d + length (t @ [NUL])) a"] c_str_no_NUL [OF assms(1)] assms(2)
    by (simp add: write_at_def c_str_take [OF assms(1)])
  show "length (write_at (length d) (t @ [NUL]) a) = length a" using assms(3) by (simp add: write_at_def)
qed

lemma strcpy_ok:
  "NUL \<notin> set t \<Longrightarrow> length t < length a \<Longrightarrow>
    \<exists>a'. strcpy a t = Inr a' \<and> c_str a' = Inr t \<and> length a' = length a"
  by (simp add: strcpy_def write_at_def)

text \<open>A copy of fewer bytes than the array of zeros has room for is terminated.\<close>

lemma strncpy_ok:
  assumes "NUL \<notin> set t" and "n < m" and "n \<le> length t"
  shows "\<exists>a'. strncpy (bzero m) t n = Inr a' \<and> c_str a' = Inr (take n t) \<and> length a' = m \<and> NUL \<in> set a'"
proof -
  have "write_at 0 (take n t @ replicate (n - length t) NUL) (bzero m) = take n t @ NUL # replicate (m - n - 1) NUL"
    using assms(2,3) by (simp add: write_at_def bzero_def flip: replicate_Suc)
  moreover have "NUL \<notin> set (take n t)" using assms(1) by (meson in_set_takeD)
  ultimately show ?thesis using assms(2,3) by (simp add: strncpy_def bzero_def)
qed

lemma undec_bound: "list_all is_digit s \<Longrightarrow> undec s < 10 ^ length s"
proof (induction s rule: rev_induct)
  case (snoc c s)
  have "undec s < 10 ^ length s" "(of_char c :: nat) - 48 < 10" using snoc by (auto simp: is_digit_def)
  then show ?case by (simp add: undec_snoc)
qed simp

lemma atoi_small: "length s \<le> 9 \<Longrightarrow> \<exists>x. atoi s = Inr x"
proof -
  assume "length s \<le> 9"
  let ?t = "atoi_digits s" and ?ds = "takeWhile is_digit (atoi_digits s)"
  have "length ?t \<le> length s"
    using length_dropWhile_le [of isspace s] by (auto simp: atoi_digits_def Let_def)
  then have "length ?ds \<le> 9" using \<open>length s \<le> 9\<close> length_takeWhile_le [of is_digit ?t] by linarith
  then have "(10 :: nat) ^ length ?ds \<le> 10 ^ 9" by (intro power_increasing) simp_all
  moreover have "undec ?ds < 10 ^ length ?ds"
    by (rule undec_bound) (auto simp: list_all_iff dest: set_takeWhileD)
  ultimately have "undec ?ds < 2 ^ 31" by simp
  then show ?thesis unfolding atoi_def Let_def by simp
qed

subsection \<open>The request\<close>

text \<open>The text of the request array.\<close>

definition holds :: "webbench \<Rightarrow> string \<Rightarrow> bool" where
  "holds s d \<longleftrightarrow> c_str (wb_request s) = Inr d \<and> length (wb_request s) = REQUEST_SIZE"

lemma add_request_ok:
  assumes "holds s d" and "NUL \<notin> set t" and "length d + length t < REQUEST_SIZE"
  obtains r where "add_request t s = Inr (s\<lparr>wb_request := r\<rparr>)" "holds (s\<lparr>wb_request := r\<rparr>) (d @ t)"
proof -
  obtain r where "strcat (wb_request s) t = Inr r" "c_str r = Inr (d @ t)" "length r = length (wb_request s)"
    using assms strcat_ok [of "wb_request s" d t] by (auto simp: holds_def)
  then show thesis using assms(1) that by (simp add: add_request_def holds_def)
qed

text \<open>Several texts, one after the other.\<close>

fun add_pieces :: "string list \<Rightarrow> webbench \<Rightarrow> webbench res" where
  "add_pieces [] s = Inr s"
| "add_pieces (t # ts) s = res_bind (add_request t s) (add_pieces ts)"

lemma add_pieces_ok:
  assumes "holds s d" and "NUL \<notin> set (concat ts)" and "length d + length (concat ts) < REQUEST_SIZE"
  shows "\<exists>r. add_pieces ts s = Inr (s\<lparr>wb_request := r\<rparr>) \<and> holds (s\<lparr>wb_request := r\<rparr>) (d @ concat ts)"
  using assms
proof (induction ts arbitrary: s d)
  case Nil
  then show ?case by (intro exI [of _ "wb_request s"]) simp
next
  case (Cons t ts)
  obtain r where "add_request t s = Inr (s\<lparr>wb_request := r\<rparr>)" "holds (s\<lparr>wb_request := r\<rparr>) (d @ t)"
    using add_request_ok [of s d t] Cons.prems by auto
  then show ?case using Cons.IH [of "s\<lparr>wb_request := r\<rparr>" "d @ t"] Cons.prems by simp
qed

text \<open>What follows may depend on the globals other than the request array.\<close>

lemma add_pieces_then:
  assumes "\<And>r. G (s\<lparr>wb_request := r\<rparr>) = add_pieces us (s\<lparr>wb_request := r\<rparr>)"
  shows "res_bind (add_pieces ts s) G = add_pieces (ts @ us) s"
  using assms
proof (induction ts arbitrary: s)
  case Nil
  from Nil [of "wb_request s"] show ?case by simp
next
  case (Cons t ts)
  then show ?case by (cases "strcat (wb_request s) t") (simp_all add: add_request_def)
qed

lemma request_frame:
  "wb_http10 (s\<lparr>wb_request := r\<rparr>) = wb_http10 s" "wb_proxyhost (s\<lparr>wb_request := r\<rparr>) = wb_proxyhost s"
  "wb_force_reload (s\<lparr>wb_request := r\<rparr>) = wb_force_reload s"
  "s\<lparr>wb_request := r, wb_request := r'\<rparr> = s\<lparr>wb_request := r'\<rparr>"
  by simp_all

lemma add_pieces_Nil: "add_pieces [] = Inr"
  by (rule ext) simp

lemma add_pieces_single: "add_pieces [t] = add_request t"
  by (rule ext) (simp add: add_pieces_Nil)

lemma add_when_pieces: "add_when b t s = add_pieces (if b then [t] else []) s"
  by (simp add: add_when_def add_pieces_Nil)

definition version_text :: "int \<Rightarrow> string" where
  "version_text v = (if v = 1 then '' HTTP/1.0'' else if v = 2 then '' HTTP/1.1'' else [])"

definition agent_text :: string where
  "agent_text = ''User-Agent: WebBench '' @ PROGRAM_VERSION @ CRLF"

definition header_pieces :: "webbench \<Rightarrow> string \<Rightarrow> string list" where
  "header_pieces s h =
     (if wb_http10 s > 0 then [agent_text] else []) @
     (if wb_proxyhost s = None \<and> wb_http10 s > 0 then [''Host: '', h, CRLF] else []) @
     (if wb_force_reload s \<noteq> 0 \<and> wb_proxyhost s \<noteq> None then [''Pragma: no-cache'' @ CRLF] else []) @
     (if wb_http10 s > 1 then [''Connection: close'' @ CRLF] else []) @ (if wb_http10 s > 0 then [CRLF] else [])"

lemma fixed_texts:
  "NUL \<notin> set CRLF" "NUL \<notin> set (version_text v)" "NUL \<notin> set agent_text" "NUL \<notin> set (method_text m)"
  "length CRLF = 2" "length (version_text v) \<le> 9" "length agent_text = 26" "length (method_text m) \<le> 7"
  by (simp_all add: CRLF_def NUL_def version_text_def agent_text_def PROGRAM_VERSION_def method_text_def)

lemma header_pieces_size:
  "NUL \<notin> set h \<Longrightarrow> NUL \<notin> set (concat (header_pieces s h))"
  "length (concat (header_pieces s h)) \<le> length h + 73"
  using fixed_texts(1,3,5,7) by (auto simp: header_pieces_def NUL_def)

lemma add_host_pieces:
  "c_str (wb_host s) = Inr h \<Longrightarrow>
   add_host s = add_pieces (if wb_proxyhost s = None \<and> wb_http10 s > 0 then [''Host: '', h, CRLF] else []) s"
  by (cases "strcat (wb_request s) ''Host: ''") (auto simp: add_host_def add_pieces_single add_request_def)

definition version_pieces :: "webbench \<Rightarrow> string list" where
  "version_pieces s = (if wb_http10 s = 1 \<or> wb_http10 s = 2 then [version_text (wb_http10 s)] else []) @ [CRLF]"

lemma request_headers_pieces:
  assumes "c_str (wb_host s) = Inr h"
  shows "request_headers s = add_pieces (version_pieces s @ header_pieces s h) s"
proof -
  have v: "(if wb_http10 s = 1 then add_request '' HTTP/1.0'' s
      else if wb_http10 s = 2 then add_request '' HTTP/1.1'' s else Inr s) =
      add_pieces (if wb_http10 s = 1 \<or> wb_http10 s = 2 then [version_text (wb_http10 s)] else []) s"
    by (simp add: version_text_def add_pieces_Nil)
  have h: "add_host (s\<lparr>wb_request := r\<rparr>) =
      add_pieces (if wb_proxyhost s = None \<and> wb_http10 s > 0 then [''Host: '', h, CRLF] else []) (s\<lparr>wb_request := r\<rparr>)" for r
    using assms by (simp add: add_host_pieces)
  show ?thesis
    unfolding request_headers_def v
    unfolding version_pieces_def header_pieces_def append_assoc agent_text_def [symmetric]
      add_when_pieces add_pieces_single [symmetric]
    by (rule add_pieces_then, (simp only: request_frame h)?)+
qed

subsection \<open>The URL\<close>

definition authority :: "string \<Rightarrow> string" where
  "authority u = takeWhile (\<lambda>c. c \<noteq> CHR ''/'') u"

definition host_part :: "string \<Rightarrow> string" where
  "host_part u = takeWhile (\<lambda>c. c \<noteq> CHR '':'') (authority u)"

definition port_part :: "string \<Rightarrow> string" where
  "port_part u = drop (length (host_part u) + 1) (authority u)"

definition url_port :: "string \<Rightarrow> int \<Rightarrow> int" where
  "url_port u dflt =
     (if CHR '':'' \<in> set (authority u)
      then (case atoi (port_part u) of Inr p \<Rightarrow> if p = 0 then 80 else p | Inl e \<Rightarrow> dflt) else dflt)"

lemma authority_append [simp]: "CHR ''/'' \<notin> set a \<Longrightarrow> authority (a @ CHR ''/'' # r) = a"
  by (induction a) (auto simp: authority_def)

lemma url_parts [simp]:
  assumes "CHR '':'' \<notin> set h" and "CHR ''/'' \<notin> set h" and "CHR ''/'' \<notin> set p"
  shows "host_part (h @ CHR ''/'' # r) = h" "host_part (h @ CHR '':'' # p @ CHR ''/'' # r) = h"
    "port_part (h @ CHR '':'' # p @ CHR ''/'' # r) = p"
proof -
  have t: "takeWhile (\<lambda>c. c \<noteq> CHR '':'') h = h" "takeWhile (\<lambda>c. c \<noteq> CHR '':'') (h @ CHR '':'' # p) = h"
    using assms(1) by (auto intro: takeWhile_eq_all_conv [THEN iffD2]) (induction h; auto)
  have a: "authority (h @ CHR '':'' # p @ CHR ''/'' # r) = h @ CHR '':'' # p"
    using authority_append [of "h @ CHR '':'' # p" r] assms(2,3) by simp
  show "host_part (h @ CHR ''/'' # r) = h" using assms(2) t(1) by (simp add: host_part_def)
  show "host_part (h @ CHR '':'' # p @ CHR ''/'' # r) = h" using a t(2) by (simp add: host_part_def)
  then show "port_part (h @ CHR '':'' # p @ CHR ''/'' # r) = p" using a by (simp add: port_part_def)
qed

lemma url_cases:
  assumes "CHR ''/'' \<in> set u"
  obtains (no_port) h r where "u = h @ CHR ''/'' # r" "CHR '':'' \<notin> set h" "CHR ''/'' \<notin> set h"
  | (port) h p r where "u = h @ CHR '':'' # p @ CHR ''/'' # r" "CHR '':'' \<notin> set h" "CHR ''/'' \<notin> set h"
      "CHR ''/'' \<notin> set p"
proof -
  obtain a r where a: "u = a @ CHR ''/'' # r" "CHR ''/'' \<notin> set a"
    using assms by (meson split_list_first)
  show thesis
  proof (cases "CHR '':'' \<in> set a")
    case True
    then obtain h p where "a = h @ CHR '':'' # p" "CHR '':'' \<notin> set h" by (meson split_list_first)
    then show ?thesis using a port [of h p r] by simp
  qed (use a no_port in blast)
qed

lemma url_host_ok:
  assumes "CHR ''/'' \<in> set u" and "NUL \<notin> set u" and "wb_host s = bzero MAXHOSTNAMELEN"
    and "length (host_part u) < MAXHOSTNAMELEN" and "length (port_part u) < 10"
  shows "\<exists>h. url_host u s = Inr (s\<lparr>wb_host := h, wb_proxyport := url_port u (wb_proxyport s)\<rparr>) \<and>
    c_str h = Inr (host_part u)"
  using assms(1)
proof (cases rule: url_cases)
  case (no_port h r)
  have "strncpy (wb_host s) u (length h) = strncpy (bzero 64) u (length h)" "NUL \<notin> set u" "length h < 64"
    using assms no_port by (simp_all add: MAXHOSTNAMELEN_def)
  then obtain x where x: "strncpy (wb_host s) u (length h) = Inr x" "c_str x = Inr h"
    using strncpy_ok [of u "length h" 64] no_port(1) by auto
  have "std_find (CHR ''/'') u = length h" "strchr u (CHR ''/'') = Some (length h)"
    using no_port by (simp_all add: strchr_def std_find_append)
  moreover have "strchr u (CHR '':'') = None \<or> (\<exists>c. strchr u (CHR '':'') = Some c \<and> length h \<le> c)"
    using no_port by (auto simp: strchr_def std_find_def takeWhile_append)
  moreover have "url_port u d = d" for d using no_port by (simp add: url_port_def)
  ultimately show ?thesis using x no_port by (auto simp: url_host_def)
next
  case (port h p r)
  have n: "NUL \<notin> set u" "length h < 64" "length p < 10" "NUL \<notin> set (p @ CHR ''/'' # r)"
    using assms port by (auto simp: MAXHOSTNAMELEN_def)
  obtain x where x: "strncpy (wb_host s) u (length h) = Inr x" "c_str x = Inr h"
    using strncpy_ok [OF n(1,2)] port(1) assms(3) by (auto simp: MAXHOSTNAMELEN_def)
  obtain y where y: "strncpy (bzero 10) (p @ CHR ''/'' # r) (length p) = Inr y" "c_str y = Inr p" "NUL \<in> set y"
    using strncpy_ok [OF n(4,3)] by auto
  obtain v where v: "atoi p = Inr v" using atoi_small [of p] n(3) by auto
  have "atoi_array y = atoi p" using y(2,3) by (simp add: atoi_array_def c_str_def)
  moreover have "strchr u (CHR '':'') = Some (length h)"
    using port by (simp add: strchr_def std_find_append)
  moreover have "std_find (CHR ''/'') u = length h + 1 + length p"
    using std_find_append [of "CHR ''/''" "h @ CHR '':'' # p" r] port by simp
  then have "strchr u (CHR ''/'') = Some (length h + 1 + length p)" using assms(1) by (simp add: strchr_def)
  moreover have "drop (length h + 1) u = p @ CHR ''/'' # r" using port(1) by simp
  moreover have "url_port u d = (if v = 0 then 80 else v)" for d
    using port v authority_append [of "h @ CHR '':'' # p" r] by (simp add: url_port_def)
  ultimately show ?thesis using x y(1) v port by (auto simp: url_host_def)
qed

definition request_text :: "string \<Rightarrow> nat \<Rightarrow> webbench \<Rightarrow> string" where
  "request_text url i s =
     method_text (wb_method s) @ '' '' @
     (if wb_proxyhost s = None then drop (length (authority (drop i url))) (drop i url) else url) @
     concat (version_pieces s) @ concat (header_pieces s (host_part (drop i url)))"

lemma raise_http10_fields [simp]:
  "wb_proxyhost (raise_http10 b v s) = wb_proxyhost s" "wb_method (raise_http10 b v s) = wb_method s"
  "wb_host (raise_http10 b v s) = wb_host s" "wb_request (raise_http10 b v s) = wb_request s"
  "wb_proxyport (raise_http10 b v s) = wb_proxyport s" "wb_force_reload (raise_http10 b v s) = wb_force_reload s"
  "wb_clients (raise_http10 b v s) = wb_clients s" "wb_benchtime (raise_http10 b v s) = wb_benchtime s" "wb_force (raise_http10 b v s) = wb_force s"
  "wb_speed (raise_http10 b v s) = wb_speed s" "wb_failed (raise_http10 b v s) = wb_failed s" "wb_bytes (raise_http10 b v s) = wb_bytes s"
  "raise_http10 b v (s\<lparr>wb_host := a, wb_request := r\<rparr>) = (raise_http10 b v s)\<lparr>wb_host := a, wb_request := r\<rparr>"
  by (simp_all add: raise_http10_def)

lemma adjust_http10_fields [simp]:
  "wb_proxyhost (adjust_http10 s) = wb_proxyhost s" "wb_method (adjust_http10 s) = wb_method s"
  "wb_host (adjust_http10 s) = wb_host s" "wb_request (adjust_http10 s) = wb_request s"
  "wb_proxyport (adjust_http10 s) = wb_proxyport s" "wb_force_reload (adjust_http10 s) = wb_force_reload s"
  "wb_clients (adjust_http10 s) = wb_clients s" "wb_benchtime (adjust_http10 s) = wb_benchtime s" "wb_force (adjust_http10 s) = wb_force s"
  "wb_speed (adjust_http10 s) = wb_speed s" "wb_failed (adjust_http10 s) = wb_failed s" "wb_bytes (adjust_http10 s) = wb_bytes s"
  "adjust_http10 (s\<lparr>wb_host := a, wb_request := r\<rparr>) = (adjust_http10 s)\<lparr>wb_host := a, wb_request := r\<rparr>"
  by (simp_all add: adjust_http10_def Let_def)

lemma adjust_http10_version:
  "wb_http10 s \<in> {0, 1, 2} \<Longrightarrow> wb_http10 (adjust_http10 s) \<in> {0, 1, 2}"
  "wb_http10 s \<in> {0, 1, 2} \<Longrightarrow> wb_method s = METHOD_HEAD \<Longrightarrow> 1 \<le> wb_http10 (adjust_http10 s)"
  "wb_http10 s \<in> {0, 1, 2} \<Longrightarrow> wb_method s \<in> {METHOD_OPTIONS, METHOD_TRACE} \<Longrightarrow> wb_http10 (adjust_http10 s) = 2"
  by (auto simp: adjust_http10_def raise_http10_def method_defs Let_def)

lemma request_text_fields [simp]:
  "header_pieces (s\<lparr>wb_host := a\<rparr>) h = header_pieces s h" "version_pieces (s\<lparr>wb_host := a\<rparr>) = version_pieces s"
  "header_pieces (s\<lparr>wb_proxyport := p\<rparr>) h = header_pieces s h"
  "version_pieces (s\<lparr>wb_proxyport := p\<rparr>) = version_pieces s"
  "header_pieces (s\<lparr>wb_request := b\<rparr>) h = header_pieces s h" "version_pieces (s\<lparr>wb_request := b\<rparr>) = version_pieces s"
  by (simp_all add: header_pieces_def version_pieces_def)

lemma version_pieces_size: "NUL \<notin> set (concat (version_pieces s))" "length (concat (version_pieces s)) \<le> 11"
  using fixed_texts(1,2,5,6) by (auto simp: version_pieces_def)

text \<open>The method and the space that begin the request.\<close>

lemma request_start:
  obtains r where "run (res_bind (strcpy (bzero REQUEST_SIZE) (method_text m)) (\<lambda>r.
      add_request '' '' (s\<lparr>wb_request := r\<rparr>))) = Inr (Next (s\<lparr>wb_request := r\<rparr>))"
    "holds (s\<lparr>wb_request := r\<rparr>) (method_text m @ '' '')"
proof -
  obtain a where a: "strcpy (bzero REQUEST_SIZE) (method_text m) = Inr a" "c_str a = Inr (method_text m)"
    "length a = REQUEST_SIZE"
    using strcpy_ok [of "method_text m" "bzero REQUEST_SIZE"] fixed_texts(4,8) [of m]
    by (auto simp: bzero_def REQUEST_SIZE_def)
  then have "holds (s\<lparr>wb_request := a\<rparr>) (method_text m)" by (simp add: holds_def)
  then obtain r where "add_request '' '' (s\<lparr>wb_request := a\<rparr>) = Inr (s\<lparr>wb_request := r\<rparr>)"
    "holds (s\<lparr>wb_request := r\<rparr>) (method_text m @ '' '')"
    using add_request_ok [of "s\<lparr>wb_request := a\<rparr>" "method_text m" "'' ''"] fixed_texts(8) [of m]
    by (auto simp: NUL_def REQUEST_SIZE_def)
  then show thesis using that a(1) by (simp add: run_def)
qed

text \<open>Target and headers.\<close>

lemma request_rest:
  assumes hs: "holds s d" and h: "c_str (wb_host s) = Inr h" and t: "NUL \<notin> set t" "length d + length t + length h < 1900"
  shows "\<exists>r. res_bind (add_request t s) request_headers = Inr (s\<lparr>wb_request := r\<rparr>) \<and>
    c_str r = Inr (d @ t @ concat (version_pieces s) @ concat (header_pieces s h))"
proof -
  let ?ps = "version_pieces s @ header_pieces s h"
  have n: "NUL \<notin> set h" using c_str_no_NUL [OF h] .
  obtain r where r: "add_request t s = Inr (s\<lparr>wb_request := r\<rparr>)" "holds (s\<lparr>wb_request := r\<rparr>) (d @ t)"
    using add_request_ok [OF hs t(1)] t(2) by (auto simp: REQUEST_SIZE_def)
  have "NUL \<notin> set (concat ?ps)" using header_pieces_size(1) [OF n, of s] version_pieces_size(1) [of s] by simp
  moreover have "length (d @ t) + length (concat ?ps) < REQUEST_SIZE"
    using header_pieces_size(2) [of s h] version_pieces_size(2) [of s] t(2) by (simp add: REQUEST_SIZE_def)
  ultimately obtain r' where "add_pieces ?ps (s\<lparr>wb_request := r\<rparr>) = Inr (s\<lparr>wb_request := r'\<rparr>)"
    "holds (s\<lparr>wb_request := r'\<rparr>) ((d @ t) @ concat ?ps)"
    using add_pieces_ok [OF r(2), of ?ps] by auto
  then show ?thesis
    using r(1) request_headers_pieces [of "s\<lparr>wb_request := r\<rparr>" h] h by (auto simp: holds_def)
qed

lemma check_url_Next:
  assumes "check_url url s = Next i"
  shows "length url \<le> 1500" "CHR ''/'' \<in> set (drop i url)"
  using assms by (auto simp: check_url_def strchr_def split: option.splits if_splits)

lemma check_url_adjusted: "check_url url ((adjust_http10 s)\<lparr>wb_host := a, wb_request := b\<rparr>) = check_url url s"
  by (simp add: check_url_def cong: option.case_cong if_cong)

lemma build_request_start:
  obtains r where "holds ((adjust_http10 s)\<lparr>wb_host := bzero MAXHOSTNAMELEN, wb_request := r\<rparr>) (method_text (wb_method s) @ '' '')"
    "build_request url s = run_bind (Inr (check_url url s)) (\<lambda>i.
       run (res_bind (request_target url i ((adjust_http10 s)\<lparr>wb_host := bzero MAXHOSTNAMELEN, wb_request := r\<rparr>))
         request_headers))"
proof -
  obtain r where "run (res_bind (strcpy (bzero REQUEST_SIZE) (method_text (wb_method s))) (\<lambda>r.
      add_request '' '' ((adjust_http10 s)\<lparr>wb_host := bzero MAXHOSTNAMELEN, wb_request := r\<rparr>))) =
        Inr (Next ((adjust_http10 s)\<lparr>wb_host := bzero MAXHOSTNAMELEN, wb_request := r\<rparr>))"
    "holds ((adjust_http10 s)\<lparr>wb_host := bzero MAXHOSTNAMELEN, wb_request := r\<rparr>) (method_text (wb_method s) @ '' '')"
    using request_start [of "wb_method s" "(adjust_http10 s)\<lparr>wb_host := bzero MAXHOSTNAMELEN\<rparr>"] by blast
  then show thesis using that [of r] by (simp add: build_request_def Let_def check_url_adjusted)
qed

lemma bzero_host: "c_str (bzero MAXHOSTNAMELEN) = Inr []"
  by (simp add: MAXHOSTNAMELEN_def)

lemma request_direct:
  assumes d: "holds s d" "length d \<le> 8" and s: "wb_proxyhost s = None" "wb_host s = bzero MAXHOSTNAMELEN"
    and u: "NUL \<notin> set url" "length url \<le> 1500" "CHR ''/'' \<in> set (drop i url)"
    and small: "length (host_part (drop i url)) < MAXHOSTNAMELEN" "length (port_part (drop i url)) < 10"
  shows "\<exists>s'. res_bind (request_target url i s) request_headers = Inr s' \<and>
    c_str (wb_request s') = Inr (d @ drop (length (authority (drop i url))) (drop i url) @
      concat (version_pieces s) @ concat (header_pieces s (host_part (drop i url)))) \<and>
    c_str (wb_host s') = Inr (host_part (drop i url)) \<and>
    wb_proxyport s' = url_port (drop i url) (wb_proxyport s)"
proof -
  let ?u = "drop i url"
  define t where "t = drop (length (authority ?u)) ?u"
  have nu: "NUL \<notin> set ?u" "NUL \<notin> set t" using u(1) unfolding t_def by (meson in_set_dropD)+
  obtain h where h: "url_host ?u s = Inr (s\<lparr>wb_host := h, wb_proxyport := url_port ?u (wb_proxyport s)\<rparr>)"
    "c_str h = Inr (host_part ?u)"
    using url_host_ok [OF u(3) nu(1) s(2) small] by blast
  define s1 where "s1 = s\<lparr>wb_host := h, wb_proxyport := url_port ?u (wb_proxyport s)\<rparr>"
  have "std_find (CHR ''/'') ?u = length (authority ?u)" by (simp add: std_find_def authority_def)
  then have e: "request_target url i s = add_request t s1"
    using s(1) h(1) by (simp add: request_target_def Let_def s1_def t_def)
  have hs: "holds s1 d" "c_str (wb_host s1) = Inr (host_part ?u)" using d(1) h(2) by (simp_all add: holds_def s1_def)
  have "length t \<le> length url" by (simp add: t_def)
  then have ln: "length d + length t + length (host_part ?u) < 1900"
    using d(2) u(2) small(1) by (simp add: MAXHOSTNAMELEN_def)
  obtain r where "res_bind (add_request t s1) request_headers = Inr (s1\<lparr>wb_request := r\<rparr>)"
    "c_str r = Inr (d @ t @ concat (version_pieces s1) @ concat (header_pieces s1 (host_part ?u)))"
    using request_rest [OF hs nu(2) ln] by (elim exE conjE) (rule that)
  then show ?thesis unfolding e by (intro exI [of _ "s1\<lparr>wb_request := r\<rparr>"]) (simp add: s1_def t_def h(2))
qed

lemma request_proxied:
  assumes d: "holds s d" "length d \<le> 8" and s: "wb_proxyhost s \<noteq> None" "wb_host s = bzero MAXHOSTNAMELEN"
    and u: "NUL \<notin> set url" "length url \<le> 1500"
  shows "\<exists>s'. res_bind (request_target url i s) request_headers = Inr s' \<and>
    c_str (wb_request s') = Inr (d @ url @ concat (version_pieces s) @ concat (header_pieces s h))"
proof -
  have "c_str (wb_host s) = Inr []" "length d + length url + length ([] :: string) < 1900"
    using s(2) d(2) u(2) bzero_host by simp_all
  moreover have "header_pieces s [] = header_pieces s h" using s(1) by (auto simp: header_pieces_def)
  moreover have "request_target url i s = add_request url s" using s(1) by (auto simp: request_target_def)
  ultimately show ?thesis using request_rest [OF d(1) _ u(1), of "[]"] by (metis webbench.select_convs(13) webbench.surjective webbench.update_convs(13))
qed

lemma build_request_ok:
  assumes n: "NUL \<notin> set url" and i: "check_url url s = Next i"
    and small: "wb_proxyhost s = None \<Longrightarrow>
      length (host_part (drop i url)) < MAXHOSTNAMELEN \<and> length (port_part (drop i url)) < 10"
  shows "\<exists>s'. build_request url s = Inr (Next s') \<and>
    c_str (wb_request s') = Inr (request_text url i (adjust_http10 s)) \<and>
    (wb_proxyhost s = None \<longrightarrow> c_str (wb_host s') = Inr (host_part (drop i url)) \<and>
       wb_proxyport s' = url_port (drop i url) (wb_proxyport s))"
proof -
  let ?m = "method_text (wb_method s) @ '' ''"
  let ?s = "\<lambda>r. (adjust_http10 s)\<lparr>wb_host := bzero MAXHOSTNAMELEN, wb_request := r\<rparr>"
  obtain r where r: "holds ((adjust_http10 s)\<lparr>wb_host := bzero MAXHOSTNAMELEN, wb_request := r\<rparr>) ?m"
    and b: "build_request url s = run_bind (Inr (check_url url s)) (\<lambda>i.
       run (res_bind (request_target url i ((adjust_http10 s)\<lparr>wb_host := bzero MAXHOSTNAMELEN, wb_request := r\<rparr>))
         request_headers))"
    by (rule build_request_start)
  have m: "length ?m \<le> 8" using fixed_texts(8) [of "wb_method s"] by simp
  show ?thesis
  proof (cases "wb_proxyhost s")
    case None
    obtain s' where "res_bind (request_target url i (?s r)) request_headers = Inr s'"
      "c_str (wb_request s') = Inr (request_text url i (adjust_http10 s))"
      "c_str (wb_host s') = Inr (host_part (drop i url))" "wb_proxyport s' = url_port (drop i url) (wb_proxyport s)"
      using request_direct [OF r m _ _ n check_url_Next [OF i]] small None by (simp add: request_text_def) metis
    then show ?thesis using b i by (simp add: run_def)
  next
    case (Some p)
    obtain s' where "res_bind (request_target url i (?s r)) request_headers = Inr s'"
      "c_str (wb_request s') = Inr (request_text url i (adjust_http10 s))"
      using request_proxied [OF r m _ _ n check_url_Next(1) [OF i], of i "host_part (drop i url)"] Some
      by (simp add: request_text_def) metis
    then show ?thesis using b i Some by (simp add: run_def)
  qed
qed

text \<open>A host name of more than 64 bytes or a port text of more than 10 overruns its array.\<close>

lemma build_request_long_host:
  assumes i: "check_url url s = Next i" and d: "wb_proxyhost s = None"
    and large: "MAXHOSTNAMELEN < length (host_part (drop i url)) \<or> 10 < length (port_part (drop i url))"
  shows "build_request url s = Inl OutOfBounds"
proof -
  let ?u = "drop i url"
  obtain r where b: "build_request url s = run_bind (Inr (check_url url s)) (\<lambda>i.
       run (res_bind (request_target url i ((adjust_http10 s)\<lparr>wb_host := bzero MAXHOSTNAMELEN, wb_request := r\<rparr>))
         request_headers))"
    by (rule build_request_start)
  let ?s = "(adjust_http10 s)\<lparr>wb_host := bzero MAXHOSTNAMELEN, wb_request := r\<rparr>"
  have long: "strncpy (bzero m) t n = Inl OutOfBounds" if "m < n" for m t n
    using that by (simp add: strncpy_def bzero_def)
  from check_url_Next(2) [OF i] have "url_host ?u ?s = Inl OutOfBounds"
  proof (cases rule: url_cases)
    case (no_port h q)
    then have "strchr ?u (CHR ''/'') = Some (length h)" "std_find (CHR ''/'') ?u = length h" "host_part ?u = h"
      by (simp_all add: strchr_def std_find_append)
    moreover have "port_part ?u = []" using no_port authority_append [of h q] by (simp add: port_part_def)
    ultimately show ?thesis
      using long large no_port by (auto simp: url_host_def strchr_def std_find_def takeWhile_append)
  next
    case (port h p q)
    then have "strchr ?u (CHR '':'') = Some (length h)" "host_part ?u = h" "port_part ?u = p"
      by (simp_all add: strchr_def std_find_append)
    moreover have "strchr ?u (CHR ''/'') = Some (length h + 1 + length p)"
      using std_find_append [of "CHR ''/''" "h @ CHR '':'' # p" q] port by (simp add: strchr_def)
    moreover have "strncpy (bzero MAXHOSTNAMELEN) ?u (length h) = Inl OutOfBounds \<or>
        (\<exists>x. strncpy (bzero MAXHOSTNAMELEN) ?u (length h) = Inr x) \<and>
        strncpy (bzero 10) (drop (length h + 1) ?u) (length p) = Inl OutOfBounds"
      using large \<open>host_part ?u = h\<close> \<open>port_part ?u = p\<close> by (auto simp: strncpy_def bzero_def)
    ultimately show ?thesis by (auto simp: url_host_def)
  qed
  then show ?thesis using b i d by (simp add: request_target_def Let_def run_def)
qed

subsection \<open>The loop of a client\<close>

text \<open>Reads that end: how they end, and the bytes before the end.\<close>

definition reads_end :: "(bool \<times> int) list \<Rightarrow> bool" where
  "reads_end rs \<longleftrightarrow> list_ex (\<lambda>(expired, i). expired \<or> i \<le> 0) rs"

fun read_well :: "(bool \<times> int) list \<Rightarrow> bool" where
  "read_well [] \<longleftrightarrow> False"
| "read_well ((expired, i) # rs) \<longleftrightarrow> (if expired \<or> i \<le> 0 then expired \<or> i = 0 else read_well rs)"

definition read_bytes :: "(bool \<times> int) list \<Rightarrow> int" where
  "read_bytes rs = sum_list (map snd (takeWhile (\<lambda>(expired, i). \<not> expired \<and> 0 < i) rs))"

text \<open>When an attempt sends its request, when it counts as a page, and the bytes it reads.\<close>

definition sent_request :: "int \<Rightarrow> webbench \<Rightarrow> attempt \<Rightarrow> bool" where
  "sent_request rlen s a \<longleftrightarrow> 0 \<le> at_socket a \<and> rlen = at_write a \<and> (wb_http10 s = 0 \<longrightarrow> at_shutdown a = 0)"

definition succeeds :: "int \<Rightarrow> webbench \<Rightarrow> attempt \<Rightarrow> bool" where
  "succeeds rlen s a \<longleftrightarrow> sent_request rlen s a \<and> (wb_force s = 0 \<longrightarrow> read_well (at_reads a)) \<and> at_close a = 0"

definition attempt_bytes :: "int \<Rightarrow> webbench \<Rightarrow> attempt \<Rightarrow> int" where
  "attempt_bytes rlen s a = (if sent_request rlen s a \<and> wb_force s = 0 then read_bytes (at_reads a) else 0)"

lemma read_bytes_nonneg: "0 \<le> read_bytes rs"
  by (induction rs) (auto simp: read_bytes_def)

lemma read_loop_ok:
  assumes "reads_end rs" and "0 \<le> wb_bytes s" and "wb_bytes s + read_bytes rs < 2 ^ 31"
  shows "read_loop rs s = Some (Inr (read_well rs, s\<lparr>wb_bytes := wb_bytes s + read_bytes rs\<rparr>))"
  using assms
proof (induction rs arbitrary: s)
  case (Cons r rs)
  obtain expired i where r: "r = (expired, i)" by (cases r)
  show ?case
  proof (cases "expired \<or> i \<le> 0")
    case False
    have b: "read_bytes (r # rs) = i + read_bytes rs" using r False by (simp add: read_bytes_def)
    then have "check_int (wb_bytes s + i) = Inr (wb_bytes s + i)"
      using Cons.prems read_bytes_nonneg [of rs] False by (simp add: check_int_def)
    then show ?thesis
      using Cons.IH [of "s\<lparr>wb_bytes := wb_bytes s + i\<rparr>"] Cons.prems r b False
      by (simp add: reads_end_def add.assoc)
  qed (use r in \<open>auto simp: read_bytes_def\<close>)
qed (simp add: reads_end_def)

text \<open>One attempt counts one page or one failure.\<close>

lemma try_once_ok:
  assumes re: "reads_end (at_reads a)" and c: "0 \<le> wb_speed s" "0 \<le> wb_failed s" "0 \<le> wb_bytes s"
    "wb_speed s + wb_failed s < 2 ^ 31 - 1" "wb_bytes s + attempt_bytes rlen s a < 2 ^ 31"
  shows "try_once rlen a s = Some (Inr (s\<lparr>wb_speed := wb_speed s + of_bool (succeeds rlen s a),
    wb_failed := wb_failed s + of_bool (\<not> succeeds rlen s a), wb_bytes := wb_bytes s + attempt_bytes rlen s a\<rparr>))"
proof -
  have f: "count_failed (s\<lparr>wb_bytes := n\<rparr>) = Inr (s\<lparr>wb_failed := wb_failed s + 1, wb_bytes := n\<rparr>)"
    "finish_attempt a (s\<lparr>wb_bytes := n\<rparr>) = Inr (s\<lparr>wb_speed := wb_speed s + of_bool (at_close a = 0),
       wb_failed := wb_failed s + of_bool (at_close a \<noteq> 0), wb_bytes := n\<rparr>)" for n
    using c by (simp_all add: count_failed_def finish_attempt_def check_int_def)
  show ?thesis
  proof (cases "sent_request rlen s a \<and> wb_force s = 0")
    case True
    then have "read_loop (at_reads a) s =
        Some (Inr (read_well (at_reads a), s\<lparr>wb_bytes := wb_bytes s + read_bytes (at_reads a)\<rparr>))"
      using read_loop_ok [OF re c(3)] c(5) by (simp add: attempt_bytes_def)
    then show ?thesis
      using True f by (auto simp: try_once_def succeeds_def attempt_bytes_def sent_request_def)
  next
    case False
    then show ?thesis
      using f [of "wb_bytes s"] by (auto simp: try_once_def succeeds_def attempt_bytes_def sent_request_def)
  qed
qed

text \<open>The counts of several attempts.\<close>

definition pages :: "int \<Rightarrow> webbench \<Rightarrow> attempt list \<Rightarrow> int" where
  "pages rlen s as = int (length (filter (succeeds rlen s) as))"

definition failures :: "int \<Rightarrow> webbench \<Rightarrow> attempt list \<Rightarrow> int" where
  "failures rlen s as = int (length (filter (\<lambda>a. \<not> succeeds rlen s a) as))"

definition total_bytes :: "int \<Rightarrow> webbench \<Rightarrow> attempt list \<Rightarrow> int" where
  "total_bytes rlen s as = sum_list (map (attempt_bytes rlen s) as)"

lemma counts_frame:
  "succeeds rlen (s\<lparr>wb_speed := x, wb_failed := y, wb_bytes := z\<rparr>) = succeeds rlen s"
  "attempt_bytes rlen (s\<lparr>wb_speed := x, wb_failed := y, wb_bytes := z\<rparr>) = attempt_bytes rlen s"
  by (simp_all add: fun_eq_iff succeeds_def attempt_bytes_def sent_request_def)

lemma attempt_bytes_nonneg: "0 \<le> attempt_bytes rlen s a"
  by (simp add: attempt_bytes_def read_bytes_nonneg)

lemma total_bytes_nonneg: "0 \<le> total_bytes rlen s as"
  by (induction as) (auto simp: total_bytes_def attempt_bytes_nonneg)

lemma benchcore_loop_ok:
  assumes "list_all (\<lambda>a. \<not> at_expired a \<and> reads_end (at_reads a)) as" and "at_expired l"
    and "0 \<le> wb_speed s" "0 \<le> wb_failed s" "0 \<le> wb_bytes s"
    and "wb_speed s + wb_failed s + int (length as) < 2 ^ 31" and "wb_bytes s + total_bytes rlen s as < 2 ^ 31"
  shows "benchcore_loop rlen (as @ l # rest) s =
    Some (Inr (s\<lparr>wb_speed := wb_speed s + pages rlen s as,
      wb_failed := max 0 (wb_failed s + failures rlen s as - 1), wb_bytes := wb_bytes s + total_bytes rlen s as\<rparr>))"
  using assms
proof (induction as arbitrary: s)
  case Nil
  then show ?case by (auto simp: pages_def failures_def total_bytes_def)
next
  case (Cons a as)
  let ?s = "s\<lparr>wb_speed := wb_speed s + of_bool (succeeds rlen s a),
    wb_failed := wb_failed s + of_bool (\<not> succeeds rlen s a), wb_bytes := wb_bytes s + attempt_bytes rlen s a\<rparr>"
  have t: "total_bytes rlen s (a # as) = attempt_bytes rlen s a + total_bytes rlen s as"
    by (simp add: total_bytes_def)
  have "try_once rlen a s = Some (Inr ?s)"
    using Cons.prems t total_bytes_nonneg [of rlen s as] by (intro try_once_ok) auto
  moreover have f: "pages rlen ?s = pages rlen s" "failures rlen ?s = failures rlen s"
    "total_bytes rlen ?s = total_bytes rlen s"
    by (simp_all add: fun_eq_iff pages_def failures_def total_bytes_def counts_frame)
  moreover have "benchcore_loop rlen (as @ l # rest) ?s =
    Some (Inr (?s\<lparr>wb_speed := wb_speed ?s + pages rlen ?s as,
      wb_failed := max 0 (wb_failed ?s + failures rlen ?s as - 1), wb_bytes := wb_bytes ?s + total_bytes rlen ?s as\<rparr>))"
    using Cons.prems t attempt_bytes_nonneg [of rlen s a] by (intro Cons.IH) (simp_all add: f)
  ultimately show ?case
    using Cons.prems(1) t by (cases "succeeds rlen s a") (simp_all add: pages_def failures_def add.assoc)
qed

subsection \<open>The results of the clients\<close>

lemma collect_loop_ok:
  assumes "rs \<noteq> []" and "wb_clients s = int (length rs)"
    and "list_all (\<lambda>(x, y, z). 0 \<le> x \<and> 0 \<le> y \<and> 0 \<le> z) rs"
    and "0 \<le> wb_speed s" "0 \<le> wb_failed s" "0 \<le> wb_bytes s"
    and "wb_speed s + sum_list (map fst rs) < 2 ^ 31" "wb_failed s + sum_list (map (\<lambda>r. fst (snd r)) rs) < 2 ^ 31"
      "wb_bytes s + sum_list (map (\<lambda>r. snd (snd r)) rs) < 2 ^ 31"
  shows "collect_loop ends (map (\<lambda>(x, y, z). [x, y, z]) rs @ more_results) ijk s =
    Some (Inr (fst (last rs), s\<lparr>wb_speed := wb_speed s + sum_list (map fst rs),
      wb_failed := wb_failed s + sum_list (map (\<lambda>r. fst (snd r)) rs),
      wb_bytes := wb_bytes s + sum_list (map (\<lambda>r. snd (snd r)) rs), wb_clients := 0\<rparr>))"
  using assms
proof (induction rs arbitrary: s ijk)
  case (Cons r rs)
  obtain x y z i j k where r: "r = (x, y, z)" "ijk = (i, j, k)" by (metis prod_cases3)
  have nn: "0 \<le> sum_list (map fst rs)" "0 \<le> sum_list (map (\<lambda>r. fst (snd r)) rs)" "0 \<le> sum_list (map (\<lambda>r. snd (snd r)) rs)"
    using Cons.prems(3) by (induction rs) auto
  have "check_int (wb_speed s + x) = Inr (wb_speed s + x)" "check_int (wb_failed s + y) = Inr (wb_failed s + y)"
    "check_int (wb_bytes s + z) = Inr (wb_bytes s + z)"
    using Cons.prems(3-) nn r by (simp_all add: check_int_def)
  then show ?case
    using Cons.IH [of "s\<lparr>wb_speed := wb_speed s + x, wb_failed := wb_failed s + y, wb_bytes := wb_bytes s + z,
        wb_clients := wb_clients s - 1\<rparr>"] Cons.prems r
    by (cases "rs = []") (simp_all add: assign_def add.assoc)
qed simp

lemma fork_loop_all:
  "list_all (\<lambda>p. 0 < p) pids \<Longrightarrow>
   fork_loop pids i p (i + int (length pids)) = Some (i + int (length pids), if pids = [] then p else last pids)"
proof (induction pids arbitrary: i p)
  case (Cons q pids)
  then show ?case using Cons.IH [of "i + 1" q] by (simp add: algebra_simps)
qed simp

subsection \<open>Well-formed options\<close>

text \<open>
  The values that the options and the arrays may take: a known method and version, and
  the arrays with their sizes, the counters at zero. The building of the request changes
  nothing but the arrays and the port, and before it the version is raised to the least that the method needs.
\<close>

definition wb_typed :: "webbench \<Rightarrow> bool" where
  "wb_typed s \<longleftrightarrow> wb_http10 s \<in> {0, 1, 2} \<and> wb_method s \<in> {METHOD_GET, METHOD_HEAD, METHOD_OPTIONS, METHOD_TRACE} \<and>
     length (wb_host s) = MAXHOSTNAMELEN \<and> length (wb_request s) = REQUEST_SIZE \<and>
     wb_speed s = 0 \<and> wb_failed s = 0 \<and> wb_bytes s = 0"

definition same_options :: "webbench \<Rightarrow> webbench \<Rightarrow> bool" where
  "same_options s s' \<longleftrightarrow> wb_http10 s' = wb_http10 s \<and> wb_method s' = wb_method s \<and> wb_clients s' = wb_clients s \<and>
     wb_benchtime s' = wb_benchtime s \<and> wb_force s' = wb_force s \<and> length (wb_host s') = length (wb_host s) \<and>
     length (wb_request s') = length (wb_request s) \<and>
     wb_speed s' = wb_speed s \<and> wb_failed s' = wb_failed s \<and> wb_bytes s' = wb_bytes s"

lemma same_options_refl [simp]: "same_options s s"
  by (simp add: same_options_def)

lemma same_options_trans: "same_options s t \<Longrightarrow> same_options t u \<Longrightarrow> same_options s u"
  by (simp add: same_options_def)

lemma length_write_fit: "i + length ys \<le> length xs \<Longrightarrow> length (write_at i ys xs) = length xs"
  by (simp add: write_at_def)

lemma strcat_length: "strcat a t = Inr a' \<Longrightarrow> length a' = length a"
  by (auto simp: strcat_def length_write_fit split: if_splits)

lemma strncpy_length: "strncpy a t n = Inr a' \<Longrightarrow> length a' = length a"
  by (auto simp: strncpy_def length_write_fit split: if_splits)

lemma add_request_same: "add_request t s = Inr s' \<Longrightarrow> same_options s s'"
  by (auto simp: add_request_def same_options_def strcat_length)

lemma add_when_same: "add_when b t s = Inr s' \<Longrightarrow> same_options s s'"
  by (auto simp: add_when_def add_request_same split: if_splits)

lemma run_Next: "run r = Inr (Next x) \<longleftrightarrow> r = Inr x"
  by (cases r) (auto simp: run_def)

lemma run_bind_Next: "run_bind r f = Inr (Next y) \<longleftrightarrow> (\<exists>x. r = Inr (Next x) \<and> f x = Inr (Next y))"
  by (cases "(r, f)" rule: run_bind.cases) auto

lemma same_bind:
  assumes "res_bind r g = Inr s'" and "\<And>s1. r = Inr s1 \<Longrightarrow> same_options s s1"
    and "\<And>s1. g s1 = Inr s' \<Longrightarrow> same_options s1 s'"
  shows "same_options s s'"
  using assms same_options_trans unfolding res_bind_Inr_iff by blast

lemma add_host_same: "add_host s = Inr s' \<Longrightarrow> same_options s s'"
  by (simp add: add_host_def res_bind_Inr_iff split: if_splits) (meson add_request_same same_options_trans)

lemma request_headers_same: "request_headers s = Inr s' \<Longrightarrow> same_options s s'"
  unfolding request_headers_def
proof (elim same_bind)
  show "same_options s s1" if "(if wb_http10 s = 1 then add_request '' HTTP/1.0'' s
      else if wb_http10 s = 2 then add_request '' HTTP/1.1'' s else Inr s) = Inr s1" for s1
    using that add_request_same by (metis same_options_refl sum.inject(2))
qed (rule add_request_same add_when_same add_host_same, assumption)+

lemma url_host_same: "url_host u s = Inr s' \<Longrightarrow> same_options s s'"
  by (simp add: url_host_def res_bind_Inr_iff split: option.splits if_splits)
     (auto simp: same_options_def strncpy_length)

lemma request_target_same: "request_target url i s = Inr s' \<Longrightarrow> same_options s s'"
  by (simp add: request_target_def Let_def res_bind_Inr_iff split: if_splits)
     (meson add_request_same same_options_trans url_host_same)+

lemma build_request_same:
  assumes "build_request url s = Inr (Next s')"
  shows "same_options ((adjust_http10 s)\<lparr>wb_host := bzero MAXHOSTNAMELEN, wb_request := bzero REQUEST_SIZE\<rparr>) s'"
proof -
  obtain r where r: "holds ((adjust_http10 s)\<lparr>wb_host := bzero MAXHOSTNAMELEN, wb_request := r\<rparr>) (method_text (wb_method s) @ '' '')"
    and b: "build_request url s = run_bind (Inr (check_url url s)) (\<lambda>i.
       run (res_bind (request_target url i ((adjust_http10 s)\<lparr>wb_host := bzero MAXHOSTNAMELEN, wb_request := r\<rparr>))
         request_headers))"
    by (rule build_request_start)
  have "same_options ((adjust_http10 s)\<lparr>wb_host := bzero MAXHOSTNAMELEN, wb_request := bzero REQUEST_SIZE\<rparr>)
      ((adjust_http10 s)\<lparr>wb_host := bzero MAXHOSTNAMELEN, wb_request := r\<rparr>)"
    using r by (simp add: same_options_def holds_def bzero_def)
  moreover obtain i s1 where "request_target url i ((adjust_http10 s)\<lparr>wb_host := bzero MAXHOSTNAMELEN, wb_request := r\<rparr>) = Inr s1"
    "request_headers s1 = Inr s'"
    using assms b by (auto simp: run_bind_Next run_Next res_bind_Inr_iff)
  ultimately show ?thesis by (meson request_target_same request_headers_same same_options_trans)
qed

lemma proxy_option_typed: "proxy_option a s = Inr (Next s') \<Longrightarrow> wb_typed s \<Longrightarrow> wb_typed s'"
  by (auto simp: proxy_option_def run_Next res_bind_Inr_iff wb_typed_def split: option.splits if_splits)

lemma short_option_typed: "short_option c a s = Inr (Next s') \<Longrightarrow> wb_typed s \<Longrightarrow> wb_typed s'"
  unfolding short_option_def
  by (simp split: if_splits add: run_Next res_bind_Inr_iff proxy_option_typed) (auto simp: wb_typed_def)

lemma long_flag_typed: "long_flag n s = Some s' \<Longrightarrow> wb_typed s \<Longrightarrow> wb_typed s'"
  unfolding long_flag_def by (simp split: if_splits) (auto simp: wb_typed_def)

lemma wb_option_typed: "wb_option a s = Inr (Next s') \<Longrightarrow> wb_typed s \<Longrightarrow> wb_typed s'"
  by (cases a) (auto split: option.splits dest: short_option_typed long_flag_typed)

lemma options_loop_typed:
  assumes "options_loop as s = Inr (Next s')" and "wb_typed s"
  shows "wb_typed s'"
  using assms
proof (induction as arbitrary: s)
  case (Cons a as)
  then show ?case using wb_option_typed by (auto simp: run_bind_Next)
qed simp

section \<open>Properties\<close>

text \<open>
  C24: the request. A URL that the checks reject ends the program with status 2. From an
  accepted URL whose host name has less than 64 bytes and whose port text less than 10 (or
  any accepted URL, with a proxy) the request is built without leaving the arrays: it is
  the request line, with the path of the URL or, for a proxy, all of it, and the headers
  that the options ask for, and with its end mark it fits the 2048 bytes; host and port
  are those of the URL. From one with a longer host name than 64 bytes or a longer port
  text than 10, and no proxy, the copy overruns its array. (A host name of exactly 64
  bytes or a port text of exactly 10 fills its array without an end mark and is left open.)
\<close>

theorem build_request_fits:
  assumes "NUL \<notin> set url"
  shows "case check_url url s of
      Exit n \<Rightarrow> n = 2 \<and> build_request url s = Inr (Exit 2)
    | Next i \<Rightarrow>
        (wb_proxyhost s \<noteq> None \<or>
         length (host_part (drop i url)) < MAXHOSTNAMELEN \<and> length (port_part (drop i url)) < 10 \<longrightarrow>
         (\<exists>s'. build_request url s = Inr (Next s') \<and>
            c_str (wb_request s') = Inr (request_text url i (adjust_http10 s)) \<and>
            (wb_proxyhost s = None \<longrightarrow> c_str (wb_host s') = Inr (host_part (drop i url)) \<and>
               wb_proxyport s' = url_port (drop i url) (wb_proxyport s)))) \<and>
        (wb_proxyhost s = None \<and>
         (MAXHOSTNAMELEN < length (host_part (drop i url)) \<or> 10 < length (port_part (drop i url))) \<longrightarrow>
         build_request url s = Inl OutOfBounds)"
proof (cases "check_url url s")
  case (Exit n)
  then have "n = 2" by (auto simp: check_url_def split: option.splits if_splits)
  then show ?thesis using Exit build_request_start [of s url] by auto
next
  case (Next i)
  show ?thesis
    unfolding Next outcome.case
    by (intro conjI impI build_request_ok [OF assms Next] build_request_long_host [OF Next]) auto
qed

theorem build_request_fits_witness:
  "\<exists>s'. build_request ''http://localhost:8080/index'' webbench_globals = Inr (Next s') \<and>
     c_str (wb_request s') = Inr (''GET /index HTTP/1.0'' @ CRLF @ ''User-Agent: WebBench 1.5'' @ CRLF @
       ''Host: localhost'' @ CRLF @ CRLF) \<and> wb_proxyport s' = 8080"
proof -
  let ?url = "''http://localhost:8080/index''"
  have c: "check_url ?url webbench_globals = Next 7"
    by (simp add: check_url_def strchr_def strncasecmp_eq_def lower_def webbench_globals_def)
  have d: "drop 7 ?url = ''localhost:8080/index''" by simp
  have h: "authority ''localhost:8080/index'' = ''localhost:8080''" "host_part ''localhost:8080/index'' = ''localhost''"
    "port_part ''localhost:8080/index'' = ''8080''"
    by (simp_all add: authority_def host_part_def port_part_def)
  have p: "atoi ''8080'' = Inr 8080"
    by (simp add: atoi_def atoi_sign_def atoi_digits_def Let_def isspace_def is_digit_def undec_def of_char_def)
  have a: "adjust_http10 webbench_globals = webbench_globals"
    by (simp add: adjust_http10_def raise_http10_def webbench_globals_def method_defs Let_def)
  have t: "request_text ?url 7 (adjust_http10 webbench_globals) = ''GET /index HTTP/1.0'' @ CRLF @
      ''User-Agent: WebBench 1.5'' @ CRLF @ ''Host: localhost'' @ CRLF @ CRLF"
    unfolding a request_text_def d h
    by (simp add: webbench_globals_def method_text_def method_defs version_pieces_def version_text_def
        header_pieces_def agent_text_def PROGRAM_VERSION_def)
  have u: "url_port ''localhost:8080/index'' 80 = 8080" unfolding url_port_def h p by simp
  have n: "NUL \<notin> set ?url" by (simp add: NUL_def)
  have small: "length (host_part ''localhost:8080/index'') < MAXHOSTNAMELEN \<and> length (port_part ''localhost:8080/index'') < 10"
    unfolding h by (simp add: MAXHOSTNAMELEN_def)
  have g: "wb_proxyhost webbench_globals = None" "wb_proxyport webbench_globals = 80"
    by (simp_all add: webbench_globals_def)
  show ?thesis
    using build_request_fits [where s = webbench_globals, OF n] small unfolding c outcome.case t d h g u by blast
qed

text \<open>
  The loop of a client ends when the timer expires, provided that each exchange
  before comes to an end, and counts exactly: a page for each attempt that sent its
  request, read an answer to its end and closed the connection, a failure for each of the
  others but the one that the signal interrupted, and the bytes read.
\<close>

theorem benchcore_counts:
  assumes "c_str (wb_request s) = Inr req"
    and "list_all (\<lambda>a. \<not> at_expired a \<and> reads_end (at_reads a)) as" and "at_expired l"
    and "0 \<le> wb_speed s" "0 \<le> wb_failed s" "0 \<le> wb_bytes s"
    and "wb_speed s + wb_failed s + int (length as) < 2 ^ 31"
    and "wb_bytes s + total_bytes (int (length req)) s as < 2 ^ 31"
  shows "benchcore 0 (as @ l # rest) s =
    Some (Inr (Next (s\<lparr>wb_speed := wb_speed s + pages (int (length req)) s as,
      wb_failed := max 0 (wb_failed s + failures (int (length req)) s as - 1),
      wb_bytes := wb_bytes s + total_bytes (int (length req)) s as\<rparr>)))"
  using benchcore_loop_ok [OF assms(2-), of rest] assms(1) by (simp add: benchcore_def run_def)

definition good_attempt :: attempt where
  "good_attempt = \<lparr>at_expired = False, at_socket = 4, at_write = 0, at_shutdown = 0,
     at_reads = [(False, 100), (False, 20), (False, 0)], at_close = 0\<rparr>"

theorem benchcore_counts_witness:
  "benchcore 0 [good_attempt, good_attempt\<lparr>at_socket := - 1\<rparr>, good_attempt\<lparr>at_reads := [(False, - 1)]\<rparr>,
      good_attempt\<lparr>at_expired := True\<rparr>] webbench_globals =
     Some (Inr (Next (webbench_globals\<lparr>wb_speed := 1, wb_failed := 1, wb_bytes := 120\<rparr>)))"
  using benchcore_counts [of webbench_globals "[]" "[good_attempt, good_attempt\<lparr>at_socket := - 1\<rparr>,
      good_attempt\<lparr>at_reads := [(False, - 1)]\<rparr>]" "good_attempt\<lparr>at_expired := True\<rparr>" "[]"]
  by (simp add: webbench_globals_def REQUEST_SIZE_def good_attempt_def reads_end_def pages_def failures_def
      total_bytes_def attempt_bytes_def succeeds_def sent_request_def read_bytes_def)

text \<open>
  The parent reports the sums of the counters of all its clients, however their lines
  arrive in the pipe, and its exit status is the number of pages of the client whose line
  came last.
\<close>

theorem bench_reports_sums:
  assumes "0 \<le> be_connect e" "be_pipe e = 0" "be_fdopen e"
    and "be_forks e = pids" "length pids = length rs" "list_all (\<lambda>p. 0 < p) pids" "rs \<noteq> []"
    and "wb_clients s = int (length rs)" and "be_results e = map (\<lambda>(x, y, z). [x, y, z]) rs"
    and "list_all (\<lambda>(x, y, z). 0 \<le> x \<and> 0 \<le> y \<and> 0 \<le> z) rs"
    and "sum_list (map fst rs) < 2 ^ 31" "sum_list (map (\<lambda>r. fst (snd r)) rs) < 2 ^ 31"
      "sum_list (map (\<lambda>r. snd (snd r)) rs) < 2 ^ 31"
  shows "bench e s = Some (Inr (Next (fst (last rs), ParentReport (sum_list (map fst rs))
    (sum_list (map (\<lambda>r. fst (snd r)) rs)) (sum_list (map (\<lambda>r. snd (snd r)) rs)))))"
proof -
  have "pids \<noteq> []" using assms(5,7) by auto
  then have "fork_loop pids 0 0 (wb_clients s) = Some (wb_clients s, last pids)" "0 < last pids"
    using fork_loop_all [OF assms(6), of 0 0] assms(5,6,8) by (auto simp: list_all_iff)
  then show ?thesis
    using collect_loop_ok [of rs "s\<lparr>wb_speed := 0, wb_failed := 0, wb_bytes := 0\<rparr>" pipe_ends "[]"] assms
    by (simp add: bench_def bench_parent_def run_def)
qed

definition two_clients :: bench_env where
  "two_clients = \<lparr>be_connect = 3, be_pipe = 0, be_forks = [100, 101], be_fdopen = True, be_sigaction = 0,
     be_attempts = [], be_results = [[5, 1, 600], [7, 0, 840]], be_j = 0, be_k = 0\<rparr>"

theorem bench_reports_sums_witness:
  "bench two_clients (webbench_globals\<lparr>wb_clients := 2\<rparr>) = Some (Inr (Next (7, ParentReport 12 1 1440)))"
  using bench_reports_sums [of two_clients "[100, 101]" "[(5, 1, 600), (7, 0, 840)]" "webbench_globals\<lparr>wb_clients := 2\<rparr>"]
  by (simp add: two_clients_def)

lemma prepared_typed:
  assumes "wb_prepare as arg webbench_globals = Inr (Next (info, s))"
  shows "wb_typed s \<and> wb_clients s \<noteq> 0 \<and> wb_benchtime s \<noteq> 0 \<and>
    (wb_method s = METHOD_HEAD \<longrightarrow> 1 \<le> wb_http10 s) \<and>
    (wb_method s \<in> {METHOD_OPTIONS, METHOD_TRACE} \<longrightarrow> wb_http10 s = 2)"
proof -
  have t0: "wb_typed webbench_globals"
    by (simp add: wb_typed_def webbench_globals_def bzero_def)
  obtain s1 url where s1: "options_loop as webbench_globals = Inr (Next s1)" and url: "arg = Some url"
    using assms by (auto simp: wb_prepare_def run_bind_Next split: if_splits option.splits)
  define s3 where "s3 = (let s2 = (if wb_clients s1 = 0 then s1\<lparr>wb_clients := 1\<rparr> else s1)
    in if wb_benchtime s2 = 0 then s2\<lparr>wb_benchtime := 60\<rparr> else s2)"
  have b: "build_request url s3 = Inr (Next s)"
    using assms s1 url unfolding wb_prepare_def s3_def by (simp add: Let_def run_bind_Next split: if_splits)
  have t3: "wb_typed s3" "wb_clients s3 \<noteq> 0" "wb_benchtime s3 \<noteq> 0"
    using options_loop_typed [OF s1 t0] by (auto simp: s3_def wb_typed_def Let_def)
  then have "wb_http10 s3 \<in> {0, 1, 2}" by (simp add: wb_typed_def)
  note version = adjust_http10_version [OF this]
  have "wb_method s = wb_method s3" "wb_http10 s = wb_http10 (adjust_http10 s3)" "wb_clients s \<noteq> 0" "wb_benchtime s \<noteq> 0"
    using build_request_same [OF b] t3(2,3) by (simp_all add: same_options_def)
  moreover from this have "wb_typed s"
    using build_request_same [OF b] t3(1) version(1) by (simp add: same_options_def wb_typed_def bzero_def)
  ultimately show ?thesis using version(2,3) by simp
qed

text \<open>
  C36: the options. Whatever options the program is given, when it comes to run the
  benchmark the method and the version are known ones, the version is at least the one
  that the method needs, there is a client and a time to run, the arrays have their
  sizes, and nothing has been counted yet.
\<close>

theorem prepared_options_typed:
  assumes "wb_prepare as arg webbench_globals = Inr (Next (info, s))"
  shows "wb_typed s \<and> wb_clients s \<noteq> 0 \<and> wb_benchtime s \<noteq> 0 \<and>
    (wb_method s = METHOD_HEAD \<longrightarrow> 1 \<le> wb_http10 s) \<and>
    (wb_method s \<in> {METHOD_OPTIONS, METHOD_TRACE} \<longrightarrow> wb_http10 s = 2)"
  using prepared_typed [OF assms] .

lemma head_request_prepared:
  "\<exists>info s. wb_prepare [LongOpt ''head'' [], ShortOpt (CHR ''9'') []] (Some ''http://h/'') webbench_globals =
     Inr (Next (info, s)) \<and> wb_method s = METHOD_HEAD"
proof -
  let ?s = "webbench_globals\<lparr>wb_method := METHOD_HEAD, wb_http10 := 0\<rparr>"
  have c: "check_url ''http://h/'' ?s = Next 7"
    by (simp add: check_url_def strchr_def strncasecmp_eq_def lower_def webbench_globals_def)
  have "NUL \<notin> set ''http://h/''" "length (host_part (drop 7 ''http://h/'')) < MAXHOSTNAMELEN"
    "length (port_part (drop 7 ''http://h/'')) < 10"
    by (simp_all add: NUL_def host_part_def port_part_def authority_def MAXHOSTNAMELEN_def)
  then obtain s where s: "build_request ''http://h/'' ?s = Inr (Next s)" using build_request_ok [OF _ c] by blast
  have "wb_method s = METHOD_HEAD" using build_request_same [OF s] by (simp add: same_options_def)
  moreover have "options_loop [LongOpt ''head'' [], ShortOpt (CHR ''9'') []] webbench_globals = Inr (Next ?s)"
    by (simp add: long_flag_def short_option_def)
  ultimately show ?thesis using s by (simp add: wb_prepare_def Let_def webbench_globals_def)
qed

theorem prepared_options_typed_witness:
  "\<exists>info s. wb_prepare [LongOpt ''head'' [], ShortOpt (CHR ''9'') []] (Some ''http://h/'') webbench_globals =
     Inr (Next (info, s)) \<and> wb_typed s \<and> 1 \<le> wb_http10 s"
  using head_request_prepared prepared_options_typed by metis

end
