(* ===== verification/Webbench_Run.thy ===== *)
theory Webbench_Run
  imports Webbench "HOL-Library.Multiset"
begin

text \<open>
  A whole run of the benchmark (\<open>src/webbench/webbench.c\<close>): \<open>main\<close> from its arguments to its
  exit status, with the clients that \<open>bench\<close> forks, each on its own copy of the globals, and
  the pipe through which they report to the parent.
\<close>

section \<open>Operations\<close>

text \<open>What the system calls of one client return.\<close>

record client =
  cl_sigaction :: int
  cl_attempts :: "attempt list"
  cl_fdopen :: bool

text \<open>The \<open>i\<close>th client: \<open>fork\<close> gave the parent the clients before it and returns 0 in it.\<close>

definition client_env :: "bench_env \<Rightarrow> nat \<Rightarrow> client \<Rightarrow> bench_env" where
  "client_env e i c = e\<lparr>be_forks := take i (be_forks e) @ [0], be_sigaction := cl_sigaction c,
     be_attempts := cl_attempts c, be_fdopen := cl_fdopen c\<rparr>"

text \<open>The line that a process writes to the pipe, as the numbers that \<open>fscanf\<close> reads back.\<close>

fun pipe_line :: "(int \<times> report) outcome res option \<Rightarrow> int list list" where
  "pipe_line (Some (Inr (Next (n, ChildReport x y z)))) = [[x, y, z]]"
| "pipe_line r = []"

definition pipe_text :: "bench_env \<Rightarrow> client list \<Rightarrow> webbench \<Rightarrow> int list list" where
  "pipe_text e cs s = concat (map (\<lambda>(i, c). pipe_line (bench (client_env e i c) s)) (enumerate 0 cs))"

text \<open>
  The parent reads the lines that the clients have written, each as a whole, in any order,
  and nothing else.
\<close>

definition pipe_delivers :: "bench_env \<Rightarrow> client list \<Rightarrow> webbench \<Rightarrow> bool" where
  "pipe_delivers e cs s \<longleftrightarrow> mset (be_results e) = mset (pipe_text e cs s)"

definition webbench_main :: "bench_env \<Rightarrow> wb_arg list \<Rightarrow> string option \<Rightarrow> (int \<times> report) outcome res option" where
  "webbench_main e as arg =
     (case wb_prepare as arg webbench_globals of
        Inl err \<Rightarrow> Some (Inl err)
      | Inr (Exit n) \<Rightarrow> Some (Inr (Exit n))
      | Inr (Next (info, s)) \<Rightarrow> bench e s)"

text \<open>
  The result that the parent prints; the two rates are computed in floating point, from a
  count and the time to run, and are parameters.
\<close>

fun result_text :: "(int \<Rightarrow> int \<Rightarrow> int) \<Rightarrow> (int \<Rightarrow> int \<Rightarrow> int) \<Rightarrow> int \<Rightarrow> report \<Rightarrow> string" where
  "result_text per_min per_sec benchtime (ParentReport speed failed bytes) =
     CHR 0x0A # ''Speed='' @ dec_int (per_min (speed + failed) benchtime) @ '' pages/min, '' @
     dec_int (per_sec bytes benchtime) @ '' bytes/sec.'' @ [CHR 0x0A] @
     ''Requests: '' @ dec_int speed @ '' susceed, '' @ dec_int failed @ '' failed.'' @ [CHR 0x0A]"
| "result_text per_min per_sec benchtime r = []"

section \<open>A client\<close>

text \<open>The attempts of a client before its timer expires, and what it counts in them.\<close>

definition tried :: "client \<Rightarrow> attempt list" where
  "tried c = takeWhile (\<lambda>a. \<not> at_expired a) (cl_attempts c)"

definition counts :: "int \<Rightarrow> webbench \<Rightarrow> client \<Rightarrow> int \<times> int \<times> int" where
  "counts rlen s c = (pages rlen s (tried c), max 0 (failures rlen s (tried c) - 1), total_bytes rlen s (tried c))"

text \<open>The timer expires, every exchange ends, and the counters stay in their range.\<close>

definition client_ends :: "int \<Rightarrow> webbench \<Rightarrow> client \<Rightarrow> bool" where
  "client_ends rlen s c \<longleftrightarrow> list_ex at_expired (cl_attempts c) \<and> list_all (\<lambda>a. reads_end (at_reads a)) (tried c) \<and>
     int (length (tried c)) < 2 ^ 31 \<and> total_bytes rlen s (tried c) < 2 ^ 31"

definition reports :: "client \<Rightarrow> bool" where
  "reports c \<longleftrightarrow> cl_sigaction c = 0 \<and> cl_fdopen c"

definition line_of :: "int \<times> int \<times> int \<Rightarrow> int list" where
  "line_of r = [fst r, fst (snd r), snd (snd r)]"

lemma attempts_split:
  assumes "client_ends rlen s c"
  obtains l rest where "cl_attempts c = tried c @ l # rest" "at_expired l"
proof -
  obtain l where l: "l \<in> set (cl_attempts c)" "at_expired l"
    using assms by (auto simp: client_ends_def list_ex_iff)
  then have "dropWhile (\<lambda>a. \<not> at_expired a) (cl_attempts c) \<noteq> []" by (auto simp: dropWhile_eq_Nil_conv)
  then obtain x rest where "dropWhile (\<lambda>a. \<not> at_expired a) (cl_attempts c) = x # rest" "at_expired x"
    by (metis hd_dropWhile list.collapse list.sel(1))
  then show thesis using that [of x rest] takeWhile_dropWhile_id [of "\<lambda>a. \<not> at_expired a" "cl_attempts c"]
    by (simp add: tried_def)
qed

definition uncounted :: "webbench \<Rightarrow> bool" where
  "uncounted s \<longleftrightarrow> wb_speed s = 0 \<and> wb_failed s = 0 \<and> wb_bytes s = 0"

lemma client_counts:
  assumes "client_ends (int (length req)) s c" and "c_str (wb_request s) = Inr req" and "uncounted s"
  shows "\<exists>s'. benchcore 0 (cl_attempts c) s = Some (Inr (Next s')) \<and>
    (wb_speed s', wb_failed s', wb_bytes s') = counts (int (length req)) s c"
proof -
  obtain l rest where l: "cl_attempts c = tried c @ l # rest" "at_expired l"
    using attempts_split [OF assms(1)] .
  have "list_all (\<lambda>a. \<not> at_expired a \<and> reads_end (at_reads a)) (tried c)"
    using assms(1) by (auto simp: client_ends_def list_all_iff tried_def dest: set_takeWhileD)
  from benchcore_loop_ok [OF this l(2), of s "int (length req)" rest] show ?thesis
    using assms l(1) by (simp add: benchcore_def run_def counts_def client_ends_def uncounted_def)
qed

lemma fork_loop_client:
  "list_all (\<lambda>p. 0 < p) ps \<Longrightarrow> i + int (length ps) < n \<Longrightarrow>
   fork_loop (ps @ [0]) i p n = Some (i + int (length ps), 0)"
proof (induction ps arbitrary: i p)
  case (Cons q ps)
  then show ?case using Cons.IH [of "i + 1" q] by simp
qed simp

text \<open>The connection and the pipe are there, and every \<open>fork\<close> of the parent succeeds.\<close>

definition bench_starts :: "bench_env \<Rightarrow> webbench \<Rightarrow> bool" where
  "bench_starts e s \<longleftrightarrow> 0 \<le> be_connect e \<and> be_pipe e = 0 \<and> list_all (\<lambda>p. 0 < p) (be_forks e) \<and>
     int (length (be_forks e)) = wb_clients s"

lemma client_bench:
  assumes "bench_starts e s" and "i < length (be_forks e)"
  shows "bench (client_env e i c) s = bench_child (client_env e i c) s"
proof -
  have "list_all (\<lambda>p. 0 < p) (take i (be_forks e))"
    using assms(1) by (auto simp: bench_starts_def list_all_iff dest: in_set_takeD)
  from fork_loop_client [OF this, of 0 "wb_clients s" 0] show ?thesis
    using assms by (simp add: bench_starts_def bench_def client_env_def)
qed

lemma client_line:
  assumes "bench_starts e s" and "i < length (be_forks e)" and "client_ends (int (length req)) s c"
    and "c_str (wb_request s) = Inr req" and "uncounted s"
  shows "pipe_line (bench (client_env e i c) s) = (if reports c then [line_of (counts (int (length req)) s c)] else [])"
proof -
  obtain s' where s': "benchcore 0 (cl_attempts c) s = Some (Inr (Next s'))"
    "(wb_speed s', wb_failed s', wb_bytes s') = counts (int (length req)) s c"
    using client_counts [OF assms(3-5)] by blast
  have "benchcore (cl_sigaction c) (cl_attempts c) s = Some (Inr (Exit 3))" if "cl_sigaction c \<noteq> 0"
    using that by (simp add: benchcore_def)
  then show ?thesis
    using client_bench [OF assms(1,2), of c] s'(1) s'(2) [symmetric]
    by (cases "cl_sigaction c = 0") (auto simp: reports_def bench_child_def client_env_def line_of_def split_beta)
qed

lemma pipe_text_lines:
  assumes "bench_starts e s" and "length cs = length (be_forks e)"
    and "list_all (client_ends (int (length req)) s) cs" and "c_str (wb_request s) = Inr req" and "uncounted s"
  shows "pipe_text e cs s = map (\<lambda>c. line_of (counts (int (length req)) s c)) (filter reports cs)"
proof -
  have "map (\<lambda>(i, c). pipe_line (bench (client_env e i c) s)) (enumerate 0 cs) =
      map (\<lambda>c. if reports c then [line_of (counts (int (length req)) s c)] else []) cs"
    using assms client_line [OF assms(1) _ _ assms(4,5)]
    by (intro nth_equalityI) (auto simp: nth_enumerate_eq list_all_length)
  moreover have "concat (map (\<lambda>c. if reports c then [f c] else []) cs) = map f (filter reports cs)" for f :: "client \<Rightarrow> int list"
    by (induction cs) auto
  ultimately show ?thesis by (simp add: pipe_text_def)
qed
section \<open>The parent\<close>

text \<open>The sums of the counters of the clients.\<close>

definition speed_sum :: "(int \<times> int \<times> int) list \<Rightarrow> int" where
  "speed_sum rs = sum_list (map fst rs)"

definition failed_sum :: "(int \<times> int \<times> int) list \<Rightarrow> int" where
  "failed_sum rs = sum_list (map (\<lambda>r. fst (snd r)) rs)"

definition bytes_sum :: "(int \<times> int \<times> int) list \<Rightarrow> int" where
  "bytes_sum rs = sum_list (map (\<lambda>r. snd (snd r)) rs)"

lemmas sum_defs = speed_sum_def failed_sum_def bytes_sum_def

definition sums_fit :: "(int \<times> int \<times> int) list \<Rightarrow> bool" where
  "sums_fit rs \<longleftrightarrow> speed_sum rs < 2 ^ 31 \<and> failed_sum rs < 2 ^ 31 \<and> bytes_sum rs < 2 ^ 31"

definition nonneg :: "int \<times> int \<times> int \<Rightarrow> bool" where
  "nonneg r \<longleftrightarrow> 0 \<le> fst r \<and> 0 \<le> fst (snd r) \<and> 0 \<le> snd (snd r)"

lemma sums_permute:
  assumes "mset rs = mset qs"
  shows "speed_sum rs = speed_sum qs" "failed_sum rs = failed_sum qs" "bytes_sum rs = bytes_sum qs"
proof -
  have "sum_list (map f rs) = sum_list (map f qs)" for f :: "int \<times> int \<times> int \<Rightarrow> int"
    using assms by (metis mset_map sum_mset_sum_list)
  then show "speed_sum rs = speed_sum qs" "failed_sum rs = failed_sum qs" "bytes_sum rs = bytes_sum qs"
    by (simp_all only: sum_defs)
qed

text \<open>Lines in another order are the lines of the counters in another order.\<close>

lemma lines_permuted:
  assumes "mset ls = mset (map line_of rs)"
  obtains qs where "ls = map line_of qs" "mset qs = mset rs"
proof -
  let ?g = "\<lambda>l :: int list. (l ! 0, l ! 1, l ! 2)"
  have g: "?g (line_of r) = r" for r by (simp add: line_of_def)
  have "set ls = set (map line_of rs)" using assms by (rule mset_eq_setD)
  then have "line_of (?g l) = l" if "l \<in> set ls" for l using that g by auto
  then have "map line_of (map ?g ls) = ls" by (simp add: map_idI)
  moreover have "mset (map ?g ls) = mset rs"
    using assms g by (simp add: image_mset.compositionality comp_def)
  ultimately show thesis using that by metis
qed

lemma sums_nonneg:
  assumes "list_all nonneg rs"
  shows "0 \<le> speed_sum rs" "0 \<le> failed_sum rs" "0 \<le> bytes_sum rs"
  using assms by (induction rs) (auto simp: sum_defs nonneg_def)

text \<open>With fewer lines than clients a parent that holds the write end waits for ever.\<close>

lemma collect_loop_blocks:
  assumes "int (length rs) < wb_clients s" and "WriteEnd \<in> ends" and "list_all nonneg rs"
    and "0 \<le> wb_speed s" "0 \<le> wb_failed s" "0 \<le> wb_bytes s"
    and "wb_speed s + speed_sum rs < 2 ^ 31" "wb_failed s + failed_sum rs < 2 ^ 31" "wb_bytes s + bytes_sum rs < 2 ^ 31"
  shows "collect_loop ends (map line_of rs) ijk s = None"
  using assms
proof (induction rs arbitrary: s ijk)
  case (Cons r rs)
  obtain i j k where ijk: "ijk = (i, j, k)" by (cases ijk)
  have r: "0 \<le> fst r" "0 \<le> fst (snd r)" "0 \<le> snd (snd r)" and rs: "list_all nonneg rs"
    using Cons.prems(3) nonneg_def [of r] by simp_all
  have "check_int (wb_speed s + fst r) = Inr (wb_speed s + fst r)"
    "check_int (wb_failed s + fst (snd r)) = Inr (wb_failed s + fst (snd r))"
    "check_int (wb_bytes s + snd (snd r)) = Inr (wb_bytes s + snd (snd r))"
    using Cons.prems(4-) r sums_nonneg [OF rs] by (simp_all add: check_int_def sum_defs)
  then show ?case
    using Cons.IH [of "s\<lparr>wb_speed := wb_speed s + fst r, wb_failed := wb_failed s + fst (snd r),
        wb_bytes := wb_bytes s + snd (snd r), wb_clients := wb_clients s - 1\<rparr>"] Cons.prems(1,2,4-) ijk r rs
    by (simp add: assign_def line_of_def sum_defs add.assoc)
next
  case Nil
  then show ?case by (cases ijk) simp
qed

lemma line_of_split: "line_of = (\<lambda>(x, y, z). [x, y, z])"
  by (simp add: fun_eq_iff line_of_def)

lemma nonneg_split: "nonneg = (\<lambda>(x, y, z). 0 \<le> x \<and> 0 \<le> y \<and> 0 \<le> z)"
  by (simp add: fun_eq_iff nonneg_def)

lemma parent_collects:
  assumes "bench_starts e s" and "be_fdopen e" and "mset (be_results e) = mset (map line_of rs)"
    and "list_all nonneg rs" and "sums_fit rs" and "0 < wb_clients s" and "int (length rs) \<le> wb_clients s"
  shows "if int (length rs) = wb_clients s
    then \<exists>status. bench e s =
      Some (Inr (Next (status, ParentReport (speed_sum rs) (failed_sum rs) (bytes_sum rs))))
    else bench e s = None"
proof -
  obtain qs where qs: "be_results e = map line_of qs" "mset qs = mset rs"
    using lines_permuted [OF assms(3)] .
  note sums = sums_permute [OF qs(2)]
  have len: "length qs = length rs" and set: "set qs = set rs"
    using qs(2) by (metis size_mset, metis mset_eq_setD)
  have nn: "list_all nonneg qs" using assms(4) set by (simp add: list_all_iff)
  have fit: "speed_sum qs < 2 ^ 31" "failed_sum qs < 2 ^ 31" "bytes_sum qs < 2 ^ 31"
    using assms(5) sums by (simp_all add: sums_fit_def)
  show ?thesis
  proof (cases "int (length rs) = wb_clients s")
    case True
    then have ne: "qs \<noteq> []" using assms(6) len by auto
    have "bench e s = Some (Inr (Next (fst (last qs), ParentReport (speed_sum qs) (failed_sum qs) (bytes_sum qs))))"
      unfolding sum_defs
      by (rule bench_reports_sums [where pids = "be_forks e"])
        (use assms(1,2) True ne len nn [unfolded nonneg_split] fit qs(1) in \<open>simp_all add: bench_starts_def line_of_split sum_defs\<close>)
    then show ?thesis using True sums by simp
  next
    case False
    have "be_forks e \<noteq> []" using assms(1,6) by (auto simp: bench_starts_def)
    then have "fork_loop (be_forks e) 0 0 (wb_clients s) = Some (wb_clients s, last (be_forks e))" "0 < last (be_forks e)"
      using assms(1) fork_loop_all [of "be_forks e" 0 0] by (auto simp: bench_starts_def list_all_iff)
    moreover have "collect_loop pipe_ends (map line_of qs) ijk (s\<lparr>wb_speed := 0, wb_failed := 0, wb_bytes := 0\<rparr>) = None" for ijk
      by (rule collect_loop_blocks) (use assms(7) False len nn fit in \<open>simp_all add: pipe_ends_def\<close>)
    ultimately show ?thesis
      using assms(1,2) False qs(1) by (simp add: bench_def bench_parent_def bench_starts_def)
  qed
qed

lemma counts_nonneg: "nonneg (counts rlen s c)"
  by (simp add: nonneg_def counts_def pages_def total_bytes_nonneg)

text \<open>
  A negative number of clients forks nobody: the process itself goes on as a client, and
  reports to a pipe that no one reads.
\<close>

lemma negative_clients_run_alone:
  "wb_clients s < 0 \<Longrightarrow> 0 \<le> be_connect e \<Longrightarrow> be_pipe e = 0 \<Longrightarrow> bench e s = bench_child e s"
  by (cases "be_forks e") (simp_all add: bench_def)

section \<open>Properties\<close>

text \<open>
  C23: a whole run of the benchmark. The options are accepted, the request is built, the
  server answers the test connection, the pipe and the clients are created, the timer of
  every client expires and its exchanges end. When every client reports, the program ends
  and prints the sums of what the clients have counted, each on its own copy of the
  counters, however their lines arrive. When a client ends without a report, the parent
  waits for its line for ever, because it has not closed its own write end of the pipe.
\<close>

theorem webbench_run_total:
  assumes "wb_prepare as arg webbench_globals = Inr (Next (info, s))" and "c_str (wb_request s) = Inr req"
    and "bench_starts e s" and "be_fdopen e" and "length cs = length (be_forks e)"
    and "list_all (client_ends (int (length req)) s) cs" and "pipe_delivers e cs s"
    and "sums_fit (map (counts (int (length req)) s) (filter reports cs))"
  shows "if list_all reports cs
    then \<exists>status. webbench_main e as arg =
      Some (Inr (Next (status, ParentReport
        (\<Sum>c\<leftarrow>cs. pages (int (length req)) s (tried c))
        (\<Sum>c\<leftarrow>cs. max 0 (failures (int (length req)) s (tried c) - 1))
        (\<Sum>c\<leftarrow>cs. total_bytes (int (length req)) s (tried c)))))
    else webbench_main e as arg = None"
proof -
  let ?count = "counts (int (length req)) s"
  let ?rs = "map ?count (filter reports cs)"
  have typed: "uncounted s" "wb_clients s \<noteq> 0"
    using prepared_typed [OF assms(1)] by (simp_all add: wb_typed_def uncounted_def)
  then have pos: "0 < wb_clients s" using assms(3) by (auto simp: bench_starts_def)
  have "mset (be_results e) = mset (map line_of ?rs)"
    using assms(7) pipe_text_lines [OF assms(3,5,6,2) typed(1)] by (simp add: pipe_delivers_def comp_def)
  moreover have "list_all nonneg ?rs" by (simp add: list_all_iff counts_nonneg)
  moreover have "int (length ?rs) \<le> wb_clients s"
    using assms(3,5) length_filter_le [of reports cs] by (simp add: bench_starts_def)
  ultimately have run: "if int (length ?rs) = wb_clients s
      then \<exists>status. bench e s = Some (Inr (Next (status, ParentReport (speed_sum ?rs) (failed_sum ?rs) (bytes_sum ?rs))))
      else bench e s = None"
    using parent_collects [OF assms(3,4) _ _ assms(8) pos] by blast
  have main: "webbench_main e as arg = bench e s" using assms(1) by (simp add: webbench_main_def)
  show ?thesis
  proof (cases "list_all reports cs")
    case True
    then have "filter reports cs = cs" by (simp add: list_all_iff filter_id_conv)
    with run main True assms(3,5) show ?thesis
      by (simp add: bench_starts_def sum_defs counts_def comp_def)
  next
    case False
    then have "length (filter reports cs) < length cs"
      by (auto simp: list_all_iff intro: length_filter_less)
    with run main False assms(3,5) show ?thesis by (auto simp: bench_starts_def)
  qed
qed

text \<open>Two clients: one reads a page of 120 bytes and fails once, the other is not answered at all.\<close>

definition demo_clients :: "int \<Rightarrow> client list" where
  "demo_clients n =
     [\<lparr>cl_sigaction = 0, cl_attempts = [good_attempt\<lparr>at_write := n\<rparr>, good_attempt\<lparr>at_expired := True\<rparr>], cl_fdopen = True\<rparr>,
      \<lparr>cl_sigaction = 0, cl_attempts = [good_attempt\<lparr>at_socket := - 1\<rparr>, good_attempt\<lparr>at_socket := - 1\<rparr>,
        good_attempt\<lparr>at_expired := True\<rparr>], cl_fdopen = True\<rparr>]"

definition demo_bench :: bench_env where
  "demo_bench = two_clients\<lparr>be_results := [[0, 1, 0], [1, 0, 120]]\<rparr>"

definition demo_args :: "wb_arg list" where
  "demo_args = [ShortOpt (CHR ''c'') ''2'']"

lemma demo_prepared:
  "\<exists>info s req. wb_prepare demo_args (Some ''http://h/'') webbench_globals = Inr (Next (info, s)) \<and>
     c_str (wb_request s) = Inr req \<and> wb_clients s = 2 \<and> wb_force s = 0 \<and> wb_http10 s = 1"
proof -
  let ?s = "webbench_globals\<lparr>wb_clients := 2\<rparr>"
  have c: "check_url ''http://h/'' ?s = Next 7"
    by (simp add: check_url_def strchr_def strncasecmp_eq_def lower_def webbench_globals_def)
  have "NUL \<notin> set ''http://h/''" "length (host_part (drop 7 ''http://h/'')) < MAXHOSTNAMELEN"
    "length (port_part (drop 7 ''http://h/'')) < 10"
    by (simp_all add: NUL_def host_part_def port_part_def authority_def MAXHOSTNAMELEN_def)
  then obtain s req where s: "build_request ''http://h/'' ?s = Inr (Next s)" "c_str (wb_request s) = Inr req"
    using build_request_ok [OF _ c] by blast
  have "adjust_http10 ?s = ?s" by (simp add: adjust_http10_def raise_http10_def webbench_globals_def method_defs Let_def)
  then have "wb_clients s = 2" "wb_force s = 0" "wb_http10 s = 1"
    using build_request_same [OF s(1)] by (simp_all add: same_options_def webbench_globals_def)
  moreover have "atoi ''2'' = Inr 2"
    by (simp add: atoi_def atoi_sign_def atoi_digits_def Let_def isspace_def is_digit_def undec_def of_char_def)
  then have "options_loop demo_args webbench_globals = Inr (Next ?s)"
    by (simp add: demo_args_def short_option_def run_def)
  ultimately show ?thesis using s by (simp add: wb_prepare_def demo_args_def Let_def webbench_globals_def)
qed

lemma demo_counts:
  assumes "wb_force s = 0" and "wb_http10 s = 1" and "wb_clients s = 2"
  shows "list_all (client_ends n s) (demo_clients n)" and "map (counts n s) (demo_clients n) = [(1, 0, 120), (0, 1, 0)]"
    and "list_all reports (demo_clients n)" and "bench_starts demo_bench s"
  using assms
  by (simp_all add: demo_clients_def client_ends_def tried_def good_attempt_def reads_end_def counts_def pages_def
      failures_def total_bytes_def attempt_bytes_def succeeds_def sent_request_def read_bytes_def reports_def
      bench_starts_def demo_bench_def two_clients_def)

theorem webbench_run_total_witness:
  "\<exists>status. webbench_main demo_bench demo_args (Some ''http://h/'') = Some (Inr (Next (status, ParentReport 1 1 120)))"
proof -
  obtain info s req where s: "wb_prepare demo_args (Some ''http://h/'') webbench_globals = Inr (Next (info, s))"
    "c_str (wb_request s) = Inr req" "wb_clients s = 2" "wb_force s = 0" "wb_http10 s = 1"
    using demo_prepared by blast
  let ?n = "int (length req)" and ?cs = "demo_clients (int (length req))"
  note demo = demo_counts [OF s(4,5,3)]
  have "uncounted s" using prepared_typed [OF s(1)] by (simp add: wb_typed_def uncounted_def)
  have len: "length ?cs = length (be_forks demo_bench)" by (simp add: demo_clients_def demo_bench_def two_clients_def)
  have all: "filter reports ?cs = ?cs" using demo(3) by (simp add: list_all_iff filter_id_conv)
  have "pipe_text demo_bench ?cs s = map line_of (map (counts ?n s) ?cs)"
    using pipe_text_lines [OF demo(4) len demo(1) s(2) \<open>uncounted s\<close>] all by (simp add: comp_def)
  then have d: "pipe_delivers demo_bench ?cs s"
    unfolding demo(2) by (simp add: pipe_delivers_def line_of_def demo_bench_def add_mset_commute)
  have "sums_fit (map (counts ?n s) (filter reports ?cs))"
    unfolding all demo(2) by (simp add: sums_fit_def sum_defs)
  moreover have "be_fdopen demo_bench" by (simp add: demo_bench_def two_clients_def)
  ultimately obtain status where "webbench_main demo_bench demo_args (Some ''http://h/'') =
      Some (Inr (Next (status, ParentReport (speed_sum (map (counts ?n s) ?cs)) (failed_sum (map (counts ?n s) ?cs))
        (bytes_sum (map (counts ?n s) ?cs)))))"
    using webbench_run_total [OF s(1,2) demo(4) _ len demo(1) d] demo(3) by (auto simp: sum_defs counts_def comp_def)
  then show ?thesis unfolding demo(2) by (simp add: sum_defs)
qed

end
