(* ===== verification/Spec2Isabelle.thy ===== *)
theory Spec2Isabelle
  imports Http_Start Http_Release Loop_Thread Log_Output Time_Stamp Memory_Pool Lfu_Policy Webbench_Run
begin

text \<open>
  A verification library for ckWebserver, a web server in C++ in the style of muduo: one
  event loop per thread on epoll, non-blocking connections, an HTTP layer, an asynchronous
  log, a memory pool, a least-frequently-used cache, and the benchmark client webbench.
  File names below are relative to \<open>src/\<close>.

  \<^bold>\<open>How the parts interact.\<close> \<open>TcpServer\<close> owns an \<open>Acceptor\<close> in its base loop and a pool of
  loop threads. A new descriptor becomes a \<open>TcpConnection\<close> that belongs to one loop; other
  threads reach it only by functors that they queue in that loop and that the loop runs
  after a wakeup. The loop asks the \<open>Poller\<close> for the \<open>Channel\<close>s with events and lets them
  call back; the connection reads into its input \<open>Buffer\<close> and calls the server's message
  handler. \<open>HttpServer::onMessage\<close> runs the parser \<open>HttpContext\<close> on the buffer, and
  \<open>onRequest\<close> sends the \<open>HttpResponse\<close> that the user's callback fills in through the
  connection's output path. All of them write log lines, which \<open>LogStream\<close> formats and
  \<open>AsyncLogging\<close> hands to a back-end thread that writes them to a \<open>LogFile\<close>.

  \<^bold>\<open>The theories.\<close>
  \<^item> \<open>Prelude\<close>: error values (\<open>cerror\<close>, \<open>res_bind\<close>), transition systems and the locale
    \<open>inductive_invariant\<close>, the C++ library algorithms the sources call.
  \<^item> \<open>Net_Buffer\<close> (\<open>include/Buffer.h\<close>, \<open>src/Buffer.cpp\<close>): the vector with its reader and
    writer index. Any sequence of operations is a lossless byte queue; every index stays
    in range.
  \<^item> \<open>Http_Request\<close>, \<open>Http_Context\<close>, \<open>Http_Response\<close> (\<open>include/Http*.h\<close>, \<open>src/http/\<close>):
    the parser terminates in its parsing states, computes a specification on the byte
    stream whatever the segmentation, and inverts a printer; the bytes of a response.
  \<^item> \<open>Channel_Poller\<close> (\<open>Channel\<close>, \<open>Poller\<close>, \<open>EPollPoller\<close>): registration state machine,
    legal \<open>epoll_ctl\<close> calls only, no dangling pointer after \<open>epoll_wait\<close>.
  \<^item> \<open>Event_Loop\<close> (\<open>EventLoop\<close>): functors run once and in order, no wakeup is lost, in
    every interleaving of the calling threads. \<open>Loop_Lifecycle\<close> (\<open>EventLoop\<close>, \<open>CurrentThread\<close>):
    construction and destruction, one loop per thread, \<open>runInLoop\<close> by thread id.
  \<^item> \<open>Tcp_Connection\<close> (\<open>TcpConnection\<close>): the output path conserves the byte stream and
    shuts the socket down exactly after the last byte.
  \<^item> \<open>Thread_Pool\<close> (\<open>InetAddress\<close>, \<open>Thread\<close>, \<open>EventLoopThread\<close>, \<open>EventLoopThreadPool\<close>) and
    \<open>Tcp_Server\<close> (\<open>Acceptor\<close>, \<open>TcpServer\<close>): the hand-over of a connection between loops is
    free of use after free, leak, double establishment and double destruction.
  \<^item> \<open>Loop_Thread\<close> (\<open>EventLoopThread\<close> with its \<open>EventLoop\<close>): the whole life of a loop thread,
    its destructor against the loop and the threads that use it.
  \<^item> \<open>Net_Socket\<close> (\<open>Socket\<close>, \<open>Acceptor\<close>): the descriptors and what is set on them; the life
    of the listening socket. \<open>Server_Descriptors\<close> (\<open>Socket\<close>, \<open>TcpConnection\<close>, \<open>TcpServer\<close>,
    \<open>EPollPoller\<close> together): over the runs of \<open>Tcp_Server\<close> no descriptor is lost or closed too
    early, and no poller points to a dead connection.
  \<^item> \<open>Http_Server\<close> (\<open>HttpServer\<close>) and \<open>Echo_Server\<close> (\<open>test/testserver.cpp\<close>): requests
    and responses over a connection, in any segments. \<open>Server_Main\<close> (\<open>test/testserver.cpp\<close>,
    \<open>TcpServer::start\<close>): the program up to its event loop.
  \<^item> \<open>Http_World\<close> (\<open>HttpServer\<close> over \<open>TcpServer\<close>): the HTTP server with all its loops,
    connections and descriptors; every connection does with the segments read from it what
    the specification \<open>session_of\<close> says. \<open>Http_Sessions\<close>: in every interleaving no handler
    fails or hangs, the responses of a connection are those to its requests, in order, and
    they can be delivered. \<open>Http_Release\<close>: a closed connection is freed, and its descriptor
    closed, by the functors that the loops have queued. \<open>Http_Start\<close> (\<open>HttpServer::start\<close>): a started server is in an
    initial state of these runs.
  \<^item> \<open>Log_Stream\<close> (\<open>FixedBuffer\<close>, \<open>LogStream\<close>, \<open>Timestamp\<close>, \<open>Logger\<close>), \<open>Log_File\<close>
    (\<open>FileUtil\<close>, \<open>LogFile\<close>) and \<open>Async_Logging\<close> (\<open>AsyncLogging\<close>): the layout of a line,
    and that no line is lost or reordered between front end, buffers and file.
    \<open>Log_Output\<close> (\<open>Logger\<close>): the output functions, a log statement into the asynchronous log.
    \<open>Time_Stamp\<close> (\<open>Timestamp\<close>): the order of timestamps, an instance of \<open>linorder\<close>, and of
    their texts.
  \<^item> \<open>Memory_Pool\<close> (\<open>MemoryPool\<close>, \<open>HashBucket\<close>): slots in use are disjoint and inside
    their blocks in every interleaving of the accesses to the free list, with the one access
    that can meet a null pointer, and the destructor frees all blocks.
  \<^item> \<open>Lfu_Cache\<close>, \<open>Lfu_Policy\<close> (\<open>include/LFU.h\<close>, \<open>include/CachePolicy.h\<close>): the linked
    lists refine an abstract cache with counts and aging; the interface is the locale
    \<open>cache_policy\<close>, interpreted for the plain and the sharded cache.
  \<^item> \<open>Webbench\<close> (\<open>webbench/webbench.c\<close>, \<open>webbench/socket.c\<close>): the options, the request
    inside its C arrays, the counters of a client. \<open>Webbench_Run\<close>: \<open>main\<close> with its clients
    and the pipe, up to the printed sums.
  \<^item> This theory: client and server together.

  \<^bold>\<open>Conventions.\<close> A class is a record with a field per member, a method a function of the
  record that returns it updated, an error path a value of \<open>cerror\<close> (or of the type that
  the method returns). Code outside the repository (system calls, \<open>operator new\<close>, the
  order of an \<open>unordered_map\<close>, hash functions, \<open>getopt_long\<close>, clocks) is a parameter, with
  what the code relies on as named hypotheses (\<open>ctl_honest\<close>, \<open>write_fits\<close>, \<open>write_no_reset\<close>,
  together \<open>kernel_ok\<close>, \<open>kernel_writes\<close>, \<open>new_ok\<close>, \<open>iteration_ok\<close>). Threads are step relations whose steps are the sections
  between the lock operations; where the code reaches a shared member without a common
  lock (the free list of the pool, \<open>loop_\<close> at the end of a loop thread), each access is a
  step of its own. Integers are unbounded where they stay small; where they
  can overflow the range is checked (\<open>IntOverflow\<close>), the pool's address arithmetic wraps
  on 64-bit words, ports and addresses are words.

  \<^bold>\<open>Loops and fuel.\<close> Loops are recursive functions with a termination proof; the loop of
  \<open>parseRequest\<close>, the write loop of \<open>FileUtil\<close> and the destructor of the memory pool may
  run forever on some states and are \<open>partial_function (option)\<close>, with theorems that they
  return in the reachable ones. There is no fuel. In \<open>Webbench\<close> the answers of blocking
  calls are lists whose end means that the call does not return; for the pipe of the
  clients it does so only because the parent holds a write end.

  \<^bold>\<open>Not modelled.\<close> The text of diagnostic output on standard output and of \<open>usage\<close>;
  floating-point computations (in \<open>addTime\<close> and in the rates that webbench prints they
  are parameters) and the digits of floating-point log items; \<open>Callback.h\<close>, \<open>noncopyable.h\<close>, \<open>copyable.h\<close>
  (declarations without behaviour); the C++ memory model: the unlocked accesses that the
  findings list are data races, and the models take them in one order, each as one step.
\<close>

section \<open>The benchmark client against the server\<close>

text \<open>
  What the parser of the server makes of a request that \<open>build_request\<close> has built without a
  proxy: the target is what follows the host in the URL, split at the question mark.
\<close>

definition bench_target :: "string \<Rightarrow> nat \<Rightarrow> string" where
  "bench_target url i = drop (length (authority (drop i url))) (drop i url)"

definition bench_headers :: "webbench \<Rightarrow> string \<Rightarrow> (string \<times> string) list" where
  "bench_headers s h = [(''User-Agent'', ''WebBench '' @ PROGRAM_VERSION), (''Host'', h)] @
     (if wb_http10 s > 1 then [(''Connection'', ''close'')] else [])"

definition bench_request :: "string \<Rightarrow> nat \<Rightarrow> webbench \<Rightarrow> http_request" where
  "bench_request url i s = HttpRequest_new\<lparr>
     req_method := (if wb_method s = METHOD_HEAD then kHead else kGet),
     req_version := (if wb_http10 s > 1 then kHttp11 else kHttp10),
     req_path := takeWhile (\<lambda>c. c \<noteq> CHR ''?'') (bench_target url i),
     req_query := dropWhile (\<lambda>c. c \<noteq> CHR ''?'') (bench_target url i)\<rparr>"

definition served_request :: "string \<Rightarrow> nat \<Rightarrow> webbench \<Rightarrow> int \<Rightarrow> http_request" where
  "served_request url i s t = (bench_request url i s)\<lparr>req_receiveTime := t,
     req_headers := fold (\<lambda>(k, v). map_put k v) (bench_headers s (host_part (drop i url))) []\<rparr>"

lemma request_text_lines:
  assumes "wb_proxyhost s = None" and "wb_http10 s = 1 \<or> wb_http10 s = 2"
    and "wb_method s = METHOD_GET \<or> wb_method s = METHOD_HEAD"
  shows "request_text url i s = print_request_line (bench_request url i s) @ kCRLF @
    print_headers (bench_headers s (host_part (drop i url))) @ kCRLF"
proof -
  have "CRLF = kCRLF" "crlf = kCRLF" by (simp_all add: CRLF_def kCRLF_def crlf_kCRLF)
  moreover have "method_text (wb_method s) = methodString (if wb_method s = METHOD_HEAD then kHead else kGet)"
    using assms(3) by (auto simp: method_text_def method_defs)
  ultimately show ?thesis
    using assms(1,2)
    by (auto simp: request_text_def print_request_line_def bench_request_def bench_headers_def bench_target_def
        version_pieces_def header_pieces_def version_text_def agent_text_def)
qed

lemma bench_request_printable:
  assumes "set (bench_target url i) \<inter> {CHR '' '', CHR 0x0D} = {}"
  shows "request_printable (bench_request url i s)"
proof -
  let ?t = "bench_target url i" and ?q = "dropWhile (\<lambda>c. c \<noteq> CHR ''?'') (bench_target url i)"
  have "set (takeWhile (\<lambda>c. c \<noteq> CHR ''?'') ?t) \<inter> {CHR '' '', CHR ''?'', CHR 0x0D} = {}"
    using assms by (auto dest: set_takeWhileD)
  moreover have "set ?q \<inter> {CHR '' '', CHR 0x0D} = {}" using assms by (auto dest: set_dropWhileD)
  moreover have "?q \<noteq> [] \<longrightarrow> hd ?q = CHR ''?''" using hd_dropWhile [of "\<lambda>c. c \<noteq> CHR ''?''" ?t] by auto
  ultimately show ?thesis
    by (simp add: bench_request_def request_printable_def HttpRequest_new_def)
qed

lemma bench_headers_printable:
  "header_printable (''Host'', h) \<Longrightarrow> list_all header_printable (bench_headers s h)"
  by (simp add: bench_headers_def header_printable_def PROGRAM_VERSION_def isspace_def)

lemma served_request_fields:
  "req_path (served_request url i s t) @ req_query (served_request url i s t) = bench_target url i"
  "getHeader ''Host'' (served_request url i s t) = host_part (drop i url)"
  "wants_close (served_request url i s t)"
  by (simp_all add: served_request_def bench_request_def bench_headers_def wants_close_def getHeader_def map_find_put)

text \<open>
  C1: client and server agree on the protocol. A request that the benchmark builds with GET
  or HEAD for HTTP/1.0 or 1.1 and no proxy, from an accepted URL whose target holds no
  space or carriage return, is answered by the server, when it arrives as one segment,
  with exactly the response to a request for this target and host; the request asks for
  the connection to be closed, so that the read loop of the client ends.
\<close>

theorem webbench_request_served:
  assumes url: "NUL \<notin> set url" "check_url url s = Next i" and direct: "wb_proxyhost s = None"
    and small: "length (host_part (drop i url)) < MAXHOSTNAMELEN" "length (port_part (drop i url)) < 10"
    and opts: "wb_http10 (adjust_http10 s) = 1 \<or> wb_http10 (adjust_http10 s) = 2"
      "wb_method s = METHOD_GET \<or> wb_method s = METHOD_HEAD"
    and plain: "set (bench_target url i) \<inter> {CHR '' '', CHR 0x0D} = {}"
      "header_printable (''Host'', host_part (drop i url))"
    and server: "kernel_ok k" "http_idle e" "tc_state (te_conn e) = kConnected"
  shows "\<exists>s' req e' r. build_request url s = Inr (Next s') \<and> c_str (wb_request s') = Inr req \<and>
    receive k cb (t, req) e = Some (Inr e') \<and> streamOut e' = streamOut e @ response_bytes cb r \<and>
    req_path r @ req_query r = bench_target url i \<and> getHeader ''Host'' r = host_part (drop i url) \<and>
    wants_close r"
proof -
  let ?s = "adjust_http10 s" and ?req = "request_text url i (adjust_http10 s)"
  obtain s' where s': "build_request url s = Inr (Next s')" "c_str (wb_request s') = Inr ?req"
    using build_request_ok [OF url] small by blast
  have "spec_parse t c ?req = (True, \<lparr>ctx_state = kGotAll, ctx_request = served_request url i ?s t\<rparr>, [])"
    if "ctx_ready c" for t c
    using spec_parse_lines [OF bench_request_printable [OF plain(1), of ?s]
        bench_headers_printable [OF plain(2), of ?s] that, of t "[]"] request_text_lines [of ?s url i] direct opts
    by (simp add: served_request_def)
  from receive_parsed [OF this server] obtain e' t1 where
    "receive k cb (t, ?req) e = Some (Inr e')" "streamOut e' = streamOut e @ response_bytes cb (served_request url i ?s t1)"
    by blast
  then show ?thesis using s' served_request_fields by blast
qed

theorem webbench_request_served_witness:
  "\<exists>s' req e' r. build_request ''http://h/a?b'' webbench_globals = Inr (Next s') \<and>
     c_str (wb_request s') = Inr req \<and>
     receive slow_kernel defaultHttpCallback (1, req) http_established = Some (Inr e') \<and>
     streamOut e' = response_bytes defaultHttpCallback r \<and> req_path r @ req_query r = ''/a?b''"
proof -
  let ?url = "''http://h/a?b''"
  have "check_url ?url webbench_globals = Next 7"
    by (simp add: check_url_def strchr_def strncasecmp_eq_def lower_def webbench_globals_def)
  moreover have "host_part (drop 7 ?url) = ''h''" "port_part (drop 7 ?url) = []" "bench_target ?url 7 = ''/a?b''"
    by (simp_all add: bench_target_def host_part_def port_part_def authority_def)
  moreover have "wb_http10 (adjust_http10 webbench_globals) = 1" "wb_method webbench_globals = METHOD_GET"
    "wb_proxyhost webbench_globals = None"
    by (simp_all add: adjust_http10_def raise_http10_def webbench_globals_def method_defs Let_def)
  moreover have "NUL \<notin> set ?url" "header_printable (''Host'', ''h'')"
    by (simp_all add: NUL_def header_printable_def isspace_def)
  ultimately show ?thesis
    using webbench_request_served [of ?url webbench_globals 7 slow_kernel http_established defaultHttpCallback 1]
      slow_kernel_all http_established_ok
    by (simp add: MAXHOSTNAMELEN_def) blast
qed

end
